(* ===== verification/Billing_Prelude.thy ===== *)
theory Billing_Prelude imports Complex_Main "HOL-Library.AList" begin

text \<open>
  Shared ground of the development: the lemma collections, the pieces of the Python
  standard library the source uses on strings and numbers, JSON values, and the generic
  lemmas on association lists and on delimiter-separated names that the components share.

  Numbers. Python floats and Lua numbers are exact rationals here; rounding that the
  source asks for (\<open>round(x, 4)\<close>, \<open>f"{x:.6f}"\<close>, \<open>math.ceil\<close>) is written out. The
  rounding error of binary floating point is not modelled.
\<close>

named_theorems store_simps \<open>lookups after updates of the stored values\<close>
named_theorems prog_simps \<open>evaluation of the translated programs\<close>
named_theorems key_simps \<open>equality of the Redis keys the program builds\<close>

subsection \<open>Python strings\<close>

text \<open>
  Header values are Latin-1 text, one character per byte. \<open>str.strip()\<close> removes the
  characters for which \<open>str.isspace()\<close> holds; below code point 256 these are the
  codes listed here.
\<close>

definition py_isspace :: "char \<Rightarrow> bool" where
  "py_isspace c = (let n = (of_char c :: nat) in
     (9 \<le> n \<and> n \<le> 13) \<or> (28 \<le> n \<and> n \<le> 32) \<or> n = 133 \<or> n = 160)"

definition py_strip :: "string \<Rightarrow> string" where
  "py_strip s = rev (dropWhile py_isspace (rev (dropWhile py_isspace s)))"

lemma dropWhile_fixed: "(xs \<noteq> [] \<Longrightarrow> \<not> P (hd xs)) \<Longrightarrow> dropWhile P xs = xs"
  by (cases xs) auto

lemma hd_dropWhile_rev_dropWhile:
  assumes "rev (dropWhile P (rev (dropWhile P s))) \<noteq> []"
  shows "\<not> P (hd (rev (dropWhile P (rev (dropWhile P s)))))"
proof -
  let ?d = "dropWhile P s"
  obtain n where n: "dropWhile P (rev ?d) = drop n (rev ?d)"
    using dropWhile_eq_drop by blast
  have eq: "rev (dropWhile P (rev ?d)) = take (length ?d - n) ?d"
    by (simp add: n rev_drop)
  with assms have "hd (take (length ?d - n) ?d) = hd ?d" and "?d \<noteq> []"
    by (auto simp: hd_take)
  then show ?thesis using eq hd_dropWhile [of P s] by simp
qed

lemma py_strip_idem: "py_strip (py_strip s) = py_strip s"
proof -
  let ?t = "py_strip s"
  have left: "dropWhile py_isspace ?t = ?t"
    using hd_dropWhile_rev_dropWhile [of py_isspace s]
    by (intro dropWhile_fixed) (simp add: py_strip_def)
  have "dropWhile py_isspace (rev ?t) = rev ?t"
    by (simp add: py_strip_def)
  with left show ?thesis by (simp add: py_strip_def [of ?t])
qed

lemma py_strip_empty_iff: "py_strip s = [] \<longleftrightarrow> (\<forall>c \<in> set s. py_isspace c)"
proof -
  have "py_strip s = [] \<longleftrightarrow> (\<forall>c \<in> set (dropWhile py_isspace s). py_isspace c)"
    by (simp add: py_strip_def dropWhile_eq_Nil_conv)
  also have "\<dots> \<longleftrightarrow> (\<forall>c \<in> set s. py_isspace c)"
    by (induction s) auto
  finally show ?thesis .
qed

subsection \<open>Rounding\<close>

text \<open>Python's \<open>round\<close> and \<open>format\<close> round to nearest, ties to even.\<close>

definition round_half_even :: "rat \<Rightarrow> int" where
  "round_half_even x =
     (let f = \<lfloor>x\<rfloor>; d = x - of_int f in
      if d < 1/2 then f else if 1/2 < d then f + 1 else if even f then f else f + 1)"

definition py_round :: "rat \<Rightarrow> nat \<Rightarrow> rat" where
  "py_round x n = of_int (round_half_even (x * 10 ^ n)) / 10 ^ n"

lemma round_half_even_of_int: "round_half_even (of_int n) = n"
  by (simp add: round_half_even_def)

lemma round_half_even_error: "\<bar>of_int (round_half_even x) - x\<bar> \<le> 1/2"
proof -
  have "of_int \<lfloor>x\<rfloor> \<le> x" and "x < of_int \<lfloor>x\<rfloor> + 1"
    by linarith+
  then show ?thesis
    by (auto simp: round_half_even_def Let_def abs_le_iff)
qed

lemma round_half_even_nonneg:
  assumes "0 \<le> x" shows "0 \<le> round_half_even x"
proof -
  from assms have "0 \<le> \<lfloor>x\<rfloor>" by simp
  then show ?thesis by (auto simp: round_half_even_def Let_def)
qed

lemma round_half_even_mono:
  assumes "x \<le> y" shows "round_half_even x \<le> round_half_even y"
proof -
  have near: "\<lfloor>z\<rfloor> \<le> round_half_even z \<and> round_half_even z \<le> \<lfloor>z\<rfloor> + 1" for z
    by (simp add: round_half_even_def Let_def)
  show ?thesis
  proof (cases "\<lfloor>x\<rfloor> = \<lfloor>y\<rfloor>")
    case True
    with assms show ?thesis by (auto simp: round_half_even_def Let_def)
  next
    case False
    with floor_mono [OF assms] have "\<lfloor>x\<rfloor> + 1 \<le> \<lfloor>y\<rfloor>" by simp
    with near [of x] near [of y] show ?thesis by linarith
  qed
qed

lemma py_round_mono: "x \<le> y \<Longrightarrow> py_round x n \<le> py_round y n"
  by (simp add: py_round_def divide_right_mono mult_right_mono round_half_even_mono)

lemma py_round_error: "\<bar>py_round x n - x\<bar> \<le> 1 / (2 * 10 ^ n)"
proof -
  let ?p = "10 ^ n :: rat"
  have "\<bar>of_int (round_half_even (x * ?p)) - x * ?p\<bar> / ?p \<le> (1/2) / ?p"
    by (intro divide_right_mono round_half_even_error) simp
  moreover have "of_int (round_half_even (x * ?p)) / ?p - x
      = (of_int (round_half_even (x * ?p)) - x * ?p) / ?p"
    by (simp add: field_simps)
  ultimately show ?thesis by (simp add: py_round_def abs_divide)
qed

lemma py_round_nonneg: "0 \<le> x \<Longrightarrow> 0 \<le> py_round x n"
  by (simp add: py_round_def round_half_even_nonneg)

lemma py_round_idem: "py_round (py_round x n) n = py_round x n"
  by (simp add: py_round_def round_half_even_of_int)

subsection \<open>Stored text and JSON\<close>

text \<open>
  A string in Redis is kept as what it renders: \<open>Text s\<close> is text that \<open>float\<close> and
  \<open>tonumber\<close> do not read as a finite number where the source reads numbers, \<open>Number x\<close> is
  what \<open>str(x)\<close> or Lua's number conversion write and \<open>float\<close> and \<open>tonumber\<close> read back,
  \<open>Json j\<close> is \<open>json.dumps(j)\<close>, and \<open>Iso t\<close> is \<open>isoformat()\<close> of the instant \<open>t\<close>
  (microseconds since the epoch). JSON values are what responses carry and \<open>json.dumps\<close>
  renders; \<open>JText b\<close> is the JSON string that is the rendering of \<open>b\<close>.
\<close>

datatype json =
    JNull | JBool bool | JNum rat | JStr string | JText bulk
  | JArr "json list" | JObj "(string \<times> json) list"
and bulk = Text string | Number rat | Json json | Iso int

subsection \<open>Association lists\<close>

lemma length_update_alist:
  "length (AList.update k v al)
     = (if k \<in> fst ` set al then length al else Suc (length al))"
  by (induction al) auto

lemma length_delete_alist_le: "length (AList.delete k al) \<le> length al"
  by (simp add: AList.delete_eq)

lemma update_alist_nonempty [simp]: "AList.update k v al \<noteq> []"
  by (induction al) auto

lemma map_of_filter_kept: "map_of al k = Some v \<Longrightarrow> P (k, v) \<Longrightarrow> map_of (filter P al) k = Some v"
  by (induction al) (auto split: if_splits)

lemma delete_update_alist_fresh:
  "k \<notin> fst ` set al \<Longrightarrow> AList.delete k (AList.update k v al) = al"
  by (induction al) (auto simp: AList.delete_eq filter_id_conv)

text \<open>Setting several fields one after the other, as \<open>HSET\<close> with several pairs does.\<close>

definition update_fields :: "('k \<times> 'v) list \<Rightarrow> ('k \<times> 'v) list \<Rightarrow> ('k \<times> 'v) list" where
  "update_fields al ps = fold (\<lambda>(k, v). AList.update k v) ps al"

lemma update_fields_Nil [simp]: "update_fields al [] = al"
  by (simp add: update_fields_def)

lemma update_fields_Cons [simp]:
  "update_fields al ((k, v) # ps) = update_fields (AList.update k v al) ps"
  by (simp add: update_fields_def)

lemma map_of_update_fields:
  "distinct (map fst ps) \<Longrightarrow> map_of (update_fields al ps) = map_of al ++ map_of ps"
proof (induction ps arbitrary: al)
  case Nil
  then show ?case by simp
next
  case (Cons p ps)
  obtain k v where p: "p = (k, v)" by (cases p)
  with Cons.prems have "map_of ps k = None" by (simp add: map_of_eq_None_iff)
  then show ?case
    using Cons p by (auto simp: update_conv' map_add_def fun_eq_iff split: option.splits)
qed

lemma update_fields_nonempty: "ps \<noteq> [] \<Longrightarrow> update_fields al ps \<noteq> []"
proof (induction ps arbitrary: al)
  case Nil
  then show ?case by simp
next
  case (Cons p ps)
  then show ?case by (cases p; cases ps) auto
qed

subsection \<open>Names joined by a delimiter\<close>

lemma split_at_delimiter:
  assumes "a @ x # b = c @ x # d" and "x \<notin> set a" and "x \<notin> set c"
  shows "a = c \<and> b = d"
  using assms
proof (induction a arbitrary: c)
  case Nil
  then show ?case by (cases c) auto
next
  case (Cons y a)
  then show ?case by (cases c) auto
qed

lemmas split_at_colon = split_at_delimiter [where x = "CHR '':''"]

text \<open>Counting in a list, and in a list with one entry replaced.\<close>

lemma length_filter_imp:
  "(\<And>x. x \<in> set xs \<Longrightarrow> P x \<Longrightarrow> Q x) \<Longrightarrow> length (filter P xs) \<le> length (filter Q xs)"
  by (induction xs) auto

lemma length_filter_update:
  "i < length xs \<Longrightarrow> length (filter P (xs[i := y])) + (if P (xs ! i) then 1 else 0)
     = length (filter P xs) + (if P y then 1 else 0)"
proof (induction xs arbitrary: i)
  case (Cons x xs)
  show ?case
  proof (cases i)
    case (Suc j)
    with Cons.IH [of j] Cons.prems show ?thesis by simp
  qed simp
qed simp

lemma sum_map_update:
  "i < length xs \<Longrightarrow> sum_list (map f (xs[i := y])) = sum_list (map f xs) + f y - (f (xs ! i) :: 'b :: ab_group_add)"
proof (induction xs arbitrary: i)
  case (Cons x xs)
  show ?case
  proof (cases i)
    case (Suc j)
    with Cons.IH [of j] Cons.prems show ?thesis by (simp add: algebra_simps)
  qed simp
qed simp

text \<open>Properties of the tags of a tagged list.\<close>

lemma same_tags:
  assumes "map fst xs = map fst ys"
  shows "length (filter (\<lambda>t. P (fst t)) xs) = length (filter (\<lambda>t. P (fst t)) ys)"
    and "(\<forall>(x, p) \<in> set xs. R x) \<longleftrightarrow> (\<forall>(x, p) \<in> set ys. R x)"
proof -
  have "length (filter (\<lambda>t. P (fst t)) zs) = length (filter P (map fst zs))" for zs :: "('a \<times> 'c) list"
    by (simp add: filter_map comp_def)
  moreover have "length (filter (\<lambda>t. P (fst t)) zs) = length (filter P (map fst zs))" for zs :: "('a \<times> 'b) list"
    by (simp add: filter_map comp_def)
  ultimately show "length (filter (\<lambda>t. P (fst t)) xs) = length (filter (\<lambda>t. P (fst t)) ys)" using assms by metis
  have "(\<forall>(x, p) \<in> set zs. R x) \<longleftrightarrow> (\<forall>x \<in> set (map fst zs). R x)" for zs :: "('a \<times> 'c) list" by auto
  moreover have "(\<forall>(x, p) \<in> set zs. R x) \<longleftrightarrow> (\<forall>x \<in> set (map fst zs). R x)" for zs :: "('a \<times> 'b) list" by auto
  ultimately show "(\<forall>(x, p) \<in> set xs. R x) \<longleftrightarrow> (\<forall>(x, p) \<in> set ys. R x)" using assms by metis
qed

lemma same_tags_update: "i < length ts \<Longrightarrow> ts ! i = (x, p) \<Longrightarrow> map fst (ts[i := (x, q)]) = map fst ts"
  by (simp add: map_update list_update_same_conv)

end
