(* ===== verification/Redis_Commands.thy ===== *)
theory Redis_Commands imports Billing_Prelude begin

text \<open>
  The vocabulary of the Redis protocol as far as the source uses it: stored values,
  commands, replies, and Lua scripts. No command has a meaning here; what the server does
  with a command is the parameter \<open>exec\<close> of the theories that follow.
\<close>

datatype rvalue =
    RString bulk
  | RHash "(string \<times> bulk) list"
  | RZSet "(string \<times> rat) list"
  | RStream "(string \<times> (string \<times> bulk) list) list"

text \<open>An entry of the keyspace: the value and the server time at which it expires.\<close>

type_synonym entry = "rvalue \<times> int option"

datatype rcmd =
    TIME
  | HMGET string "string list"
  | HGET string string
  | HGETALL string
  | HSET string "(string \<times> bulk) list"
  | EXPIRE string int
  | ZREMRANGEBYSCORE string rat \<comment> \<open>from \<open>-inf\<close> up to the score, inclusive\<close>
  | ZCARD string
  | ZADD string rat string
  | ZREM string string
  | SET_NX_EX string bulk int
  | XADD string "(string \<times> bulk) list"
  | XLEN string

datatype reply =
    RNil | RInt int | RBulk bulk | RArray "reply list"
  | RMap "(string \<times> bulk) list" | RError string

text \<open>The key a command names; \<open>TIME\<close> names none.\<close>

fun key_of :: "rcmd \<Rightarrow> string option" where
  "key_of TIME = None"
| "key_of (HMGET k _) = Some k"
| "key_of (HGET k _) = Some k"
| "key_of (HGETALL k) = Some k"
| "key_of (HSET k _) = Some k"
| "key_of (EXPIRE k _) = Some k"
| "key_of (ZREMRANGEBYSCORE k _) = Some k"
| "key_of (ZCARD k) = Some k"
| "key_of (ZADD k _ _) = Some k"
| "key_of (ZREM k _) = Some k"
| "key_of (SET_NX_EX k _ _) = Some k"
| "key_of (XADD k _) = Some k"
| "key_of (XLEN k) = Some k"

subsection \<open>Lua scripts\<close>

text \<open>
  A script is a sequence of \<open>redis.call\<close>s, each continuing with the reply, that ends in
  the value it returns. An error reply of \<open>redis.call\<close> ends the script with that error;
  what ran before stays.
\<close>

datatype lua = Lua_Return reply | Lua_Call rcmd "reply \<Rightarrow> lua"

type_synonym 's exec = "rcmd \<Rightarrow> 's \<Rightarrow> reply \<times> 's"

primrec run_lua :: "'s exec \<Rightarrow> lua \<Rightarrow> 's \<Rightarrow> reply \<times> 's" where
  "run_lua ex (Lua_Return r) s = (r, s)"
| "run_lua ex (Lua_Call c k) s =
     (case ex c s of (r, s') \<Rightarrow>
        (case r of RError e \<Rightarrow> (RError e, s') | _ \<Rightarrow> run_lua ex (k r) s'))"

text \<open>Lua's \<open>tonumber\<close> on a reply: \<open>nil\<close> where it is not a number.\<close>

fun lua_tonumber :: "reply \<Rightarrow> rat option" where
  "lua_tonumber (RBulk (Number x)) = Some x"
| "lua_tonumber (RInt n) = Some (of_int n)"
| "lua_tonumber _ = None"

text \<open>Lua's \<open>t[i]\<close> (from 1): \<open>nil\<close> out of range and on a value that holds no list.\<close>

fun lua_index :: "reply \<Rightarrow> nat \<Rightarrow> reply" where
  "lua_index (RArray rs) i = (if 1 \<le> i \<and> i \<le> length rs then rs ! (i - 1) else RNil)"
| "lua_index _ _ = RNil"

text \<open>A request to the server: one command, or a script it runs without interruption.\<close>

datatype call = Cmd rcmd | Eval lua

primrec serve :: "'s exec \<Rightarrow> call \<Rightarrow> 's \<Rightarrow> reply \<times> 's" where
  "serve ex (Cmd c) s = ex c s"
| "serve ex (Eval l) s = run_lua ex l s"

primrec lua_cmds :: "(rcmd \<Rightarrow> bool) \<Rightarrow> lua \<Rightarrow> bool" where
  "lua_cmds P (Lua_Return r) = True"
| "lua_cmds P (Lua_Call c k) = (P c \<and> (\<forall>r. lua_cmds P (k r)))"

primrec call_cmds :: "(rcmd \<Rightarrow> bool) \<Rightarrow> call \<Rightarrow> bool" where
  "call_cmds P (Cmd c) = P c"
| "call_cmds P (Eval l) = lua_cmds P l"

text \<open>A property every command of a request keeps is kept by the request.\<close>

lemma run_lua_keeps:
  assumes "\<And>c s r s'. P c \<Longrightarrow> I s \<Longrightarrow> ex c s = (r, s') \<Longrightarrow> I s'"
    and "lua_cmds P l" and "I s" and "run_lua ex l s = (r, s')"
  shows "I s'"
  using assms(2-4)
proof (induction l arbitrary: s)
  case (Lua_Return x)
  then show ?case by simp
next
  case (Lua_Call c k)
  obtain r1 s1 where e: "ex c s = (r1, s1)" by (cases "ex c s")
  with Lua_Call.prems assms(1) have "I s1" by simp blast
  with Lua_Call e show ?case by (cases r1) auto
qed

lemma serve_keeps:
  assumes "\<And>c s r s'. P c \<Longrightarrow> I s \<Longrightarrow> ex c s = (r, s') \<Longrightarrow> I s'"
    and "call_cmds P c" and "I s" and "serve ex c s = (r, s')"
  shows "I s'"
proof (cases c)
  case (Cmd x)
  with assms(2-4) show ?thesis using assms(1) [of x s r s'] by simp
next
  case (Eval l)
  with assms(2-4) show ?thesis
    using run_lua_keeps [of P I ex l s r s', OF assms(1)] by simp
qed

lemma lua_cmds_mono: "lua_cmds P l \<Longrightarrow> (\<And>c. P c \<Longrightarrow> Q c) \<Longrightarrow> lua_cmds Q l"
  by (induction l) auto

lemma call_cmds_mono: "call_cmds P c \<Longrightarrow> (\<And>x. P x \<Longrightarrow> Q x) \<Longrightarrow> call_cmds Q c"
  by (cases c) (auto intro: lua_cmds_mono)

end
