(* ===== verification/Programs.thy ===== *)
theory Programs imports Redis_Commands begin

text \<open>
  Python code that talks to the outside: a tree of the calls it makes, each continued by
  what comes back. Exceptions are a second way to end. \<open>run\<close> executes one program against
  a server with a list of what the environment does (replies delivered, requests or
  replies lost, clock readings, fresh identifiers); a list that is too short is a process
  that died there. \<open>sys_step\<close> interleaves any number of programs with one server, one
  call at a time, with the same faults, arriving requests and passing time.

  The client is built without a socket timeout, so a call whose reply is lost may also wait
  without end. In \<open>sys_step\<close> that is a thread that makes the \<open>lost\<close> step and no step after it:
  no thread has to go on, and what the others and the server see is the same.
\<close>

datatype exn =
    RedisError string
  | ValueError
  | KeyError string
  | InvoiceNotFound string
  | ValidationError json
  | OtherException string

datatype 'a prog =
    Return 'a
  | Raise exn
  | Call call "reply \<Rightarrow> 'a prog"
  | Now "rat \<Rightarrow> 'a prog"      \<comment> \<open>\<open>time.time()\<close>\<close>
  | Uuid4 "string \<Rightarrow> 'a prog" \<comment> \<open>\<open>uuid.uuid4().hex\<close>\<close>

primrec bnd :: "'a prog \<Rightarrow> ('a \<Rightarrow> 'b prog) \<Rightarrow> 'b prog" where
  "bnd (Return x) f = f x"
| "bnd (Raise e) f = Raise e"
| "bnd (Call c k) f = Call c (\<lambda>r. bnd (k r) f)"
| "bnd (Now k) f = Now (\<lambda>t. bnd (k t) f)"
| "bnd (Uuid4 k) f = Uuid4 (\<lambda>u. bnd (k u) f)"

text \<open>A pure function that may raise, called from a program.\<close>

definition lift_exn :: "exn + 'a \<Rightarrow> 'a prog" where
  "lift_exn r = (case r of Inl e \<Rightarrow> Raise e | Inr x \<Rightarrow> Return x)"

lemma lift_exn_simps [simp]: "lift_exn (Inl e) = Raise e" "lift_exn (Inr x) = Return x"
  by (simp_all add: lift_exn_def)

text \<open>\<open>try: p except Exception as e: h(e)\<close>\<close>

primrec catch :: "'a prog \<Rightarrow> (exn \<Rightarrow> 'a prog) \<Rightarrow> 'a prog" where
  "catch (Return x) h = Return x"
| "catch (Raise e) h = h e"
| "catch (Call c k) h = Call c (\<lambda>r. catch (k r) h)"
| "catch (Now k) h = Now (\<lambda>t. catch (k t) h)"
| "catch (Uuid4 k) h = Uuid4 (\<lambda>u. catch (k u) h)"

text \<open>\<open>try: x = p except Exception: h else: f(x)\<close>: \<open>h\<close> does not guard \<open>f\<close>.\<close>

primrec try_else :: "'a prog \<Rightarrow> (exn \<Rightarrow> 'b prog) \<Rightarrow> ('a \<Rightarrow> 'b prog) \<Rightarrow> 'b prog" where
  "try_else (Return x) h f = f x"
| "try_else (Raise e) h f = h e"
| "try_else (Call c k) h f = Call c (\<lambda>r. try_else (k r) h f)"
| "try_else (Now k) h f = Now (\<lambda>t. try_else (k t) h f)"
| "try_else (Uuid4 k) h f = Uuid4 (\<lambda>u. try_else (k u) h f)"

text \<open>\<open>try: p finally: f\<close>\<close>

primrec finally_do :: "'a prog \<Rightarrow> unit prog \<Rightarrow> 'a prog" where
  "finally_do (Return x) f = bnd f (\<lambda>_. Return x)"
| "finally_do (Raise e) f = bnd f (\<lambda>_. Raise e)"
| "finally_do (Call c k) f = Call c (\<lambda>r. finally_do (k r) f)"
| "finally_do (Now k) f = Now (\<lambda>t. finally_do (k t) f)"
| "finally_do (Uuid4 k) f = Uuid4 (\<lambda>u. finally_do (k u) f)"

text \<open>A call of the Redis client: an error reply or a broken connection raises.\<close>

definition redis_py :: "call \<Rightarrow> reply prog" where
  "redis_py c = Call c (\<lambda>r. case r of RError e \<Rightarrow> Raise (RedisError e) | _ \<Rightarrow> Return r)"

subsection \<open>Running one program\<close>

datatype input = Deliver | Unsent | Lost | Reads rat | Draws string

datatype 'a outcome = Done 'a | Raised exn | Crashed

abbreviation "net_error \<equiv> RError ''connection''"

primrec run :: "'s exec \<Rightarrow> 'a prog \<Rightarrow> input list \<Rightarrow> 's \<Rightarrow> 'a outcome \<times> input list \<times> 's" where
  "run ex (Return x) t s = (Done x, t, s)"
| "run ex (Raise e) t s = (Raised e, t, s)"
| "run ex (Call c k) t s =
     (case t of
        Deliver # t' \<Rightarrow> (case serve ex c s of (r, s') \<Rightarrow> run ex (k r) t' s')
      | Unsent # t' \<Rightarrow> run ex (k net_error) t' s
      | Lost # t' \<Rightarrow> run ex (k net_error) t' (snd (serve ex c s))
      | _ \<Rightarrow> (Crashed, t, s))"
| "run ex (Now k) t s =
     (case t of Reads x # t' \<Rightarrow> run ex (k x) t' s | _ \<Rightarrow> (Crashed, t, s))"
| "run ex (Uuid4 k) t s =
     (case t of Draws u # t' \<Rightarrow> run ex (k u) t' s | _ \<Rightarrow> (Crashed, t, s))"

lemma bnd_assoc: "bnd (bnd p f) g = bnd p (\<lambda>x. bnd (f x) g)"
  by (induction p) auto

lemma run_bnd [prog_simps]:
  "run ex (bnd p f) t s =
     (case run ex p t s of
        (Done x, t', s') \<Rightarrow> run ex (f x) t' s'
      | (Raised e, t', s') \<Rightarrow> (Raised e, t', s')
      | (Crashed, t', s') \<Rightarrow> (Crashed, t', s'))"
  by (induction p arbitrary: t s) (auto split: list.splits input.splits prod.splits)

lemma run_catch [prog_simps]:
  "run ex (catch p h) t s =
     (case run ex p t s of
        (Raised e, t', s') \<Rightarrow> run ex (h e) t' s'
      | (Done x, t', s') \<Rightarrow> (Done x, t', s')
      | (Crashed, t', s') \<Rightarrow> (Crashed, t', s'))"
  by (induction p arbitrary: t s) (auto split: list.splits input.splits prod.splits)

lemma run_try_else [prog_simps]:
  "run ex (try_else p h f) t s =
     (case run ex p t s of
        (Done x, t', s') \<Rightarrow> run ex (f x) t' s'
      | (Raised e, t', s') \<Rightarrow> run ex (h e) t' s'
      | (Crashed, t', s') \<Rightarrow> (Crashed, t', s'))"
  by (induction p arbitrary: t s) (auto split: list.splits input.splits prod.splits)

lemma run_finally [prog_simps]:
  "run ex (finally_do p f) t s =
     (case run ex p t s of
        (Done x, t', s') \<Rightarrow> run ex (bnd f (\<lambda>_. Return x)) t' s'
      | (Raised e, t', s') \<Rightarrow> run ex (bnd f (\<lambda>_. Raise e)) t' s'
      | (Crashed, t', s') \<Rightarrow> (Crashed, t', s'))"
  by (induction p arbitrary: t s) (auto split: list.splits input.splits prod.splits)

fun reply_outcome :: "reply \<Rightarrow> reply outcome" where
  "reply_outcome (RError e) = Raised (RedisError e)"
| "reply_outcome r = Done r"

lemma reply_outcome_ok: "(\<And>e. r \<noteq> RError e) \<Longrightarrow> reply_outcome r = Done r"
  by (cases r) auto

lemma run_redis_py [prog_simps]:
  "run ex (redis_py c) t s =
     (case t of
        Deliver # t' \<Rightarrow> (case serve ex c s of (r, s') \<Rightarrow> (reply_outcome r, t', s'))
      | Unsent # t' \<Rightarrow> (Raised (RedisError ''connection''), t', s)
      | Lost # t' \<Rightarrow> (Raised (RedisError ''connection''), t', snd (serve ex c s))
      | _ \<Rightarrow> (Crashed, t, s))"
  by (auto simp: redis_py_def split: list.splits input.splits prod.splits reply.splits)

subsection \<open>The calls a program can make\<close>

primrec calls_in :: "(call \<Rightarrow> bool) \<Rightarrow> 'a prog \<Rightarrow> bool" where
  "calls_in P (Return x) = True"
| "calls_in P (Raise e) = True"
| "calls_in P (Call c k) = (P c \<and> (\<forall>r. calls_in P (k r)))"
| "calls_in P (Now k) = (\<forall>t. calls_in P (k t))"
| "calls_in P (Uuid4 k) = (\<forall>u. calls_in P (k u))"

lemma calls_in_bnd: "calls_in P p \<Longrightarrow> (\<And>x. calls_in P (f x)) \<Longrightarrow> calls_in P (bnd p f)"
  by (induction p) auto

lemma calls_in_catch: "calls_in P p \<Longrightarrow> (\<And>e. calls_in P (h e)) \<Longrightarrow> calls_in P (catch p h)"
  by (induction p) auto

lemma calls_in_try_else:
  "calls_in P p \<Longrightarrow> (\<And>e. calls_in P (h e)) \<Longrightarrow> (\<And>x. calls_in P (f x))
     \<Longrightarrow> calls_in P (try_else p h f)"
  by (induction p) auto

lemma calls_in_finally: "calls_in P p \<Longrightarrow> calls_in P f \<Longrightarrow> calls_in P (finally_do p f)"
  by (induction p) (auto intro: calls_in_bnd)

lemma calls_in_redis_py: "P c \<Longrightarrow> calls_in P (redis_py c)"
  by (auto simp: redis_py_def split: reply.splits)

lemmas calls_in_intros =
  calls_in_bnd calls_in_catch calls_in_try_else calls_in_finally calls_in_redis_py

lemma calls_in_mono: "calls_in P p \<Longrightarrow> (\<And>c. P c \<Longrightarrow> Q c) \<Longrightarrow> calls_in Q p"
  by (induction p) auto

lemma calls_in_conj: "calls_in (\<lambda>c. P c \<and> Q c) p \<longleftrightarrow> calls_in P p \<and> calls_in Q p"
  by (induction p) auto

subsection \<open>Many programs, one server\<close>

type_synonym ('s, 'a) config = "'s \<times> 'a prog list"

inductive sys_step :: "'s exec \<Rightarrow> (nat \<Rightarrow> 's \<Rightarrow> 's) \<Rightarrow> 'a prog set
    \<Rightarrow> ('s, 'a) config \<Rightarrow> nat \<Rightarrow> ('s, 'a) config \<Rightarrow> bool"
  for ex elapse req where
  delivered: "i < length ps \<Longrightarrow> ps ! i = Call c k \<Longrightarrow> serve ex c s = (r, s') \<Longrightarrow>
     sys_step ex elapse req (s, ps) 0 (s', ps[i := k r])"
| unsent: "i < length ps \<Longrightarrow> ps ! i = Call c k \<Longrightarrow>
     sys_step ex elapse req (s, ps) 0 (s, ps[i := k (RError e)])"
| lost: "i < length ps \<Longrightarrow> ps ! i = Call c k \<Longrightarrow> serve ex c s = (r, s') \<Longrightarrow>
     sys_step ex elapse req (s, ps) 0 (s', ps[i := k (RError e)])"
| reads_clock: "i < length ps \<Longrightarrow> ps ! i = Now k \<Longrightarrow>
     sys_step ex elapse req (s, ps) 0 (s, ps[i := k t])"
| draws_uuid: "i < length ps \<Longrightarrow> ps ! i = Uuid4 k \<Longrightarrow>
     sys_step ex elapse req (s, ps) 0 (s, ps[i := k u])"
| arrives: "p \<in> req \<Longrightarrow> sys_step ex elapse req (s, ps) 0 (s, ps @ [p])"
| passes: "sys_step ex elapse req (s, ps) d (elapse d s, ps)"

inductive sys_reach :: "'s exec \<Rightarrow> (nat \<Rightarrow> 's \<Rightarrow> 's) \<Rightarrow> 'a prog set
    \<Rightarrow> 's \<Rightarrow> nat \<Rightarrow> ('s, 'a) config \<Rightarrow> bool"
  for ex elapse req s0 where
  start: "sys_reach ex elapse req s0 0 (s0, [])"
| step: "sys_reach ex elapse req s0 T cf \<Longrightarrow> sys_step ex elapse req cf d cf' \<Longrightarrow>
     sys_reach ex elapse req s0 (T + d) cf'"

lemmas sys_moves =
  sys_reach.step [OF _ sys_step.delivered, simplified]
  sys_reach.step [OF _ sys_step.unsent, simplified]
  sys_reach.step [OF _ sys_step.lost, simplified]
  sys_reach.step [OF _ sys_step.reads_clock, simplified]
  sys_reach.step [OF _ sys_step.draws_uuid, simplified]

text \<open>What \<open>run\<close> does is one of the things the interleaved system can do.\<close>

lemma run_reaches:
  assumes "run ex p tape s = (Done x, tape', s')"
    and "sys_reach ex elapse req s0 T (s, ps)" and "i < length ps" and "ps ! i = p"
  shows "sys_reach ex elapse req s0 T (s', ps[i := Return x])"
  using assms
proof (induction p arbitrary: tape s ps)
  case (Return y)
  then show ?case using list_update_id [of ps i] by auto
next
  case (Raise e)
  then show ?case by simp
next
  case (Call c k)
  have go: ?case if "run ex (k r) t' s1 = (Done x, tape', s')"
      and "sys_reach ex elapse req s0 T (s1, ps[i := k r])" for r t' s1
    using Call.IH [OF rangeI that] Call.prems(3) by simp
  obtain r s1 where e: "serve ex c s = (r, s1)" by (cases "serve ex c s")
  from Call.prems(1) obtain j t' where t: "tape = j # t'"
    by (cases tape) auto
  show ?case
  proof (cases j)
    case Deliver
    with Call.prems(1) e t have "run ex (k r) t' s1 = (Done x, tape', s')" by simp
    then show ?thesis using sys_moves(1) [OF Call.prems(2-4) e] by (rule go)
  next
    case Unsent
    with Call.prems(1) t have "run ex (k net_error) t' s = (Done x, tape', s')" by simp
    then show ?thesis using sys_moves(2) [OF Call.prems(2-4)] by (rule go)
  next
    case Lost
    with Call.prems(1) e t have "run ex (k net_error) t' s1 = (Done x, tape', s')" by simp
    then show ?thesis using sys_moves(3) [OF Call.prems(2-4) e] by (rule go)
  qed (use Call.prems(1) t in simp_all)
next
  case (Now k)
  from Now.prems(1) obtain v t' where "tape = Reads v # t'"
    and "run ex (k v) t' s = (Done x, tape', s')"
    by (auto split: list.splits input.splits)
  then show ?case
    using Now.IH [OF rangeI _ sys_moves(4) [OF Now.prems(2-4)]] Now.prems(3) by simp
next
  case (Uuid4 k)
  from Uuid4.prems(1) obtain v t' where "tape = Draws v # t'"
    and "run ex (k v) t' s = (Done x, tape', s')"
    by (auto split: list.splits input.splits)
  then show ?case
    using Uuid4.IH [OF rangeI _ sys_moves(5) [OF Uuid4.prems(2-4)]] Uuid4.prems(3) by simp
qed

lemma run_alone_reaches:
  assumes "run ex p tape s0 = (Done x, tape', s')" and "p \<in> req"
  shows "sys_reach ex elapse req s0 0 (s', [Return x])"
proof -
  have "sys_reach ex elapse req s0 (0 + 0) (s0, [] @ [p])"
    using sys_reach.start sys_step.arrives [OF assms(2)] by (rule sys_reach.step)
  then show ?thesis using run_reaches [OF assms(1), of elapse req s0 0 "[p]" 0] by simp
qed

text \<open>A property of programs that their own steps keep is kept by the system.\<close>

lemma ball_update: "\<forall>p \<in> set ps. Q p \<Longrightarrow> Q q \<Longrightarrow> \<forall>p \<in> set (ps[i := q]). Q p"
  using set_update_subset_insert [of ps i q] by blast

fun nexts :: "'a prog \<Rightarrow> 'a prog set" where
  "nexts (Return x) = {}"
| "nexts (Raise e) = {}"
| "nexts (Call c k) = range k"
| "nexts (Now k) = range k"
| "nexts (Uuid4 k) = range k"

definition step_closed :: "('a prog \<Rightarrow> bool) \<Rightarrow> bool" where
  "step_closed Q \<longleftrightarrow> (\<forall>p q. Q p \<and> q \<in> nexts p \<longrightarrow> Q q)"

lemma step_closedD:
  assumes "step_closed Q" and "Q p" and "q \<in> nexts p"
  shows "Q q"
proof -
  from assms(1) have "\<forall>p q. Q p \<and> q \<in> nexts p \<longrightarrow> Q q" by (simp only: step_closed_def)
  from spec [OF spec [OF this, of p], of q] assms(2,3) show ?thesis by simp
qed

lemma step_closed_calls_in: "step_closed (calls_in P)"
proof -
  have "calls_in P q" if "calls_in P p" and "q \<in> nexts p" for p q :: "'a prog"
    using that by (cases p) auto
  then show ?thesis unfolding step_closed_def by blast
qed

lemma sys_step_threads:
  assumes "sys_step ex elapse req cf d cf'" and closed: "step_closed Q"
    and arr: "\<forall>p \<in> req. Q p" and "\<forall>p \<in> set (snd cf). Q p"
  shows "\<forall>p \<in> set (snd cf'). Q p"
proof -
  have nth: "Q p" if "\<forall>p \<in> set ps. Q p" and "i < length ps" and "ps ! i = p" for ps i p
    using that by auto
  from assms(1,4) show ?thesis
  proof (induction rule: sys_step.induct)
    case (delivered i ps c k s r s')
    then have "Q (Call c k)" by (intro nth [of ps i]) simp_all
    then have "Q (k r)" by (rule step_closedD [OF closed]) simp
    with delivered.prems show ?case using ball_update [of ps Q "k r" i] by simp
  next
    case (unsent i ps c k s e)
    then have "Q (Call c k)" by (intro nth [of ps i]) simp_all
    then have "Q (k (RError e))" by (rule step_closedD [OF closed]) simp
    with unsent.prems show ?case using ball_update [of ps Q "k (RError e)" i] by simp
  next
    case (lost i ps c k s r s' e)
    then have "Q (Call c k)" by (intro nth [of ps i]) simp_all
    then have "Q (k (RError e))" by (rule step_closedD [OF closed]) simp
    with lost.prems show ?case using ball_update [of ps Q "k (RError e)" i] by simp
  next
    case (reads_clock i ps k s t)
    then have "Q (Now k)" by (intro nth [of ps i]) simp_all
    then have "Q (k t)" by (rule step_closedD [OF closed]) simp
    with reads_clock.prems show ?case using ball_update [of ps Q "k t" i] by simp
  next
    case (draws_uuid i ps k s u)
    then have "Q (Uuid4 k)" by (intro nth [of ps i]) simp_all
    then have "Q (k u)" by (rule step_closedD [OF closed]) simp
    with draws_uuid.prems show ?case using ball_update [of ps Q "k u" i] by simp
  next
    case (arrives p s ps)
    with arr show ?case by simp
  next
    case (passes s ps d)
    then show ?case by simp
  qed
qed

lemma sys_reach_threads:
  assumes "sys_reach ex elapse req s0 T cf" and "step_closed Q" and "\<forall>p \<in> req. Q p"
  shows "\<forall>p \<in> set (snd cf). Q p"
  using assms(1)
proof (induction rule: sys_reach.induct)
  case start
  then show ?case by simp
next
  case (step T cf d cf')
  from sys_step_threads [OF step.hyps(2) assms(2,3) step.IH] show ?case .
qed

text \<open>
  The contract of a store that only meets allowed requests: each request keeps the
  invariant, whoever sends it and whether or not its reply arrives, and so does the
  passing of time. Then no interleaving of programs that make only allowed requests
  breaks the invariant.
\<close>

locale guarded_store =
  fixes ex :: "'s exec" and elapse :: "nat \<Rightarrow> 's \<Rightarrow> 's"
    and allowed :: "call \<Rightarrow> bool" and inv :: "'s \<Rightarrow> bool"
  assumes serve_inv: "allowed c \<Longrightarrow> inv s \<Longrightarrow> serve ex c s = (r, s') \<Longrightarrow> inv s'"
    and elapse_inv: "inv s \<Longrightarrow> inv (elapse d s)"
begin

lemma thread_allowed:
  "\<forall>p \<in> set ps. calls_in allowed p \<Longrightarrow> i < length ps \<Longrightarrow> ps ! i = Call c k \<Longrightarrow> allowed c"
  by (metis calls_in.simps(3) nth_mem)

lemma step_inv:
  assumes "sys_step ex elapse req cf d cf'" and "\<forall>p \<in> set (snd cf). calls_in allowed p"
    and "inv (fst cf)"
  shows "inv (fst cf')"
  using assms
proof (induction rule: sys_step.induct)
  case (delivered i ps c k s r s')
  then have "allowed c" by (auto intro: thread_allowed)
  with delivered show ?case by (auto intro: serve_inv)
next
  case (lost i ps c k s r s' e)
  then have "allowed c" by (auto intro: thread_allowed)
  with lost show ?case by (auto intro: serve_inv)
qed (auto intro: elapse_inv)

lemma reach_inv:
  assumes "sys_reach ex elapse req s0 T cf" and "\<forall>p \<in> req. calls_in allowed p"
    and "inv s0"
  shows "inv (fst cf)"
  using assms(1)
proof (induction rule: sys_reach.induct)
  case start
  with assms(3) show ?case by simp
next
  case (step T cf d cf')
  have "\<forall>p \<in> set (snd cf). calls_in allowed p"
    by (rule sys_reach_threads [OF step.hyps(1) step_closed_calls_in assms(2)])
  with step.hyps(2) show ?case using step.IH by (rule step_inv)
qed

end

end
