(* ===== verification/Http.thy ===== *)
theory Http imports Programs begin

text \<open>
  Requests and responses as far as the source looks at them, and the tenant of a request
  (\<open>billing/interfaces/api/incoming/tenant.py\<close>).
\<close>

record 'b HttpRequest =
  req_method :: string
  req_path :: string
  tenant_header :: "string option"
  req_body :: 'b

record HttpResponse =
  resp_status :: int
  resp_content :: json
  retry_after :: "int option"

type_synonym 'b handler = "'b HttpRequest \<Rightarrow> HttpResponse prog"

subsection \<open>The tenant\<close>

definition TENANT_HEADER :: string where
  "TENANT_HEADER = ''X-Tenant-ID''"

text \<open>\<open>(request.headers.get(TENANT_HEADER) or "").strip()\<close>\<close>

definition header_tenant :: "'b HttpRequest \<Rightarrow> string" where
  "header_tenant request = py_strip (case tenant_header request of None \<Rightarrow> '''' | Some h \<Rightarrow> h)"

definition resolve_tenant :: "'b HttpRequest \<Rightarrow> exn + string" where
  "resolve_tenant request =
     (let tenant_id = header_tenant request in
      if tenant_id = ''''
      then Inl (ValidationError (JObj [(TENANT_HEADER, JArr [JStr ''This header is required.''])]))
      else Inr tenant_id)"

lemma resolve_tenant_header:
  "header_tenant r \<noteq> [] \<Longrightarrow> resolve_tenant r = Inr (header_tenant r)"
  by (simp add: resolve_tenant_def Let_def)

lemma header_tenant_stripped: "py_strip (header_tenant r) = header_tenant r"
  by (simp add: header_tenant_def py_strip_idem)

end
