(* ===== verification/Redis_Server.thy ===== *)
theory Redis_Server imports Programs begin

text \<open>
  The Redis server is not part of the source: it is the parameter \<open>exec\<close> of every theorem,
  with the documented behaviour of the thirteen commands the source uses as the laws of the
  locale \<open>redis_server\<close>. \<open>view s k\<close> is the live entry at key \<open>k\<close> (expired keys are gone),
  \<open>clock s\<close> the server time in microseconds, \<open>elapse d\<close> the passing of \<open>d\<close> microseconds.
  A request that fails in the network is not the server's affair: \<open>Programs.run\<close> and
  \<open>sys_step\<close> cover it.
  \<open>Redis_Reference\<close> has a store in memory that obeys every law.
\<close>

subsection \<open>Typed reading of entries\<close>

fun as_hash :: "entry option \<Rightarrow> (string \<times> bulk) list option" where
  "as_hash None = Some []"
| "as_hash (Some (RHash h, _)) = Some h"
| "as_hash (Some _) = None"

fun as_zset :: "entry option \<Rightarrow> (string \<times> rat) list option" where
  "as_zset None = Some []"
| "as_zset (Some (RZSet z, _)) = Some z"
| "as_zset (Some _) = None"

fun as_stream :: "entry option \<Rightarrow> (string \<times> (string \<times> bulk) list) list option" where
  "as_stream None = Some []"
| "as_stream (Some (RStream x, _)) = Some x"
| "as_stream (Some _) = None"

fun deadline_of :: "entry option \<Rightarrow> int option" where
  "deadline_of None = None"
| "deadline_of (Some (_, d)) = d"

text \<open>A sorted set that has become empty is deleted with its key.\<close>

definition zset_entry :: "(string \<times> rat) list \<Rightarrow> int option \<Rightarrow> entry option" where
  "zset_entry z d = (if z = [] then None else Some (RZSet z, d))"

lemma as_zset_entry [simp, store_simps]: "as_zset (zset_entry z d) = Some z"
  by (simp add: zset_entry_def)

text \<open>The type a command needs of its key.\<close>

fun type_ok :: "rcmd \<Rightarrow> entry option \<Rightarrow> bool" where
  "type_ok (HMGET _ _) e = (as_hash e \<noteq> None)"
| "type_ok (HGET _ _) e = (as_hash e \<noteq> None)"
| "type_ok (HGETALL _) e = (as_hash e \<noteq> None)"
| "type_ok (HSET _ _) e = (as_hash e \<noteq> None)"
| "type_ok (ZREMRANGEBYSCORE _ _) e = (as_zset e \<noteq> None)"
| "type_ok (ZCARD _) e = (as_zset e \<noteq> None)"
| "type_ok (ZADD _ _ _) e = (as_zset e \<noteq> None)"
| "type_ok (ZREM _ _) e = (as_zset e \<noteq> None)"
| "type_ok (XADD _ _) e = (as_stream e \<noteq> None)"
| "type_ok (XLEN _) e = (as_stream e \<noteq> None)"
| "type_ok _ e = True"

abbreviation "usec \<equiv> (1000000 :: int)"

definition field_reply :: "(string \<times> bulk) list \<Rightarrow> string \<Rightarrow> reply" where
  "field_reply h f = (case map_of h f of None \<Rightarrow> RNil | Some b \<Rightarrow> RBulk b)"

definition drop_scores :: "rat \<Rightarrow> (string \<times> rat) list \<Rightarrow> (string \<times> rat) list" where
  "drop_scores cutoff z = filter (\<lambda>(m, x). \<not> x \<le> cutoff) z"

subsection \<open>The documented behaviour\<close>

locale redis_server =
  fixes exec :: "'s exec"
    and view :: "'s \<Rightarrow> string \<Rightarrow> entry option"
    and clock :: "'s \<Rightarrow> int"
    and elapse :: "nat \<Rightarrow> 's \<Rightarrow> 's"
  assumes frame: "key_of c \<noteq> Some k \<Longrightarrow> view (snd (exec c s)) k = view s k"
    and clock_exec: "clock (snd (exec c s)) = clock s"
    and wrong_type:
      "key_of c = Some k \<Longrightarrow> \<not> type_ok c (view s k) \<Longrightarrow> \<exists>e. exec c s = (RError e, s)"
    and time: "exec TIME s =
      (RArray [RBulk (Number (of_int (clock s div usec))),
               RBulk (Number (of_int (clock s mod usec)))], s)"
    and hmget: "as_hash (view s k) = Some h \<Longrightarrow>
      exec (HMGET k fs) s = (RArray (map (field_reply h) fs), s)"
    and hget: "as_hash (view s k) = Some h \<Longrightarrow> exec (HGET k f) s = (field_reply h f, s)"
    and hgetall: "as_hash (view s k) = Some h \<Longrightarrow>
      \<exists>h'. exec (HGETALL k) s = (RMap h', s) \<and> map_of h' = map_of h"
    and hset: "as_hash (view s k) = Some h \<Longrightarrow> ps \<noteq> [] \<Longrightarrow>
      \<exists>n s'. exec (HSET k ps) s = (RInt n, s') \<and>
        view s' k = Some (RHash (update_fields h ps), deadline_of (view s k))"
    and expire: "0 < n \<Longrightarrow>
      \<exists>j s'. exec (EXPIRE k n) s = (RInt j, s') \<and>
        view s' k = map_option (\<lambda>(v, _). (v, Some (clock s + n * usec))) (view s k)"
    and zremrangebyscore: "as_zset (view s k) = Some z \<Longrightarrow>
      \<exists>n s'. exec (ZREMRANGEBYSCORE k x) s = (RInt n, s') \<and>
        view s' k = zset_entry (drop_scores x z) (deadline_of (view s k))"
    and zcard: "as_zset (view s k) = Some z \<Longrightarrow> exec (ZCARD k) s = (RInt (int (length z)), s)"
    and zadd: "as_zset (view s k) = Some z \<Longrightarrow>
      \<exists>n s'. exec (ZADD k x m) s = (RInt n, s') \<and>
        view s' k = Some (RZSet (AList.update m x z), deadline_of (view s k))"
    and zrem: "as_zset (view s k) = Some z \<Longrightarrow>
      \<exists>n s'. exec (ZREM k m) s = (RInt n, s') \<and>
        view s' k = zset_entry (AList.delete m z) (deadline_of (view s k))"
    and set_nx_fresh: "view s k = None \<Longrightarrow> 0 < n \<Longrightarrow>
      \<exists>s'. exec (SET_NX_EX k b n) s = (RBulk (Text ''OK''), s') \<and>
        view s' k = Some (RString b, Some (clock s + n * usec))"
    and set_nx_taken: "view s k \<noteq> None \<Longrightarrow> 0 < n \<Longrightarrow> exec (SET_NX_EX k b n) s = (RNil, s)"
    and xadd: "as_stream (view s k) = Some es \<Longrightarrow> ps \<noteq> [] \<Longrightarrow>
      \<exists>i s'. i \<noteq> [] \<and> exec (XADD k ps) s = (RBulk (Text i), s') \<and>
        view s' k = Some (RStream (es @ [(i, ps)]), deadline_of (view s k))"
    and xlen: "as_stream (view s k) = Some es \<Longrightarrow> exec (XLEN k) s = (RInt (int (length es)), s)"
    and clock_elapse: "clock (elapse d s) = clock s + int d"
    and elapse_live: "(\<And>dl. deadline_of (view s k) = Some dl \<Longrightarrow> clock s + int d < dl) \<Longrightarrow>
      view (elapse d s) k = view s k"
    and elapse_dead: "deadline_of (view s k) = Some dl \<Longrightarrow> dl < clock s + int d \<Longrightarrow>
      view (elapse d s) k = None"
    and elapse_either: "view (elapse d s) k = None \<or> view (elapse d s) k = view s k"
begin

lemma point_update:
  assumes "exec c s = (r, s')" and "key_of c = Some k" and "view s' k = e"
  shows "view s' = (view s)(k := e)" and "clock s' = clock s"
proof -
  have "view s' j = view s j" if "j \<noteq> k" for j
    using frame [of c j s] that assms by simp
  with assms(3) show "view s' = (view s)(k := e)" by auto
  show "clock s' = clock s" using clock_exec [of c s] assms(1) by simp
qed

text \<open>Each write as an update of the view at one key.\<close>

lemma hset_view:
  assumes "as_hash (view s k) = Some h" and "ps \<noteq> []"
  obtains n s' where "exec (HSET k ps) s = (RInt n, s')"
    and "view s' = (view s)(k := Some (RHash (update_fields h ps), deadline_of (view s k)))" and "clock s' = clock s"
  using hset [OF assms] by (metis key_of.simps point_update)

lemma expire_view:
  assumes "0 < n"
  obtains j s' where "exec (EXPIRE k n) s = (RInt j, s')"
    and "view s' = (view s)(k := map_option (\<lambda>(v, _). (v, Some (clock s + n * usec))) (view s k))" and "clock s' = clock s"
  using expire [OF assms] by (metis key_of.simps point_update)

lemma zremrangebyscore_view:
  assumes "as_zset (view s k) = Some z"
  obtains n s' where "exec (ZREMRANGEBYSCORE k x) s = (RInt n, s')"
    and "view s' = (view s)(k := zset_entry (drop_scores x z) (deadline_of (view s k)))" and "clock s' = clock s"
  using zremrangebyscore [OF assms] by (metis key_of.simps point_update)

lemma zadd_view:
  assumes "as_zset (view s k) = Some z"
  obtains n s' where "exec (ZADD k x m) s = (RInt n, s')"
    and "view s' = (view s)(k := Some (RZSet (AList.update m x z), deadline_of (view s k)))" and "clock s' = clock s"
  using zadd [OF assms] by (metis key_of.simps point_update)

lemma zrem_view:
  assumes "as_zset (view s k) = Some z"
  obtains n s' where "exec (ZREM k m) s = (RInt n, s')"
    and "view s' = (view s)(k := zset_entry (AList.delete m z) (deadline_of (view s k)))" and "clock s' = clock s"
  using zrem [OF assms] by (metis key_of.simps point_update)

lemma set_nx_view:
  assumes "view s k = None" and "0 < n"
  obtains s' where "exec (SET_NX_EX k b n) s = (RBulk (Text ''OK''), s')"
    and "view s' = (view s)(k := Some (RString b, Some (clock s + n * usec)))" and "clock s' = clock s"
  using set_nx_fresh [OF assms] by (metis key_of.simps point_update)

lemma xadd_view:
  assumes "as_stream (view s k) = Some es" and "ps \<noteq> []"
  obtains i s' where "i \<noteq> []" and "exec (XADD k ps) s = (RBulk (Text i), s')"
    and "view s' = (view s)(k := Some (RStream (es @ [(i, ps)]), deadline_of (view s k)))" and "clock s' = clock s"
  using xadd [OF assms] by (metis key_of.simps point_update)

text \<open>Setting fields and then the expiry of their key, as two requests.\<close>

lemma hset_expire:
  assumes h: "as_hash (view s k) = Some h" and "ps \<noteq> []" and "0 < n"
  obtains j1 s1 j2 s2 where "exec (HSET k ps) s = (RInt j1, s1)" and "exec (EXPIRE k n) s1 = (RInt j2, s2)"
    and "view s2 = (view s)(k := Some (RHash (update_fields h ps), Some (clock s + n * usec)))"
    and "clock s2 = clock s"
proof -
  obtain j1 s1 where 1: "exec (HSET k ps) s = (RInt j1, s1)"
    and v1: "view s1 = (view s)(k := Some (RHash (update_fields h ps), deadline_of (view s k)))"
    and c1: "clock s1 = clock s"
    by (rule hset_view [OF h assms(2)])
  obtain j2 s2 where 2: "exec (EXPIRE k n) s1 = (RInt j2, s2)"
    and v2: "view s2 = (view s1)(k := map_option (\<lambda>(v, _). (v, Some (clock s1 + n * usec))) (view s1 k))"
    and c2: "clock s2 = clock s1"
    by (rule expire_view [OF assms(3)])
  show ?thesis by (rule that [OF 1 2]) (simp_all add: v1 v2 c1 c2)
qed

text \<open>A request leaves alone every key that none of its commands names.\<close>

lemma serve_frame:
  assumes "call_cmds (\<lambda>x. key_of x \<noteq> Some k) c" and "serve exec c s = (r, s')"
  shows "view s' k = view s k"
  by (rule serve_keeps [where P = "\<lambda>x. key_of x \<noteq> Some k" and I = "\<lambda>t. view t k = view s k",
        OF _ assms(1) refl assms(2)])
     (metis frame snd_conv)

lemma serve_clock: "serve exec c s = (r, s') \<Longrightarrow> clock s' = clock s"
proof (rule serve_keeps [where P = "\<lambda>_. True" and I = "\<lambda>t. clock t = clock s" and c = c])
  show "clock t' = clock s" if "clock t = clock s" and "exec x t = (r, t')" for x t r t'
    using clock_exec [of x t] that by simp
  have "lua_cmds (\<lambda>_. True) l" for l by (induction l) auto
  then show "call_cmds (\<lambda>_. True) c" by (cases c) auto
qed simp_all

end


text \<open>
  A key that no request names keeps its entry, until it expires if it can: another
  instance of a guarded store.
\<close>

definition kept_or_expired :: "entry option \<Rightarrow> entry option \<Rightarrow> bool" where
  "kept_or_expired e e' \<longleftrightarrow> e' = e \<or> deadline_of e \<noteq> None \<and> e' = None"

sublocale redis_server \<subseteq> bystander: guarded_store exec elapse
    "call_cmds (\<lambda>x. key_of x \<noteq> Some k)" "\<lambda>s. kept_or_expired e (view s k)" for k e
proof unfold_locales
  show "kept_or_expired e (view s' k)"
    if "call_cmds (\<lambda>x. key_of x \<noteq> Some k) c" and "kept_or_expired e (view s k)" and "serve exec c s = (r, s')"
    for c s r s'
    using serve_frame [OF that(1,3)] that(2) by simp
  show "kept_or_expired e (view (elapse d s) k)" if "kept_or_expired e (view s k)" for s d
  proof (cases "view s k = e \<and> deadline_of e = None")
    case True
    then have "view (elapse d s) k = view s k" by (intro elapse_live) simp
    with True show ?thesis by (simp add: kept_or_expired_def)
  next
    case False
    with that elapse_either [of d s k] show ?thesis by (auto simp: kept_or_expired_def)
  qed
qed

context redis_server
begin

lemma reach_bystander:
  assumes "sys_reach exec elapse req s0 T (s, ps)"
    and "\<forall>p \<in> req. calls_in (call_cmds (\<lambda>x. key_of x \<noteq> Some k)) p"
  shows "kept_or_expired (view s0 k) (view s k)"
  using bystander.reach_inv [OF assms, of "view s0 k"] by (simp add: kept_or_expired_def)

end

end
