(* ===== verification/Redis_Reference.thy ===== *)
theory Redis_Reference imports Redis_Server begin

text \<open>
  A server in memory that obeys the laws of \<open>redis_server\<close>. No theorem about the source
  rests on it; the interpretation shows that the laws can hold together, and the witnesses
  of the properties run the source's programs on it.
\<close>

record mem =
  mem_clock :: int
  mem_data :: "string \<Rightarrow> entry option"

definition put :: "string \<Rightarrow> entry option \<Rightarrow> mem \<Rightarrow> mem" where
  "put k e m = m\<lparr>mem_data := (mem_data m)(k := e)\<rparr>"

lemma put_simps [simp]:
  "mem_data (put k e m) = (mem_data m)(k := e)" "mem_clock (put k e m) = mem_clock m"
  by (simp_all add: put_def)

abbreviation "wrongtype \<equiv> RError ''WRONGTYPE''"

definition with_hash :: "mem \<Rightarrow> string \<Rightarrow> ((string \<times> bulk) list \<Rightarrow> reply \<times> mem) \<Rightarrow> reply \<times> mem" where
  "with_hash m k f = (case as_hash (mem_data m k) of None \<Rightarrow> (wrongtype, m) | Some h \<Rightarrow> f h)"

definition with_zset :: "mem \<Rightarrow> string \<Rightarrow> ((string \<times> rat) list \<Rightarrow> reply \<times> mem) \<Rightarrow> reply \<times> mem" where
  "with_zset m k f = (case as_zset (mem_data m k) of None \<Rightarrow> (wrongtype, m) | Some z \<Rightarrow> f z)"

definition with_stream :: "mem \<Rightarrow> string
    \<Rightarrow> ((string \<times> (string \<times> bulk) list) list \<Rightarrow> reply \<times> mem) \<Rightarrow> reply \<times> mem" where
  "with_stream m k f =
     (case as_stream (mem_data m k) of None \<Rightarrow> (wrongtype, m) | Some x \<Rightarrow> f x)"

lemmas with_defs = with_hash_def with_zset_def with_stream_def

definition grown :: "nat \<Rightarrow> nat \<Rightarrow> reply" where
  "grown new old = RInt (int new - int old)"

fun mem_exec :: "mem exec" where
  "mem_exec TIME m =
     (RArray [RBulk (Number (of_int (mem_clock m div usec))),
              RBulk (Number (of_int (mem_clock m mod usec)))], m)"
| "mem_exec (HMGET k fs) m = with_hash m k (\<lambda>h. (RArray (map (field_reply h) fs), m))"
| "mem_exec (HGET k f) m = with_hash m k (\<lambda>h. (field_reply h f, m))"
| "mem_exec (HGETALL k) m = with_hash m k (\<lambda>h. (RMap h, m))"
| "mem_exec (HSET k ps) m = with_hash m k (\<lambda>h.
     if ps = [] then (RError ''ERR wrong number of arguments'', m)
     else (grown (length (update_fields h ps)) (length h),
           put k (Some (RHash (update_fields h ps), deadline_of (mem_data m k))) m))"
| "mem_exec (EXPIRE k n) m =
     (RInt (if mem_data m k = None then 0 else 1),
      put k (map_option (\<lambda>(v, _). (v, Some (mem_clock m + n * usec))) (mem_data m k)) m)"
| "mem_exec (ZREMRANGEBYSCORE k x) m = with_zset m k (\<lambda>z.
     (grown (length z) (length (drop_scores x z)),
      put k (zset_entry (drop_scores x z) (deadline_of (mem_data m k))) m))"
| "mem_exec (ZCARD k) m = with_zset m k (\<lambda>z. (RInt (int (length z)), m))"
| "mem_exec (ZADD k x i) m = with_zset m k (\<lambda>z.
     (grown (length (AList.update i x z)) (length z),
      put k (Some (RZSet (AList.update i x z), deadline_of (mem_data m k))) m))"
| "mem_exec (ZREM k i) m = with_zset m k (\<lambda>z.
     (grown (length z) (length (AList.delete i z)),
      put k (zset_entry (AList.delete i z) (deadline_of (mem_data m k))) m))"
| "mem_exec (SET_NX_EX k b n) m =
     (if mem_data m k = None
      then (RBulk (Text ''OK''), put k (Some (RString b, Some (mem_clock m + n * usec))) m)
      else (RNil, m))"
| "mem_exec (XADD k ps) m = with_stream m k (\<lambda>es.
     if ps = [] then (RError ''ERR wrong number of arguments'', m)
     else (let i = replicate (Suc (length es)) (CHR ''1'') in
       (RBulk (Text i),
        put k (Some (RStream (es @ [(i, ps)]), deadline_of (mem_data m k))) m)))"
| "mem_exec (XLEN k) m = with_stream m k (\<lambda>es. (RInt (int (length es)), m))"

definition alive :: "int \<Rightarrow> entry option \<Rightarrow> entry option" where
  "alive now e =
     (case deadline_of e of None \<Rightarrow> e | Some x \<Rightarrow> if now < x then e else None)"

definition mem_elapse :: "nat \<Rightarrow> mem \<Rightarrow> mem" where
  "mem_elapse d m =
     m\<lparr>mem_clock := mem_clock m + int d,
       mem_data := (\<lambda>k. alive (mem_clock m + int d) (mem_data m k))\<rparr>"

definition mem_at :: "int \<Rightarrow> mem" where
  "mem_at t = \<lparr>mem_clock = t, mem_data = (\<lambda>_. None)\<rparr>"

interpretation mem: redis_server mem_exec mem_data mem_clock mem_elapse
proof (unfold_locales, goal_cases)
  case (1 c k s)
  then show ?case
    by (cases c) (auto simp: with_defs Let_def split: option.splits)
next
  case (2 c s)
  then show ?case
    by (cases c) (auto simp: with_defs Let_def split: option.splits)
next
  case (3 c k s)
  then show ?case
    by (cases c) (auto simp: with_defs)
qed (auto simp: with_defs mem_elapse_def alive_def grown_def Let_def split: option.splits)

end
