(* ===== verification/Key_Schema.thy ===== *)
theory Key_Schema imports Billing_Prelude begin

text \<open>
  The Redis keys the source builds, each an f-string over the tenant id: the idempotency
  marker and the event stream (\<open>event_repository.py\<close>), the rate-limit bucket
  (\<open>rate_limiter.py\<close>), the concurrency set (\<open>middleware.py\<close>), the pricing table and the
  invoice (\<open>billing_calculator.py\<close>, \<open>invoice_generator.py\<close>). The lemmas say when two of
  them are the same key.
\<close>

definition idempotency_key :: "string \<Rightarrow> string \<Rightarrow> string" where
  "idempotency_key tenant_id idem = ''billing:idem:'' @ tenant_id @ '':'' @ idem"

definition stream_key :: "string \<Rightarrow> string" where
  "stream_key tenant_id = ''billing:events:'' @ tenant_id"

definition bucket_key :: "string \<Rightarrow> string" where
  "bucket_key tenant_id = ''billing:ratelimit:'' @ tenant_id"

definition concurrency_key :: "string \<Rightarrow> string" where
  "concurrency_key tenant_id = ''billing:concurrency:'' @ tenant_id"

definition pricing_key :: "string \<Rightarrow> string" where
  "pricing_key tenant_id = ''billing:pricing:'' @ tenant_id"

definition invoice_key :: "string \<Rightarrow> string \<Rightarrow> string" where
  "invoice_key tenant_id invoice_id = ''billing:invoice:'' @ tenant_id @ '':'' @ invoice_id"

lemmas key_defs =
  idempotency_key_def stream_key_def bucket_key_def concurrency_key_def pricing_key_def
  invoice_key_def

text \<open>Keys of one family with the tenant id last never clash.\<close>

lemma tenant_key_inject [simp, key_simps]:
  "stream_key t = stream_key t' \<longleftrightarrow> t = t'"
  "bucket_key t = bucket_key t' \<longleftrightarrow> t = t'"
  "concurrency_key t = concurrency_key t' \<longleftrightarrow> t = t'"
  "pricing_key t = pricing_key t' \<longleftrightarrow> t = t'"
  by (simp_all add: key_defs)

lemma pair_key_inject [simp, key_simps]:
  "idempotency_key t i = idempotency_key t j \<longleftrightarrow> i = j"
  "invoice_key t i = invoice_key t j \<longleftrightarrow> i = j"
  by (simp_all add: key_defs)

text \<open>Keys of two families never clash.\<close>

lemma key_families [simp, key_simps]:
  "idempotency_key t i \<noteq> stream_key u" "stream_key u \<noteq> idempotency_key t i"
  "idempotency_key t i \<noteq> bucket_key u" "bucket_key u \<noteq> idempotency_key t i"
  "idempotency_key t i \<noteq> concurrency_key u" "concurrency_key u \<noteq> idempotency_key t i"
  "idempotency_key t i \<noteq> pricing_key u" "pricing_key u \<noteq> idempotency_key t i"
  "idempotency_key t i \<noteq> invoice_key u j" "invoice_key u j \<noteq> idempotency_key t i"
  "stream_key u \<noteq> bucket_key v" "bucket_key v \<noteq> stream_key u"
  "stream_key u \<noteq> concurrency_key v" "concurrency_key v \<noteq> stream_key u"
  "stream_key u \<noteq> pricing_key v" "pricing_key v \<noteq> stream_key u"
  "stream_key u \<noteq> invoice_key v j" "invoice_key v j \<noteq> stream_key u"
  "bucket_key u \<noteq> concurrency_key v" "concurrency_key v \<noteq> bucket_key u"
  "bucket_key u \<noteq> pricing_key v" "pricing_key v \<noteq> bucket_key u"
  "bucket_key u \<noteq> invoice_key v j" "invoice_key v j \<noteq> bucket_key u"
  "concurrency_key u \<noteq> pricing_key v" "pricing_key v \<noteq> concurrency_key u"
  "concurrency_key u \<noteq> invoice_key v j" "invoice_key v j \<noteq> concurrency_key u"
  "pricing_key u \<noteq> invoice_key v j" "invoice_key v j \<noteq> pricing_key u"
  by (simp_all add: key_defs)

text \<open>
  The two families that end in a client-chosen part separate it from the tenant id by a
  colon. They are injective on tenant ids without a colon, and only on those.
\<close>

definition plain_tenant :: "string \<Rightarrow> bool" where
  "plain_tenant t \<longleftrightarrow> CHR '':'' \<notin> set t"

lemma plain_pair_key_inject:
  assumes "plain_tenant t" and "plain_tenant u"
  shows "idempotency_key t i = idempotency_key u j \<longleftrightarrow> t = u \<and> i = j"
    and "invoice_key t i = invoice_key u j \<longleftrightarrow> t = u \<and> i = j"
  using assms split_at_colon [of t i u j]
  by (auto simp: key_defs plain_tenant_def)

text \<open>All the keys a tenant's requests can name.\<close>

definition tenant_keys :: "string \<Rightarrow> string set" where
  "tenant_keys t =
     {stream_key t, bucket_key t, concurrency_key t, pricing_key t}
     \<union> range (idempotency_key t) \<union> range (invoice_key t)"

lemma tenant_keys_mem [simp, intro]:
  "stream_key t \<in> tenant_keys t" "bucket_key t \<in> tenant_keys t"
  "concurrency_key t \<in> tenant_keys t" "pricing_key t \<in> tenant_keys t"
  "idempotency_key t i \<in> tenant_keys t" "invoice_key t i \<in> tenant_keys t"
  by (simp_all add: tenant_keys_def)

lemma tenant_keys_disjoint:
  assumes "plain_tenant t" and "plain_tenant u" and "t \<noteq> u"
  shows "tenant_keys t \<inter> tenant_keys u = {}"
  using assms(3) by (auto simp: tenant_keys_def plain_pair_key_inject [OF assms(1,2)])


text \<open>With a colon in the tenant id two tenants share keys.\<close>

lemma colon_key_shared:
  "invoice_key (t @ '':'' @ x) i = invoice_key t (x @ '':'' @ i)"
  "idempotency_key (t @ '':'' @ x) i = idempotency_key t (x @ '':'' @ i)"
  by (simp_all add: key_defs)

end
