(* ===== verification/Token_Bucket.thy ===== *)
theory Token_Bucket imports Redis_Reference Key_Schema begin

text \<open>
  \<open>billing/infrastructure/token_bucket.py\<close>: the Lua script of the rate limiter and the
  Python function \<open>consume\<close> around it. The abstract bucket is a level of tokens that
  refills with time up to the capacity (\<open>level\<close>) and is drawn down by admitted requests;
  the lemmas show that the script refines it, also when the idle key has expired, and that
  no history of the server admits more than the bucket's capacity plus what refilled.
\<close>

subsection \<open>The script\<close>

definition BUCKET_TTL_SECONDS :: int where
  "BUCKET_TTL_SECONDS = 3600"

lemma bucket_ttl_pos: "0 < BUCKET_TTL_SECONDS"
  by (simp add: BUCKET_TTL_SECONDS_def)

text \<open>Lua's division, of a positive number: \<open>x / 0\<close> is infinite and \<open>tostring\<close> writes \<open>inf\<close>.\<close>

definition lua_div_text :: "rat \<Rightarrow> rat \<Rightarrow> bulk" where
  "lua_div_text x y = (if y = 0 then Text ''inf'' else Number (x / y))"

definition token_bucket_lua :: "string \<Rightarrow> rat \<Rightarrow> rat \<Rightarrow> rat \<Rightarrow> int \<Rightarrow> lua" where
  "token_bucket_lua key capacity refill_rate cost ttl =
     Lua_Call TIME (\<lambda>t.
       case (lua_tonumber (lua_index t 1), lua_tonumber (lua_index t 2)) of
         (Some sec, Some us) \<Rightarrow>
           (let now = sec + us / 1000000 in
            Lua_Call (HMGET key [''tokens'', ''last_refill'']) (\<lambda>state.
              let tokens0 = (case lua_tonumber (lua_index state 1) of
                               Some x \<Rightarrow> x | None \<Rightarrow> capacity);
                  last_refill = (case lua_tonumber (lua_index state 2) of
                               Some x \<Rightarrow> x | None \<Rightarrow> now);
                  elapsed = max 0 (now - last_refill);
                  tokens = min capacity (tokens0 + elapsed * refill_rate)
              in if tokens < cost then
                   Lua_Call (HSET key [(''tokens'', Number tokens), (''last_refill'', Number now)])
                     (\<lambda>_. Lua_Call (EXPIRE key ttl) (\<lambda>_.
                       let retry_after = lua_div_text (cost - tokens) refill_rate in
                       Lua_Return (RArray [RInt 0, RBulk (Number tokens), RBulk retry_after])))
                 else
                   (let tokens = tokens - cost in
                    Lua_Call (HSET key [(''tokens'', Number tokens), (''last_refill'', Number now)])
                      (\<lambda>_. Lua_Call (EXPIRE key ttl) (\<lambda>_.
                        Lua_Return (RArray [RInt 1, RBulk (Number tokens), RBulk (Number 0)]))))))
       | _ \<Rightarrow> Lua_Return (RError ''attempt to perform arithmetic on a nil value''))"

subsection \<open>consume\<close>

text \<open>A Python float read from Redis text: a number, or \<open>inf\<close>.\<close>

datatype pyfloat = Fin rat | Inf

fun py_float :: "reply \<Rightarrow> pyfloat option" where
  "py_float (RBulk (Number x)) = Some (Fin x)"
| "py_float (RBulk (Text s)) = (if s = ''inf'' then Some Inf else None)"
| "py_float (RInt n) = Some (Fin (of_int n))"
| "py_float _ = None"

record BucketDecision =
  allowed :: bool
  tokens_remaining :: pyfloat
  retry_after_seconds :: pyfloat

fun bucket_decision :: "reply \<Rightarrow> exn + BucketDecision" where
  "bucket_decision (RArray [RInt a, b, c]) =
     (case (py_float b, py_float c) of
        (Some x, Some y) \<Rightarrow>
          Inr \<lparr>allowed = (a = 1), tokens_remaining = x, retry_after_seconds = y\<rparr>
      | _ \<Rightarrow> Inl ValueError)"
| "bucket_decision _ = Inl (OtherException ''TypeError'')"

definition consume :: "string \<Rightarrow> int \<Rightarrow> int \<Rightarrow> int \<Rightarrow> BucketDecision prog" where
  "consume key capacity refill_rate cost =
     bnd (redis_py (Eval (token_bucket_lua key (of_int capacity) (of_int refill_rate)
            (of_int cost) BUCKET_TTL_SECONDS)))
       (\<lambda>raw. lift_exn (bucket_decision raw))"

subsection \<open>The abstract bucket\<close>

definition num_field :: "(string \<times> bulk) list \<Rightarrow> string \<Rightarrow> rat option" where
  "num_field h f = (case map_of h f of Some (Number x) \<Rightarrow> Some x | _ \<Rightarrow> None)"

lemma num_field_Nil [simp]: "num_field [] f = None"
  by (simp add: num_field_def)

lemma lua_tonumber_field [simp]: "lua_tonumber (field_reply h f) = num_field h f"
  by (simp add: field_reply_def num_field_def split: option.splits bulk.splits)

definition secs :: "int \<Rightarrow> rat" where
  "secs t = of_int t / 1000000"

text \<open>The tokens the bucket stored in hash \<open>h\<close> has at time \<open>now\<close>, refill included.\<close>

definition hash_level :: "rat \<Rightarrow> rat \<Rightarrow> (string \<times> bulk) list \<Rightarrow> rat \<Rightarrow> rat" where
  "hash_level capacity rate h now =
     (let tokens0 = (case num_field h ''tokens'' of Some x \<Rightarrow> x | None \<Rightarrow> capacity);
          last = (case num_field h ''last_refill'' of Some x \<Rightarrow> x | None \<Rightarrow> now)
      in min capacity (tokens0 + max 0 (now - last) * rate))"

definition level :: "rat \<Rightarrow> rat \<Rightarrow> entry option \<Rightarrow> int \<Rightarrow> rat" where
  "level capacity rate e t =
     (case as_hash e of None \<Rightarrow> 0 | Some h \<Rightarrow> hash_level capacity rate h (secs t))"

lemma level_None [simp]: "level capacity rate None t = capacity"
  by (simp add: level_def hash_level_def num_field_def)

lemma hash_level_le: "hash_level capacity rate h now \<le> capacity"
  by (simp add: hash_level_def Let_def)

lemma secs_div_mod: "of_int (t div usec) + of_int (t mod usec) / 1000000 = secs t"
proof -
  have "(of_int t :: rat) = of_int (t div usec * usec + t mod usec)"
    by (simp only: div_mult_mod_eq)
  also have "\<dots> = of_int (t div usec) * 1000000 + of_int (t mod usec)"
    by (simp only: of_int_add of_int_mult of_int_numeral)
  finally show ?thesis by (simp add: secs_def)
qed

lemma secs_mono: "t \<le> u \<Longrightarrow> secs t \<le> secs u"
  by (simp add: secs_def divide_right_mono)

lemma secs_add: "secs (t + u) = secs t + secs u"
  by (simp add: secs_def add_divide_distrib)

text \<open>
  The specification of one call: what the caller is told and the level that is left.
\<close>

definition bucket_spec :: "rat \<Rightarrow> rat \<Rightarrow> rat \<Rightarrow> bool \<times> rat" where
  "bucket_spec lvl cost rate = (if lvl < cost then (False, lvl) else (True, lvl - cost))"

definition bucket_reply :: "rat \<Rightarrow> rat \<Rightarrow> rat \<Rightarrow> reply" where
  "bucket_reply lvl cost rate =
     (if lvl < cost
      then RArray [RInt 0, RBulk (Number lvl), RBulk (lua_div_text (cost - lvl) rate)]
      else RArray [RInt 1, RBulk (Number (lvl - cost)), RBulk (Number 0)])"

definition bucket_hash :: "(string \<times> bulk) list \<Rightarrow> rat \<Rightarrow> rat \<Rightarrow> (string \<times> bulk) list" where
  "bucket_hash h tokens now =
     update_fields h [(''tokens'', Number tokens), (''last_refill'', Number now)]"

lemma num_field_bucket_hash [simp]:
  "num_field (bucket_hash h x now) ''tokens'' = Some x"
  "num_field (bucket_hash h x now) ''last_refill'' = Some now"
  by (simp_all add: bucket_hash_def num_field_def update_conv')

text \<open>The script as a whole: reply, new entry, and nothing else touched.\<close>

context redis_server
begin

lemma run_token_bucket:
  assumes "as_hash (view s k) = Some h" and "0 < ttl"
    and lvl_def: "lvl = hash_level capacity rate h (secs (clock s))"
  obtains s' where
    "run_lua exec (token_bucket_lua k capacity rate cost ttl) s = (bucket_reply lvl cost rate, s')"
    and "view s' = (view s)(k := Some (RHash (bucket_hash h (snd (bucket_spec lvl cost rate))
                        (secs (clock s))), Some (clock s + ttl * usec)))"
    and "clock s' = clock s"
proof -
  let ?x = "snd (bucket_spec lvl cost rate)"
  let ?ps = "[(''tokens'', Number ?x), (''last_refill'', Number (secs (clock s)))]"
  obtain n s1 where 1: "exec (HSET k ?ps) s = (RInt n, s1)"
    and v1: "view s1 = (view s)(k := Some (RHash (update_fields h ?ps), deadline_of (view s k)))"
    and c1: "clock s1 = clock s"
    by (rule hset_view [OF assms(1), of ?ps]) simp_all
  obtain m s2 where 2: "exec (EXPIRE k ttl) s1 = (RInt m, s2)"
    and v2: "view s2 = (view s1)(k := map_option (\<lambda>(v, _). (v, Some (clock s1 + ttl * usec))) (view s1 k))"
    and c2: "clock s2 = clock s1"
    by (rule expire_view [OF assms(2)])
  have "run_lua exec (token_bucket_lua k capacity rate cost ttl) s = (bucket_reply lvl cost rate, s2)"
    using 1 2
    by (simp add: token_bucket_lua_def time hmget [OF assms(1)] secs_div_mod Let_def
          bucket_spec_def bucket_reply_def lvl_def hash_level_def split: if_splits)
  moreover have "view s2 = (view s)(k := Some (RHash (bucket_hash h ?x (secs (clock s))),
                        Some (clock s + ttl * usec)))"
    by (simp add: v2 v1 c1 bucket_hash_def)
  ultimately show ?thesis by (rule that) (simp add: c1 c2)
qed

lemma run_token_bucket_wrong_type:
  assumes "as_hash (view s k) = None"
  shows "\<exists>e. run_lua exec (token_bucket_lua k capacity rate cost ttl) s = (RError e, s)"
proof -
  obtain e where "exec (HMGET k [''tokens'', ''last_refill'']) s = (RError e, s)"
    using wrong_type [of "HMGET k [''tokens'', ''last_refill'']" k s] assms by auto
  then show ?thesis by (simp add: token_bucket_lua_def time Let_def)
qed

end

subsection \<open>The stored bucket against the abstract one\<close>

text \<open>
  What the script keeps of its key: both fields are there, the tokens lie between zero and
  the capacity, the last refill is not in the future, and the key expires \<open>ttl\<close> after it.
\<close>

fun bucket_ok :: "rat \<Rightarrow> int \<Rightarrow> int \<Rightarrow> entry option \<Rightarrow> bool" where
  "bucket_ok capacity ttl now None = True"
| "bucket_ok capacity ttl now (Some (RHash h, Some dl)) =
     (case (num_field h ''tokens'', num_field h ''last_refill'') of
        (Some x, Some l) \<Rightarrow> 0 \<le> x \<and> x \<le> capacity \<and> l \<le> secs now \<and> secs dl = l + of_int ttl
      | _ \<Rightarrow> False)"
| "bucket_ok capacity ttl now (Some _) = False"

lemma bucket_ok_cases:
  assumes "bucket_ok capacity ttl now e"
  obtains "e = None"
  | h dl x l where "e = Some (RHash h, Some dl)"
      and "num_field h ''tokens'' = Some x" and "num_field h ''last_refill'' = Some l"
      and "0 \<le> x" and "x \<le> capacity" and "l \<le> secs now" and "secs dl = l + of_int ttl"
  using assms
  by (cases "(capacity, ttl, now, e)" rule: bucket_ok.cases) (auto split: option.splits)

lemma bucket_ok_hash: "bucket_ok capacity ttl now e \<Longrightarrow> \<exists>h. as_hash e = Some h"
  by (erule bucket_ok_cases) auto

lemma bucket_ok_later: "bucket_ok capacity ttl now e \<Longrightarrow> now \<le> t \<Longrightarrow> bucket_ok capacity ttl t e"
  by (erule bucket_ok_cases) (auto dest: secs_mono)

lemma bucket_ok_fresh: "0 \<le> x \<Longrightarrow> x \<le> capacity \<Longrightarrow>
    bucket_ok capacity ttl now (Some (RHash (bucket_hash h x (secs now)), Some (now + ttl * usec)))"
  by (simp add: secs_def add_divide_distrib)

lemma level_nonneg:
  assumes "bucket_ok capacity ttl now e" and "0 \<le> rate" and "0 \<le> capacity"
  shows "0 \<le> level capacity rate e now"
  using assms(1) by (rule bucket_ok_cases) (use assms(2,3) in \<open>auto simp: level_def hash_level_def\<close>)

lemma level_le:
  assumes "0 \<le> capacity" shows "level capacity rate e t \<le> capacity"
  using assms hash_level_le by (auto simp: level_def split: option.splits)

lemma level_fresh:
  assumes "x \<le> capacity"
  shows "level capacity rate (Some (RHash (bucket_hash h x (secs now)), dl)) now = x"
  using assms by (simp add: level_def hash_level_def)

text \<open>The lazily stored level refills exactly like a bucket that is topped up all the time.\<close>

lemma min_refill:
  fixes c a b :: rat
  assumes "0 \<le> b"
  shows "min c (min c a + b) = min c (a + b)"
  using assms by (simp add: min_def)

lemma level_advance:
  assumes "bucket_ok capacity ttl now e" and "0 \<le> rate"
  shows "level capacity rate e (now + int d) = min capacity (level capacity rate e now + rate * secs (int d))"
  using assms(1)
proof (rule bucket_ok_cases)
  assume "e = None"
  with assms(2) show ?thesis by (simp add: secs_def)
next
  fix h dl x l
  assume h: "e = Some (RHash h, Some dl)" "num_field h ''tokens'' = Some x"
    "num_field h ''last_refill'' = Some l" and l: "l \<le> secs now"
  have nn: "0 \<le> rate * secs (int d)" using assms(2) by (simp add: secs_def)
  have "l \<le> secs (now + int d)" using l secs_mono [of now "now + int d"] by simp
  with l have "level capacity rate e (now + int d)
      = min capacity (x + (secs now - l) * rate + rate * secs (int d))"
    using h by (simp add: level_def hash_level_def secs_add algebra_simps)
  also have "\<dots> = min capacity (min capacity (x + (secs now - l) * rate) + rate * secs (int d))"
    using nn by (rule min_refill [symmetric])
  finally show ?thesis using h l by (simp add: level_def hash_level_def)
qed

lemma level_expired:
  assumes "bucket_ok capacity ttl now e" and "e \<noteq> None"
    and "deadline_of e = Some dl" and "dl \<le> now + int d"
    and "0 \<le> rate" and "capacity \<le> rate * of_int ttl"
  shows "capacity \<le> level capacity rate e now + rate * secs (int d)"
  using assms(1)
proof (rule bucket_ok_cases)
  assume "e = None"
  with assms(2) show ?thesis by simp
next
  fix h dl' x l
  assume h: "e = Some (RHash h, Some dl')" "num_field h ''tokens'' = Some x"
    "num_field h ''last_refill'' = Some l" and l: "l \<le> secs now" and x: "0 \<le> x"
    and dl': "secs dl' = l + of_int ttl"
  have "of_int ttl \<le> secs now - l + secs (int d)"
    using assms(3,4) h dl' secs_mono [of dl "now + int d"] by (simp add: secs_add)
  then have "rate * of_int ttl \<le> rate * (secs now - l + secs (int d))"
    using assms(5) by (rule mult_left_mono)
  then have "capacity \<le> x + (secs now - l) * rate + rate * secs (int d)"
    using assms(6) x by (simp add: algebra_simps)
  moreover have "0 \<le> rate * secs (int d)" using assms(5) by (simp add: secs_def)
  ultimately show ?thesis using h l by (simp add: level_def hash_level_def min_def)
qed

subsection \<open>Histories of the server\<close>

text \<open>
  The server executes scripts and commands one after the other, whatever hosts send them:
  every interleaving is a list of such operations, with time passing between them.
\<close>

datatype bucket_op = Consume int | Pass nat | Other rcmd

primrec bucket_history :: "'s exec \<Rightarrow> (nat \<Rightarrow> 's \<Rightarrow> 's) \<Rightarrow> (int \<Rightarrow> lua) \<Rightarrow> bucket_op list \<Rightarrow> 's \<Rightarrow> bool list" where
  "bucket_history ex el script [] s = []"
| "bucket_history ex el script (op # ops) s =
     (case op of
        Consume c \<Rightarrow> (case run_lua ex (script c) s of
           (r, s') \<Rightarrow> (lua_index r 1 = RInt 1) # bucket_history ex el script ops s')
      | Pass d \<Rightarrow> bucket_history ex el script ops (el d s)
      | Other c \<Rightarrow> bucket_history ex el script ops (snd (ex c s)))"

text \<open>The abstract bucket: topped up as time passes, full at the capacity.\<close>

primrec ideal_bucket :: "rat \<Rightarrow> rat \<Rightarrow> bucket_op list \<Rightarrow> rat \<Rightarrow> bool list" where
  "ideal_bucket capacity rate [] lvl = []"
| "ideal_bucket capacity rate (op # ops) lvl =
     (case op of
        Consume c \<Rightarrow> (case bucket_spec lvl (of_int c) rate of
           (ok, lvl') \<Rightarrow> ok # ideal_bucket capacity rate ops lvl')
      | Pass d \<Rightarrow> ideal_bucket capacity rate ops (min capacity (lvl + rate * secs (int d)))
      | Other _ \<Rightarrow> ideal_bucket capacity rate ops lvl)"

fun op_ok :: "string \<Rightarrow> bucket_op \<Rightarrow> bool" where
  "op_ok k (Consume c) = (0 \<le> c)"
| "op_ok k (Pass d) = True"
| "op_ok k (Other x) = (key_of x \<noteq> Some k)"

fun spent :: "bucket_op list \<Rightarrow> bool list \<Rightarrow> int" where
  "spent (Consume c # ops) (ok # oks) = (if ok then c else 0) + spent ops oks"
| "spent (Pass d # ops) oks = spent ops oks"
| "spent (Other x # ops) oks = spent ops oks"
| "spent _ _ = 0"

fun passed :: "bucket_op list \<Rightarrow> nat" where
  "passed (Pass d # ops) = d + passed ops"
| "passed (_ # ops) = passed ops"
| "passed [] = 0"

lemma ideal_bucket_spent:
  assumes "0 \<le> rate" and "0 \<le> capacity" and "list_all (op_ok k) ops" and "0 \<le> lvl"
  shows "of_int (spent ops (ideal_bucket capacity rate ops lvl)) \<le> lvl + rate * secs (int (passed ops))"
  using assms(3,4)
proof (induction ops arbitrary: lvl)
  case Nil
  then show ?case by (simp add: secs_def)
next
  case (Cons op ops)
  show ?case
  proof (cases op)
    case (Consume c)
    show ?thesis
    proof (cases "lvl < of_int c")
      case True
      with Cons Consume show ?thesis by (simp add: bucket_spec_def)
    next
      case False
      with Cons.IH [of "lvl - of_int c"] Cons.prems Consume show ?thesis
        by (simp add: bucket_spec_def)
    qed
  next
    case (Pass d)
    have "0 \<le> rate * secs (int d)" using assms(1) by (simp add: secs_def)
    with Cons.IH [of "min capacity (lvl + rate * secs (int d))"] Cons.prems assms(2) Pass
    show ?thesis by (simp add: secs_add algebra_simps)
  next
    case (Other x)
    with Cons show ?thesis by simp
  qed
qed

context redis_server
begin

text \<open>One call of the script and one stretch of time, against the abstract bucket.\<close>

lemma bucket_consume:
  assumes ok: "bucket_ok capacity ttl (clock s) (view s k)" and "0 < ttl"
    and "0 \<le> rate" and "0 \<le> capacity" and "0 \<le> cost"
  obtains s' where
    "run_lua exec (token_bucket_lua k capacity rate cost ttl) s
       = (bucket_reply (level capacity rate (view s k) (clock s)) cost rate, s')"
    and "bucket_ok capacity ttl (clock s') (view s' k)"
    and "level capacity rate (view s' k) (clock s')
       = snd (bucket_spec (level capacity rate (view s k) (clock s)) cost rate)"
    and "clock s' = clock s" and "view s' = (view s)(k := view s' k)"
proof -
  let ?lvl = "level capacity rate (view s k) (clock s)"
  let ?x = "snd (bucket_spec ?lvl cost rate)"
  obtain h where h: "as_hash (view s k) = Some h" using bucket_ok_hash [OF ok] by blast
  have lvl: "?lvl = hash_level capacity rate h (secs (clock s))" by (simp add: level_def h)
  obtain s' where s': "run_lua exec (token_bucket_lua k capacity rate cost ttl) s
      = (bucket_reply ?lvl cost rate, s')"
    and v: "view s' = (view s)(k := Some (RHash (bucket_hash h ?x (secs (clock s))),
        Some (clock s + ttl * usec)))"
    and c: "clock s' = clock s"
    by (rule run_token_bucket [OF h assms(2) lvl])
  have x: "0 \<le> ?x" "?x \<le> capacity"
    using level_nonneg [OF ok assms(3,4)] level_le [OF assms(4), of rate "view s k" "clock s"] assms(5)
    by (auto simp: bucket_spec_def)
  show ?thesis
  proof (rule that [OF s'])
    show "bucket_ok capacity ttl (clock s') (view s' k)"
      using bucket_ok_fresh [OF x] by (simp add: v c)
    show "level capacity rate (view s' k) (clock s') = ?x"
      using level_fresh [OF x(2)] by (simp add: v c)
  qed (simp_all add: v c)
qed

lemma bucket_elapse:
  assumes ok: "bucket_ok capacity ttl (clock s) (view s k)"
    and "0 \<le> rate" and "capacity \<le> rate * of_int ttl"
  shows "bucket_ok capacity ttl (clock (elapse d s)) (view (elapse d s) k)"
    and "level capacity rate (view (elapse d s) k) (clock (elapse d s))
           = min capacity (level capacity rate (view s k) (clock s) + rate * secs (int d))"
proof -
  have change: "view (elapse d s) k = view s k \<or>
      view (elapse d s) k = None \<and> view s k \<noteq> None \<and>
        (\<exists>dl. deadline_of (view s k) = Some dl \<and> dl \<le> clock s + int d)"
    using elapse_either [of d s k] elapse_live [of s k d] by (metis linorder_not_less)
  then show "bucket_ok capacity ttl (clock (elapse d s)) (view (elapse d s) k)"
    using bucket_ok_later [OF ok, of "clock (elapse d s)"] by (auto simp: clock_elapse)
  from change show "level capacity rate (view (elapse d s) k) (clock (elapse d s))
      = min capacity (level capacity rate (view s k) (clock s) + rate * secs (int d))"
    using level_advance [OF ok assms(2)] level_expired [OF ok _ _ _ assms(2,3)]
    by (auto simp: clock_elapse min_def)
qed

theorem bucket_refines:
  assumes "bucket_ok capacity ttl (clock s) (view s k)" and "0 < ttl" and "0 \<le> rate"
    and "0 \<le> capacity" and "capacity \<le> rate * of_int ttl" and "list_all (op_ok k) ops"
  shows "bucket_history exec elapse (\<lambda>c. token_bucket_lua k capacity rate (of_int c) ttl) ops s
    = ideal_bucket capacity rate ops (level capacity rate (view s k) (clock s))"
  using assms(1,6)
proof (induction ops arbitrary: s)
  case Nil
  then show ?case by simp
next
  case (Cons op ops)
  show ?case
  proof (cases op)
    case (Consume c)
    with Cons.prems have c: "0 \<le> (of_int c :: rat)" by simp
    show ?thesis
      by (rule bucket_consume [OF Cons.prems(1) assms(2-4) c])
         (use Cons Consume in \<open>simp add: bucket_spec_def bucket_reply_def\<close>)
  next
    case (Pass d)
    with Cons bucket_elapse [OF Cons.prems(1) assms(3,5), of d] show ?thesis by simp
  next
    case (Other x)
    with Cons.prems frame [of x k s] clock_exec [of x s] Cons.IH [of "snd (exec x s)"]
    show ?thesis by simp
  qed
qed

end

subsection \<open>What callers of the bucket can rely on\<close>

text \<open>The value \<open>consume\<close> returns for a bucket at level \<open>lvl\<close>.\<close>

definition decision_at :: "rat \<Rightarrow> int \<Rightarrow> int \<Rightarrow> BucketDecision" where
  "decision_at lvl refill_rate cost =
     (if lvl < of_int cost
      then \<lparr>allowed = False, tokens_remaining = Fin lvl,
            retry_after_seconds = (if refill_rate = 0 then Inf
                                   else Fin ((of_int cost - lvl) / of_int refill_rate))\<rparr>
      else \<lparr>allowed = True, tokens_remaining = Fin (lvl - of_int cost),
            retry_after_seconds = Fin 0\<rparr>)"

lemma bucket_decision_reply:
  "bucket_decision (bucket_reply lvl (of_int cost) (of_int rate)) = Inr (decision_at lvl rate cost)"
  by (simp add: bucket_reply_def decision_at_def lua_div_text_def)

lemma bucket_reply_no_error: "bucket_reply lvl cost rate \<noteq> RError e"
  by (simp add: bucket_reply_def)

text \<open>
  C40. \<open>consume\<close> on a bucket whose hash is \<open>h\<close> (empty for a new or expired key) decides
  by the refilled level: it admits exactly when the level covers the cost, reports the
  tokens left or the time until enough have refilled, stores level and time, restarts the
  key's hour, and touches no other key.
\<close>

theorem consume_decides_by_level:
  assumes srv: "redis_server exec view clock elapse"
    and h: "as_hash (view s key) = Some h"
    and lvl: "lvl = hash_level (of_int capacity) (of_int refill_rate) h (secs (clock s))"
  shows "\<exists>s'. run exec (consume key capacity refill_rate cost) [Deliver] s
           = (Done (decision_at lvl refill_rate cost), [], s')
         \<and> allowed (decision_at lvl refill_rate cost) = (of_int cost \<le> lvl)
         \<and> view s' = (view s)(key := Some (RHash
              (bucket_hash h (if of_int cost \<le> lvl then lvl - of_int cost else lvl) (secs (clock s))),
              Some (clock s + 3600 * usec)))"
proof -
  obtain s' where e: "run_lua exec (token_bucket_lua key (of_int capacity) (of_int refill_rate)
        (of_int cost) BUCKET_TTL_SECONDS) s
      = (bucket_reply lvl (of_int cost) (of_int refill_rate), s')"
    and v: "view s' = (view s)(key := Some (RHash
              (bucket_hash h (snd (bucket_spec lvl (of_int cost) (of_int refill_rate))) (secs (clock s))),
              Some (clock s + BUCKET_TTL_SECONDS * usec)))"
    by (rule redis_server.run_token_bucket [OF srv h bucket_ttl_pos lvl])
  have "run exec (consume key capacity refill_rate cost) [Deliver] s
      = (Done (decision_at lvl refill_rate cost), [], s')"
    by (simp add: consume_def prog_simps e bucket_decision_reply bucket_reply_no_error
        reply_outcome_ok)
  moreover have "view s' = (view s)(key := Some (RHash
      (bucket_hash h (if of_int cost \<le> lvl then lvl - of_int cost else lvl) (secs (clock s))),
      Some (clock s + 3600 * usec)))"
    by (simp add: v bucket_spec_def BUCKET_TTL_SECONDS_def)
  ultimately show ?thesis by (auto simp: decision_at_def)
qed

theorem consume_decides_by_level_witness:
  "\<exists>s'. run mem_exec (consume ''b'' 10 1 3) [Deliver] (mem_at 0)
     = (Done \<lparr>allowed = True, tokens_remaining = Fin 7, retry_after_seconds = Fin 0\<rparr>, [], s')"
  using consume_decides_by_level [OF mem.redis_server_axioms, of "mem_at 0" "''b''" "[]" 10 10 1 3]
  by (auto simp: mem_at_def hash_level_def decision_at_def)

lemma bucket_history_ideal:
  assumes srv: "redis_server exec view clock elapse"
    and "bucket_ok (of_int capacity) BUCKET_TTL_SECONDS (clock s) (view s key)"
    and "0 \<le> refill_rate" and "0 \<le> capacity" and "capacity \<le> refill_rate * BUCKET_TTL_SECONDS"
    and "list_all (op_ok key) ops"
  shows "bucket_history exec elapse
      (\<lambda>c. token_bucket_lua key (of_int capacity) (of_int refill_rate) (of_int c) BUCKET_TTL_SECONDS) ops s
    = ideal_bucket (of_int capacity) (of_int refill_rate) ops
        (level (of_int capacity) (of_int refill_rate) (view s key) (clock s))"
proof (rule redis_server.bucket_refines [OF srv assms(2) bucket_ttl_pos _ _ _ assms(6)])
  show "(of_int capacity :: rat) \<le> of_int refill_rate * of_int BUCKET_TTL_SECONDS"
    using assms(5) by (metis of_int_le_iff of_int_mult)
qed (use assms(3,4) in simp_all)

text \<open>
  C12. The stored bucket refines the abstract one: over any history of the server (requests
  of any cost on this bucket, other commands on other keys, time passing, also past the
  expiry of the key) the decisions are those of a bucket that is topped up continuously
  and never forgets, as long as an hour of refill fills it.
\<close>

theorem bucket_refines_ideal:
  assumes srv: "redis_server exec view clock elapse"
    and "bucket_ok (of_int capacity) BUCKET_TTL_SECONDS (clock s) (view s key)"
    and "0 \<le> refill_rate" and "0 \<le> capacity" and "capacity \<le> refill_rate * BUCKET_TTL_SECONDS"
    and "list_all (op_ok key) ops"
  shows "bucket_history exec elapse
      (\<lambda>c. token_bucket_lua key (of_int capacity) (of_int refill_rate) (of_int c) BUCKET_TTL_SECONDS) ops s
    = ideal_bucket (of_int capacity) (of_int refill_rate) ops
        (level (of_int capacity) (of_int refill_rate) (view s key) (clock s))"
  using assms by (rule bucket_history_ideal)

theorem bucket_refines_ideal_witness:
  "bucket_history mem_exec mem_elapse
      (\<lambda>c. token_bucket_lua ''b'' 10 1 (of_int c) BUCKET_TTL_SECONDS)
      [Consume 10, Consume 5, Pass 5000000, Consume 5] (mem_at 0)
    = [True, False, True]"
  using bucket_refines_ideal [OF mem.redis_server_axioms, of 10 "mem_at 0" "''b''" 1
      "[Consume 10, Consume 5, Pass 5000000, Consume 5]"]
  by (simp add: mem_at_def BUCKET_TTL_SECONDS_def bucket_spec_def secs_def)

text \<open>
  No history overdraws: the cost admitted from a bucket over any sequence of requests
  is at most the level it started with plus what refilled in the time that passed.
\<close>

theorem bucket_never_overdrawn:
  assumes srv: "redis_server exec view clock elapse"
    and "bucket_ok (of_int capacity) BUCKET_TTL_SECONDS (clock s) (view s key)"
    and "0 \<le> refill_rate" and "0 \<le> capacity" and "capacity \<le> refill_rate * BUCKET_TTL_SECONDS"
    and "list_all (op_ok key) ops"
  shows "of_int (spent ops (bucket_history exec elapse
      (\<lambda>c. token_bucket_lua key (of_int capacity) (of_int refill_rate) (of_int c) BUCKET_TTL_SECONDS) ops s))
    \<le> of_int capacity + of_int refill_rate * secs (int (passed ops))"
proof -
  let ?lvl = "level (of_int capacity) (of_int refill_rate) (view s key) (clock s)"
  note eq = bucket_history_ideal [OF assms]
  have "0 \<le> ?lvl" using level_nonneg [OF assms(2)] assms(3,4) by simp
  with ideal_bucket_spent [of "of_int refill_rate" "of_int capacity" key ops ?lvl] assms(3,4,6)
  have "of_int (spent ops (ideal_bucket (of_int capacity) (of_int refill_rate) ops ?lvl))
      \<le> ?lvl + of_int refill_rate * secs (int (passed ops))" by simp
  moreover have "?lvl \<le> of_int capacity" using assms(4) by (intro level_le) simp
  ultimately show ?thesis unfolding eq by linarith
qed

theorem bucket_never_overdrawn_witness:
  "(of_int (spent [Consume 10, Consume 5, Pass 5000000, Consume 5] (bucket_history mem_exec mem_elapse
      (\<lambda>c. token_bucket_lua ''b'' 10 1 (of_int c) BUCKET_TTL_SECONDS)
      [Consume 10, Consume 5, Pass 5000000, Consume 5] (mem_at 0))) :: rat) \<le> 15"
  using bucket_never_overdrawn [OF mem.redis_server_axioms, of 10 "mem_at 0" "''b''" 1
      "[Consume 10, Consume 5, Pass 5000000, Consume 5]"]
  by (simp add: mem_at_def BUCKET_TTL_SECONDS_def secs_def)

end
