(* ===== verification/Tenant_Plan.thy ===== *)
theory Tenant_Plan imports Programs begin

text \<open>
  \<open>billing/domain/tenant_plan.py\<close>: the tier limits, the catalog of plans, the tenants'
  plans and the lookup \<open>plan_for\<close>. A missing dictionary key is the value \<open>Inl (KeyError k)\<close>.
\<close>

record TierLimits =
  requests_per_second :: int
  burst :: int
  max_concurrency :: int

definition PLANS :: "(string \<times> TierLimits) list" where
  "PLANS =
    [(''enterprise'', \<lparr>requests_per_second = 500, burst = 1000, max_concurrency = 20\<rparr>),
     (''standard'', \<lparr>requests_per_second = 100, burst = 200, max_concurrency = 10\<rparr>),
     (''small'', \<lparr>requests_per_second = 20, burst = 50, max_concurrency = 3\<rparr>),
     (''backfill'', \<lparr>requests_per_second = 50, burst = 100, max_concurrency = 5\<rparr>),
     (''default'', \<lparr>requests_per_second = 100, burst = 200, max_concurrency = 5\<rparr>)]"

definition TENANT_PLANS :: "(string \<times> string) list" where
  "TENANT_PLANS =
    [(''globex'', ''enterprise''),
     (''initech'', ''standard''),
     (''acme-corp'', ''backfill''),
     (''piedmont'', ''small'')]"

definition plan_for :: "string \<Rightarrow> exn + TierLimits" where
  "plan_for tenant_id =
     (let plan_name = (case map_of TENANT_PLANS tenant_id of
                         None \<Rightarrow> ''default'' | Some p \<Rightarrow> p)
      in case map_of PLANS plan_name of
           None \<Rightarrow> Inl (KeyError plan_name) | Some l \<Rightarrow> Inr l)"

text \<open>The limits every tenant has, as a function.\<close>

definition limits_of :: "string \<Rightarrow> TierLimits" where
  "limits_of t =
     (if t = ''globex'' then \<lparr>requests_per_second = 500, burst = 1000, max_concurrency = 20\<rparr>
      else if t = ''initech'' then \<lparr>requests_per_second = 100, burst = 200, max_concurrency = 10\<rparr>
      else if t = ''acme-corp'' then \<lparr>requests_per_second = 50, burst = 100, max_concurrency = 5\<rparr>
      else if t = ''piedmont'' then \<lparr>requests_per_second = 20, burst = 50, max_concurrency = 3\<rparr>
      else \<lparr>requests_per_second = 100, burst = 200, max_concurrency = 5\<rparr>)"

lemma plan_for_limits: "plan_for t = Inr (limits_of t)"
  by (simp add: plan_for_def limits_of_def TENANT_PLANS_def PLANS_def)

text \<open>What the admission gates need of a plan.\<close>

lemma limits_positive:
  "0 < requests_per_second (limits_of t)" "0 < burst (limits_of t)"
  "0 < max_concurrency (limits_of t)"
  by (simp_all add: limits_of_def)

lemma limits_burst_covered:
  "50 \<le> burst (limits_of t)" "burst (limits_of t) \<le> requests_per_second (limits_of t) * 3600"
  by (simp_all add: limits_of_def)

text \<open>The cap a tenant has on heavy requests in flight.\<close>

definition concurrency_cap :: "string \<Rightarrow> int" where
  "concurrency_cap t = (case plan_for t of Inl _ \<Rightarrow> 0 | Inr l \<Rightarrow> max_concurrency l)"

lemma concurrency_cap_limits: "concurrency_cap t = max_concurrency (limits_of t)"
  by (simp add: concurrency_cap_def plan_for_limits)

text \<open>Ids outside the catalog: any number of them.\<close>

definition stranger :: "nat \<Rightarrow> string" where
  "stranger n = replicate n (CHR ''x'')"

lemma concurrency_cap_stranger: "concurrency_cap (stranger n) = 5"
proof -
  have "CHR ''g'' \<notin> set (stranger n)" "CHR ''i'' \<notin> set (stranger n)"
    "CHR ''a'' \<notin> set (stranger n)" "CHR ''p'' \<notin> set (stranger n)"
    by (simp_all add: stranger_def)
  then have "stranger n \<noteq> ''globex''" "stranger n \<noteq> ''initech''"
    "stranger n \<noteq> ''acme-corp''" "stranger n \<noteq> ''piedmont''"
    by auto
  then show ?thesis by (simp add: concurrency_cap_limits limits_of_def)
qed

text \<open>
  The caps of the four tenants of the catalog add up to 38; the comment in the source takes
  the pool for 50. Tenants outside the catalog are not counted in that sum: each has the
  default cap, so the caps of enough of them exceed any bound.
\<close>

lemma catalog_sum_strangers_unbounded:
  "(\<Sum>t\<leftarrow>map fst TENANT_PLANS. concurrency_cap t) = 38 \<and>
   (\<exists>ts. distinct ts \<and> pool < (\<Sum>t\<leftarrow>ts. concurrency_cap t))"
proof (intro conjI exI)
  show "(\<Sum>t\<leftarrow>map fst TENANT_PLANS. concurrency_cap t) = 38"
    by (simp add: TENANT_PLANS_def concurrency_cap_limits limits_of_def)
  let ?ts = "map stranger [0..<Suc (nat pool)]"
  show "distinct ?ts"
    by (simp add: distinct_map inj_on_def stranger_def del: upt_Suc)
  have "(\<Sum>t\<leftarrow>?ts. concurrency_cap t) = 5 * int (Suc (nat pool))"
    by (simp only: map_map comp_def concurrency_cap_stranger)
       (simp add: sum_list_triv del: upt_Suc)
  moreover have "pool < 5 * int (Suc (nat pool))" by (cases "0 \<le> pool") auto
  ultimately show "pool < (\<Sum>t\<leftarrow>?ts. concurrency_cap t)" by (simp only:)
qed

end
