(* ===== verification/Rate_Limiter.thy ===== *)
theory Rate_Limiter imports Token_Bucket Tenant_Plan begin

text \<open>
  \<open>billing/application/rate_limiter.py\<close>: what each endpoint costs and the decision for
  one request, which looks up the tenant's plan and draws on the tenant's bucket. The
  lemmas join the token bucket with the plan catalog: every shipped plan satisfies what
  the bucket needs, so the bounds hold for every tenant without further hypotheses.
\<close>

definition ENDPOINT_COSTS :: "(string \<times> int) list" where
  "ENDPOINT_COSTS =
    [(''/api/v1/events/ingest'', 1),
     (''/api/v1/billing/calculate'', 10),
     (''/api/v1/invoices/generate'', 15)]"

definition DEFAULT_COST :: int where
  "DEFAULT_COST = 1"

definition cost_of :: "string \<Rightarrow> int" where
  "cost_of endpoint =
     (case map_of ENDPOINT_COSTS endpoint of None \<Rightarrow> DEFAULT_COST | Some c \<Rightarrow> c)"

record RateLimitDecision =
  rl_allowed :: bool
  rl_tokens_remaining :: pyfloat
  rl_retry_after_seconds :: pyfloat
  rl_tenant_id :: string
  rl_endpoint :: string
  rl_cost :: int

definition check_and_consume :: "string \<Rightarrow> string \<Rightarrow> RateLimitDecision prog" where
  "check_and_consume tenant_id endpoint =
     bnd (lift_exn (plan_for tenant_id)) (\<lambda>limits.
       let cost = cost_of endpoint in
       bnd (consume (bucket_key tenant_id) (burst limits) (requests_per_second limits) cost)
         (\<lambda>decision. Return
           \<lparr>rl_allowed = allowed decision,
            rl_tokens_remaining = tokens_remaining decision,
            rl_retry_after_seconds = retry_after_seconds decision,
            rl_tenant_id = tenant_id, rl_endpoint = endpoint, rl_cost = cost\<rparr>))"

lemma cost_of_bounds: "1 \<le> cost_of e" "cost_of e \<le> 15"
  by (simp_all add: cost_of_def ENDPOINT_COSTS_def DEFAULT_COST_def)

text \<open>No endpoint costs more than the smallest burst: none is out of a tenant's reach.\<close>

lemma cost_within_burst: "cost_of e \<le> burst (limits_of t)"
  using cost_of_bounds(2) [of e] limits_burst_covered(1) [of t] by linarith

text \<open>The plan in the numbers the bucket uses.\<close>

abbreviation plan_capacity :: "string \<Rightarrow> rat" where
  "plan_capacity t \<equiv> of_int (burst (limits_of t))"

abbreviation plan_rate :: "string \<Rightarrow> rat" where
  "plan_rate t \<equiv> of_int (requests_per_second (limits_of t))"

lemma plan_numbers:
  "0 < plan_rate t" "0 \<le> plan_capacity t" "of_int (cost_of e) \<le> plan_capacity t"
  "plan_capacity t \<le> plan_rate t * of_int BUCKET_TTL_SECONDS"
proof -
  show "0 < plan_rate t" "0 \<le> plan_capacity t"
    using limits_positive [of t] by simp_all
  show "of_int (cost_of e) \<le> plan_capacity t" using cost_within_burst by simp
  show "plan_capacity t \<le> plan_rate t * of_int BUCKET_TTL_SECONDS"
    using limits_burst_covered(2) [of t] unfolding BUCKET_TTL_SECONDS_def
    by (metis of_int_le_iff of_int_mult)
qed

definition tenant_bucket_ok :: "string \<Rightarrow> int \<Rightarrow> entry option \<Rightarrow> bool" where
  "tenant_bucket_ok t now e = bucket_ok (plan_capacity t) BUCKET_TTL_SECONDS now e"

definition tenant_level :: "string \<Rightarrow> entry option \<Rightarrow> int \<Rightarrow> rat" where
  "tenant_level t e now = level (plan_capacity t) (plan_rate t) e now"

definition rate_decision :: "string \<Rightarrow> string \<Rightarrow> rat \<Rightarrow> RateLimitDecision" where
  "rate_decision t e lvl =
     (let d = decision_at lvl (requests_per_second (limits_of t)) (cost_of e) in
      \<lparr>rl_allowed = allowed d, rl_tokens_remaining = tokens_remaining d,
       rl_retry_after_seconds = retry_after_seconds d,
       rl_tenant_id = t, rl_endpoint = e, rl_cost = cost_of e\<rparr>)"

lemma rate_decision_allowed: "rl_allowed (rate_decision t e lvl) \<longleftrightarrow> of_int (cost_of e) \<le> lvl"
  by (auto simp: rate_decision_def decision_at_def)

lemma rate_decision_retry:
  "\<not> rl_allowed (rate_decision t e lvl) \<Longrightarrow> rl_retry_after_seconds (rate_decision t e lvl)
     = Fin ((of_int (cost_of e) - lvl) / plan_rate t)"
  using limits_positive(1) [of t] by (auto simp: rate_decision_def decision_at_def split: if_splits)

context redis_server
begin

lemma check_and_consume_run:
  assumes ok: "tenant_bucket_ok t (clock s) (view s (bucket_key t))"
    and lvl: "lvl = tenant_level t (view s (bucket_key t)) (clock s)"
  obtains s' where
    "run exec (check_and_consume t e) (Deliver # tape) s = (Done (rate_decision t e lvl), tape, s')"
    and "tenant_bucket_ok t (clock s') (view s' (bucket_key t))"
    and "tenant_level t (view s' (bucket_key t)) (clock s')
       = (if of_int (cost_of e) \<le> lvl then lvl - of_int (cost_of e) else lvl)"
    and "clock s' = clock s" and "view s' = (view s)(bucket_key t := view s' (bucket_key t))"
proof -
  have c: "0 \<le> (of_int (cost_of e) :: rat)" using cost_of_bounds(1) [of e] by simp
  obtain s' where s': "run_lua exec (token_bucket_lua (bucket_key t) (plan_capacity t) (plan_rate t)
        (of_int (cost_of e)) BUCKET_TTL_SECONDS) s
      = (bucket_reply (level (plan_capacity t) (plan_rate t) (view s (bucket_key t)) (clock s))
           (of_int (cost_of e)) (plan_rate t), s')"
    and post: "bucket_ok (plan_capacity t) BUCKET_TTL_SECONDS (clock s') (view s' (bucket_key t))"
      "level (plan_capacity t) (plan_rate t) (view s' (bucket_key t)) (clock s')
       = snd (bucket_spec (level (plan_capacity t) (plan_rate t) (view s (bucket_key t)) (clock s))
           (of_int (cost_of e)) (plan_rate t))"
      "clock s' = clock s" "view s' = (view s)(bucket_key t := view s' (bucket_key t))"
    by (rule bucket_consume [OF ok [unfolded tenant_bucket_ok_def] bucket_ttl_pos
          order.strict_implies_order [OF plan_numbers(1) [of t]] plan_numbers(2) c])
  show ?thesis
  proof (rule that)
    show "run exec (check_and_consume t e) (Deliver # tape) s = (Done (rate_decision t e lvl), tape, s')"
      using s' by (simp add: check_and_consume_def consume_def prog_simps plan_for_limits Let_def
          bucket_reply_no_error reply_outcome_ok bucket_decision_reply rate_decision_def
          tenant_level_def lvl)
  qed (use post in \<open>simp_all add: tenant_bucket_ok_def tenant_level_def bucket_spec_def lvl\<close>)
qed

lemma tenant_bucket_elapse:
  assumes "tenant_bucket_ok t (clock s) (view s (bucket_key t))"
  shows "tenant_bucket_ok t (clock (elapse d s)) (view (elapse d s) (bucket_key t))"
    and "tenant_level t (view (elapse d s) (bucket_key t)) (clock (elapse d s))
       = min (plan_capacity t) (tenant_level t (view s (bucket_key t)) (clock s)
           + plan_rate t * secs (int d))"
  using bucket_elapse [OF assms [unfolded tenant_bucket_ok_def]
      order.strict_implies_order [OF plan_numbers(1)] plan_numbers(4), of d]
  by (simp_all add: tenant_bucket_ok_def tenant_level_def)

end

text \<open>
  The requests that may reach a bucket key: draws of some cost under the tenant's plan, and
  requests that do not name the key. They keep the bucket well-formed, so every tenant's
  bucket is a guarded store.
\<close>

inductive bucket_call :: "string \<Rightarrow> call \<Rightarrow> bool" for t where
  elsewhere: "call_cmds (\<lambda>x. key_of x \<noteq> Some (bucket_key t)) c \<Longrightarrow> bucket_call t c"
| draws: "0 \<le> c \<Longrightarrow>
    bucket_call t (Eval (token_bucket_lua (bucket_key t) (plan_capacity t) (plan_rate t) c BUCKET_TTL_SECONDS))"

sublocale redis_server \<subseteq> tenant_buckets: guarded_store exec elapse
    "bucket_call t" "\<lambda>s. tenant_bucket_ok t (clock s) (view s (bucket_key t))" for t
proof unfold_locales
  fix c s r s'
  assume "bucket_call t c" and ok: "tenant_bucket_ok t (clock s) (view s (bucket_key t))"
    and sv: "serve exec c s = (r, s')"
  from \<open>bucket_call t c\<close> show "tenant_bucket_ok t (clock s') (view s' (bucket_key t))"
  proof cases
    case elsewhere
    with serve_frame [OF elsewhere sv] serve_clock [OF sv] ok show ?thesis by simp
  next
    case (draws x)
    obtain s1 where "run_lua exec (token_bucket_lua (bucket_key t) (plan_capacity t) (plan_rate t) x BUCKET_TTL_SECONDS) s
        = (bucket_reply (level (plan_capacity t) (plan_rate t) (view s (bucket_key t)) (clock s)) x (plan_rate t), s1)"
      and "bucket_ok (plan_capacity t) BUCKET_TTL_SECONDS (clock s1) (view s1 (bucket_key t))"
      by (rule bucket_consume [OF ok [unfolded tenant_bucket_ok_def] bucket_ttl_pos
          order.strict_implies_order [OF plan_numbers(1) [of t]] plan_numbers(2) draws(2)])
    with sv draws show ?thesis by (simp add: tenant_bucket_ok_def)
  qed
next
  show "tenant_bucket_ok t (clock (elapse d s)) (view (elapse d s) (bucket_key t))"
    if "tenant_bucket_ok t (clock s) (view s (bucket_key t))" for s d
    using that by (rule tenant_bucket_elapse)
qed

context redis_server
begin

lemma reach_bucket_ok:
  assumes "sys_reach exec elapse req s0 T (s, ps)" and "\<forall>p \<in> req. calls_in (bucket_call t) p"
    and "tenant_bucket_ok t (clock s0) (view s0 (bucket_key t))"
  shows "tenant_bucket_ok t (clock s) (view s (bucket_key t))"
  using tenant_buckets.reach_inv [OF assms(1,2)] assms(3) by simp

end

lemmas check_and_consume_run_mem = redis_server.check_and_consume_run [OF mem.redis_server_axioms _ refl]

text \<open>
  The decision for one request of a tenant: it draws the endpoint's cost from the
  tenant's own bucket under the tenant's plan, admits exactly when the level covers that
  cost, draws nothing when it does not, and leaves every other key alone.
\<close>

theorem check_and_consume_decides:
  assumes srv: "redis_server exec view clock elapse"
    and ok: "tenant_bucket_ok t (clock s) (view s (bucket_key t))"
    and lvl: "lvl = tenant_level t (view s (bucket_key t)) (clock s)"
  shows "\<exists>d s' b. run exec (check_and_consume t e) [Deliver] s = (Done d, [], s')
     \<and> view s' = (view s)(bucket_key t := b) \<and> clock s' = clock s
     \<and> rl_tenant_id d = t \<and> rl_endpoint d = e \<and> rl_cost d = cost_of e
     \<and> rl_allowed d = (of_int (cost_of e) \<le> lvl)
     \<and> tenant_level t b (clock s) = lvl - (if rl_allowed d then of_int (cost_of e) else 0)
     \<and> tenant_bucket_ok t (clock s) b"
proof -
  obtain s' where "run exec (check_and_consume t e) [Deliver] s = (Done (rate_decision t e lvl), [], s')"
    and "tenant_bucket_ok t (clock s') (view s' (bucket_key t))"
    and "tenant_level t (view s' (bucket_key t)) (clock s')
       = (if of_int (cost_of e) \<le> lvl then lvl - of_int (cost_of e) else lvl)"
    and "clock s' = clock s" and "view s' = (view s)(bucket_key t := view s' (bucket_key t))"
    by (rule redis_server.check_and_consume_run [OF srv ok lvl, of e "[]"])
  moreover have "rl_tenant_id (rate_decision t e lvl) = t" "rl_endpoint (rate_decision t e lvl) = e"
    "rl_cost (rate_decision t e lvl) = cost_of e"
    by (simp_all add: rate_decision_def Let_def)
  ultimately show ?thesis
    by (intro exI [of _ "rate_decision t e lvl"] exI [of _ s'] exI [of _ "view s' (bucket_key t)"])
       (simp add: rate_decision_allowed)
qed

theorem check_and_consume_decides_witness:
  "\<exists>d s' b. run mem_exec (check_and_consume ''piedmont'' ''/api/v1/invoices/generate'') [Deliver]
       (mem_at 0) = (Done d, [], s')
     \<and> rl_allowed d \<and> mem_data s' (bucket_key ''piedmont'') = b \<and> tenant_level ''piedmont'' b 0 = 35"
proof -
  have cost: "cost_of ''/api/v1/invoices/generate'' = 15"
    by (simp add: cost_of_def ENDPOINT_COSTS_def)
  have pre: "tenant_bucket_ok ''piedmont'' (mem_clock (mem_at 0)) (mem_data (mem_at 0) (bucket_key ''piedmont''))"
    and lvl: "(50 :: rat) = tenant_level ''piedmont'' (mem_data (mem_at 0) (bucket_key ''piedmont'')) (mem_clock (mem_at 0))"
    by (simp_all add: tenant_bucket_ok_def tenant_level_def mem_at_def limits_of_def)
  obtain d s' b where "run mem_exec (check_and_consume ''piedmont'' ''/api/v1/invoices/generate'')
        [Deliver] (mem_at 0) = (Done d, [], s')"
    and "mem_data s' = (mem_data (mem_at 0))(bucket_key ''piedmont'' := b)"
    and "rl_allowed d = (of_int (cost_of ''/api/v1/invoices/generate'') \<le> (50 :: rat))"
    and "tenant_level ''piedmont'' b (mem_clock (mem_at 0))
      = 50 - (if rl_allowed d then of_int (cost_of ''/api/v1/invoices/generate'') else 0)"
    using check_and_consume_decides [OF mem.redis_server_axioms, of "''piedmont''" "mem_at 0" 50
        "''/api/v1/invoices/generate''", OF pre lvl] by blast
  then show ?thesis
    by (intro exI [of _ d] exI [of _ s'] exI [of _ b]) (simp add: cost mem_at_def)
qed

text \<open>
  A rejection is temporary and its hint is honest: the retry time is positive and
  finite, and the same request is admitted once that time has passed without other traffic
  on the bucket, for every tenant and every endpoint.
\<close>

theorem retry_after_suffices:
  assumes srv: "redis_server exec view clock elapse"
    and ok: "tenant_bucket_ok t (clock s) (view s (bucket_key t))"
    and rejected: "run exec (check_and_consume t e) [Deliver] s = (Done d, [], s')" "\<not> rl_allowed d"
  shows "\<exists>r. rl_retry_after_seconds d = Fin r \<and> 0 < r \<and>
     (\<forall>w. r \<le> secs (int w) \<longrightarrow>
       (\<exists>d' s''. run exec (check_and_consume t e) [Deliver] (elapse w s') = (Done d', [], s'')
          \<and> rl_allowed d'))"
proof -
  let ?lvl = "tenant_level t (view s (bucket_key t)) (clock s)"
  let ?r = "(of_int (cost_of e) - ?lvl) / plan_rate t"
  obtain s1 where run1: "run exec (check_and_consume t e) [Deliver] s = (Done (rate_decision t e ?lvl), [], s1)"
    and ok1: "tenant_bucket_ok t (clock s1) (view s1 (bucket_key t))"
    and lvl1: "tenant_level t (view s1 (bucket_key t)) (clock s1)
       = (if of_int (cost_of e) \<le> ?lvl then ?lvl - of_int (cost_of e) else ?lvl)"
    by (rule redis_server.check_and_consume_run [OF srv ok refl, of e "[]"])
  with rejected have d: "d = rate_decision t e ?lvl" and s1: "s1 = s'"
    and low: "?lvl < of_int (cost_of e)"
    by (auto simp: rate_decision_allowed)
  have admitted: "\<exists>d' s''. run exec (check_and_consume t e) [Deliver] (elapse w s') = (Done d', [], s'')
      \<and> rl_allowed d'" if "?r \<le> secs (int w)" for w
  proof -
    let ?lvl2 = "tenant_level t (view (elapse w s') (bucket_key t)) (clock (elapse w s'))"
    have "of_int (cost_of e) - ?lvl \<le> secs (int w) * plan_rate t"
      using that plan_numbers(1) [of t] by (simp add: pos_divide_le_eq)
    then have "of_int (cost_of e) \<le> ?lvl2"
      using redis_server.tenant_bucket_elapse(2) [OF srv ok1, of w] lvl1 low plan_numbers(3) [of e t]
      by (simp add: s1 mult.commute)
    then have allowed: "rl_allowed (rate_decision t e ?lvl2)" by (simp add: rate_decision_allowed)
    obtain s2 where "run exec (check_and_consume t e) [Deliver] (elapse w s')
        = (Done (rate_decision t e ?lvl2), [], s2)"
      using redis_server.check_and_consume_run
        [OF srv redis_server.tenant_bucket_elapse(1) [OF srv ok1, of w] refl, of e "[]"]
      unfolding s1 by metis
    with allowed show ?thesis by blast
  qed
  have "0 < ?r" using low plan_numbers(1) [of t] by simp
  moreover have "rl_retry_after_seconds d = Fin ?r"
    using rate_decision_retry rejected(2) d by simp
  ultimately show ?thesis using admitted by blast
qed

theorem retry_after_suffices_witness:
  "\<exists>d s' r. run mem_exec (check_and_consume ''piedmont'' ''/api/v1/billing/calculate'') [Deliver]
       (put (bucket_key ''piedmont'') (Some (RHash (bucket_hash [] 4 0), Some (3600 * usec))) (mem_at 0))
       = (Done d, [], s') \<and> \<not> rl_allowed d \<and> rl_retry_after_seconds d = Fin r \<and> 0 < r"
proof -
  let ?e = "''/api/v1/billing/calculate''" and ?t = "''piedmont''"
  let ?s = "put (bucket_key ?t) (Some (RHash (bucket_hash [] 4 0), Some (3600 * usec))) (mem_at 0)"
  have ok: "tenant_bucket_ok ?t (mem_clock ?s) (mem_data ?s (bucket_key ?t))"
    by (simp add: tenant_bucket_ok_def mem_at_def limits_of_def secs_def BUCKET_TTL_SECONDS_def)
  have "tenant_level ?t (mem_data ?s (bucket_key ?t)) (mem_clock ?s) = 4"
    by (simp add: tenant_level_def level_def hash_level_def mem_at_def limits_of_def secs_def)
  with check_and_consume_run_mem [OF ok] obtain s' where
    run: "run mem_exec (check_and_consume ?t ?e) [Deliver] ?s = (Done (rate_decision ?t ?e 4), [], s')"
    by metis
  have no: "\<not> rl_allowed (rate_decision ?t ?e 4)"
    by (simp add: rate_decision_allowed cost_of_def ENDPOINT_COSTS_def)
  from retry_after_suffices [OF mem.redis_server_axioms ok run no] run no show ?thesis by blast
qed

text \<open>
  All endpoints draw on one bucket, and the heavy ones need more of it at once: after
  a tenant's burst of cheap ingests the next invoice calculation is rejected, whoever else
  runs in between, as long as no time passes.
\<close>

theorem ingest_flood_starves_heavy_call:
  assumes srv: "redis_server exec view clock elapse" and "view s (bucket_key t) = None"
  shows "bucket_history exec elapse
      (\<lambda>c. token_bucket_lua (bucket_key t) (plan_capacity t) (plan_rate t) (of_int c) BUCKET_TTL_SECONDS)
      (replicate (nat (burst (limits_of t))) (Consume (cost_of ''/api/v1/events/ingest''))
         @ [Consume (cost_of ''/api/v1/billing/calculate'')]) s
    = replicate (nat (burst (limits_of t))) True @ [False]"
proof -
  let ?n = "nat (burst (limits_of t))"
  have costs: "cost_of ''/api/v1/events/ingest'' = 1" "cost_of ''/api/v1/billing/calculate'' = 10"
    by (simp_all add: cost_of_def ENDPOINT_COSTS_def)
  have ideal: "ideal_bucket c r (replicate n (Consume 1) @ [Consume 10]) (of_nat n)
      = replicate n True @ [False]" for c r :: rat and n
    by (induction n) (simp_all add: bucket_spec_def)
  have n: "(of_nat ?n :: rat) = plan_capacity t"
    using limits_positive(2) [of t] by (simp add: of_nat_nat)
  have "bucket_history exec elapse
      (\<lambda>c. token_bucket_lua (bucket_key t) (plan_capacity t) (plan_rate t) (of_int c) BUCKET_TTL_SECONDS)
      (replicate ?n (Consume 1) @ [Consume 10]) s
    = ideal_bucket (plan_capacity t) (plan_rate t) (replicate ?n (Consume 1) @ [Consume 10])
        (level (plan_capacity t) (plan_rate t) (view s (bucket_key t)) (clock s))"
    using assms(2) limits_positive [of t] limits_burst_covered(2) [of t]
    by (intro bucket_history_ideal [OF srv]) (simp_all add: list_all_iff BUCKET_TTL_SECONDS_def)
  with ideal [of "plan_capacity t" "plan_rate t" ?n] show ?thesis
    by (simp only: costs n assms(2) level_None)
qed

theorem ingest_flood_starves_heavy_call_witness:
  "bucket_history mem_exec mem_elapse
      (\<lambda>c. token_bucket_lua (bucket_key ''piedmont'') (plan_capacity ''piedmont'')
        (plan_rate ''piedmont'') (of_int c) BUCKET_TTL_SECONDS)
      (replicate 50 (Consume (cost_of ''/api/v1/events/ingest''))
         @ [Consume (cost_of ''/api/v1/billing/calculate'')]) (mem_at 0)
    = replicate 50 True @ [False]"
proof -
  have "nat (burst (limits_of ''piedmont'')) = 50" by (simp add: limits_of_def)
  with ingest_flood_starves_heavy_call [OF mem.redis_server_axioms, of "mem_at 0" "''piedmont''"]
  show ?thesis by (simp only:) (simp add: mem_at_def)
qed

end
