(* ===== verification/Semaphore.thy ===== *)
theory Semaphore imports Redis_Reference Key_Schema Tenant_Plan begin

text \<open>
  \<open>billing/infrastructure/concurrency_semaphore.py\<close>: the Lua script that takes a slot, and
  the functions \<open>acquire\<close> and \<open>release\<close>. A slot is a member of a sorted set scored with the
  time it was taken; slots older than \<open>SLOT_TTL_SECONDS\<close> are evicted before the count. The
  lemmas show the behaviour of one call on every branch, that no interleaving of any
  programs lets the set outgrow the cap, and that it is a counting semaphore as long as
  holders release before their slot is stale.
\<close>

definition SLOT_TTL_SECONDS :: int where
  "SLOT_TTL_SECONDS = 60"

lemma slot_ttl_pos: "0 < SLOT_TTL_SECONDS"
  by (simp add: SLOT_TTL_SECONDS_def)

definition acquire_lua :: "string \<Rightarrow> int \<Rightarrow> rat \<Rightarrow> rat \<Rightarrow> string \<Rightarrow> int \<Rightarrow> lua" where
  "acquire_lua key capacity now cutoff slot_id ttl =
     Lua_Call (ZREMRANGEBYSCORE key cutoff) (\<lambda>_.
     Lua_Call (ZCARD key) (\<lambda>r.
       case r of
         RInt in_flight \<Rightarrow>
           if capacity \<le> in_flight then
             Lua_Call (EXPIRE key ttl) (\<lambda>_. Lua_Return (RArray [RInt 0, RInt in_flight]))
           else
             Lua_Call (ZADD key now slot_id) (\<lambda>_.
             Lua_Call (EXPIRE key ttl) (\<lambda>_.
               Lua_Return (RArray [RInt 1, RInt (in_flight + 1)])))
       | _ \<Rightarrow> Lua_Return (RError ''attempt to compare number with nil'')))"

record SlotHandle =
  admitted :: bool
  slot_id :: string
  in_flight :: int

fun slot_handle :: "string \<Rightarrow> reply \<Rightarrow> exn + SlotHandle" where
  "slot_handle slot (RArray [RInt a, RInt n]) =
     Inr \<lparr>admitted = (a = 1), slot_id = slot, in_flight = n\<rparr>"
| "slot_handle slot _ = Inl (OtherException ''TypeError'')"

text \<open>\<open>f"{x:.6f}"\<close>\<close>

definition fmt6 :: "rat \<Rightarrow> rat" where
  "fmt6 x = py_round x 6"

definition acquire :: "string \<Rightarrow> int \<Rightarrow> SlotHandle prog" where
  "acquire key capacity =
     Now (\<lambda>now. Uuid4 (\<lambda>slot.
       bnd (redis_py (Eval (acquire_lua key capacity (fmt6 now)
              (fmt6 (now - of_int SLOT_TTL_SECONDS)) slot SLOT_TTL_SECONDS)))
         (\<lambda>raw. lift_exn (slot_handle slot raw))))"

definition release :: "string \<Rightarrow> string \<Rightarrow> unit prog" where
  "release key slot = bnd (redis_py (Cmd (ZREM key slot))) (\<lambda>_. Return ())"

subsection \<open>One acquisition\<close>

definition acquire_reply :: "int \<Rightarrow> (string \<times> rat) list \<Rightarrow> reply" where
  "acquire_reply capacity live =
     (if capacity \<le> int (length live) then RArray [RInt 0, RInt (int (length live))]
      else RArray [RInt 1, RInt (int (length live) + 1)])"

definition acquire_members :: "int \<Rightarrow> rat \<Rightarrow> string \<Rightarrow> (string \<times> rat) list \<Rightarrow> (string \<times> rat) list" where
  "acquire_members capacity now slot live =
     (if capacity \<le> int (length live) then live else AList.update slot now live)"

lemma acquire_reply_no_error: "acquire_reply capacity live \<noteq> RError e"
  by (simp add: acquire_reply_def)

lemma slot_handle_reply:
  "slot_handle slot (acquire_reply capacity live) =
     Inr \<lparr>admitted = (int (length live) < capacity), slot_id = slot,
          in_flight = int (length live) + (if int (length live) < capacity then 1 else 0)\<rparr>"
  by (simp add: acquire_reply_def)

lemma acquire_reply_admits: "lua_index (acquire_reply capacity live) 1 = RInt 1 \<longleftrightarrow> int (length live) < capacity"
  by (simp add: acquire_reply_def)

context redis_server
begin

lemma run_acquire_lua:
  assumes z: "as_zset (view s k) = Some z" and "0 < ttl" and live: "live = drop_scores cutoff z"
  obtains s' where
    "run_lua exec (acquire_lua k capacity now cutoff slot ttl) s = (acquire_reply capacity live, s')"
    and "view s' = (view s)(k := zset_entry (acquire_members capacity now slot live)
                       (Some (clock s + ttl * usec)))"
    and "clock s' = clock s"
proof -
  obtain n s1 where 1: "exec (ZREMRANGEBYSCORE k cutoff) s = (RInt n, s1)"
    and v1: "view s1 = (view s)(k := zset_entry live (deadline_of (view s k)))"
    and c1: "clock s1 = clock s"
    using zremrangebyscore_view [OF z, of cutoff] live by blast
  have z1: "as_zset (view s1 k) = Some live" by (simp add: v1)
  show ?thesis
  proof (cases "capacity \<le> int (length live)")
    case True
    obtain j s2 where 2: "exec (EXPIRE k ttl) s1 = (RInt j, s2)"
      and v2: "view s2 = (view s1)(k := map_option (\<lambda>(v, _). (v, Some (clock s1 + ttl * usec))) (view s1 k))"
      and c2: "clock s2 = clock s1"
      by (rule expire_view [OF assms(2)])
    show ?thesis
    proof (rule that)
      show "run_lua exec (acquire_lua k capacity now cutoff slot ttl) s = (acquire_reply capacity live, s2)"
        using True 1 2 by (simp add: acquire_lua_def zcard [OF z1] acquire_reply_def)
    qed (use True in \<open>simp_all add: v2 v1 c1 c2 acquire_members_def zset_entry_def\<close>)
  next
    case False
    obtain m s2 where 2: "exec (ZADD k now slot) s1 = (RInt m, s2)"
      and v2: "view s2 = (view s1)(k := Some (RZSet (AList.update slot now live), deadline_of (view s1 k)))"
      and c2: "clock s2 = clock s1"
      by (rule zadd_view [OF z1])
    obtain j s3 where 3: "exec (EXPIRE k ttl) s2 = (RInt j, s3)"
      and v3: "view s3 = (view s2)(k := map_option (\<lambda>(v, _). (v, Some (clock s2 + ttl * usec))) (view s2 k))"
      and c3: "clock s3 = clock s2"
      by (rule expire_view [OF assms(2)])
    show ?thesis
    proof (rule that)
      show "run_lua exec (acquire_lua k capacity now cutoff slot ttl) s = (acquire_reply capacity live, s3)"
        using False 1 2 3 by (simp add: acquire_lua_def zcard [OF z1] acquire_reply_def)
    qed (use False in \<open>simp_all add: v3 v2 v1 c1 c2 c3 acquire_members_def zset_entry_def\<close>)
  qed
qed

lemma run_release_cmd:
  assumes z: "as_zset (view s k) = Some z"
  obtains n s' where "exec (ZREM k slot) s = (RInt n, s')"
    and "view s' = (view s)(k := zset_entry (AList.delete slot z) (deadline_of (view s k)))"
    and "clock s' = clock s"
  by (rule zrem_view [OF z])

end

lemma drop_scores_length: "length (drop_scores c z) \<le> length z"
  by (simp add: drop_scores_def)

lemma acquire_members_length:
  "int (length (acquire_members capacity now slot live)) \<le> max (int (length live)) capacity"
  by (auto simp: acquire_members_def length_update_alist)

subsection \<open>The cap under every interleaving\<close>

text \<open>
  The requests that may reach a semaphore key: acquisitions with the key's cap (whatever
  clock and slot id the caller has), releases, and requests that do not name the key.
\<close>

inductive semaphore_call :: "string \<Rightarrow> int \<Rightarrow> call \<Rightarrow> bool" for k cap where
  elsewhere: "call_cmds (\<lambda>x. key_of x \<noteq> Some k) c \<Longrightarrow> semaphore_call k cap c"
| takes: "semaphore_call k cap (Eval (acquire_lua k cap now cutoff slot SLOT_TTL_SECONDS))"
| gives: "semaphore_call k cap (Cmd (ZREM k slot))"

definition within_cap :: "int \<Rightarrow> entry option \<Rightarrow> bool" where
  "within_cap cap e = (case as_zset e of None \<Rightarrow> False | Some z \<Rightarrow> int (length z) \<le> cap)"

lemma within_capI: "as_zset e = Some z \<Longrightarrow> int (length z) \<le> cap \<Longrightarrow> within_cap cap e"
  by (simp add: within_cap_def)

lemma within_capE:
  assumes "within_cap cap e"
  obtains z where "as_zset e = Some z" and "int (length z) \<le> cap"
  using assms by (auto simp: within_cap_def split: option.splits)

context redis_server
begin

lemma semaphore_call_within_cap:
  assumes "semaphore_call k cap c" and "within_cap cap (view s k)" and "serve exec c s = (r, s')"
    and "0 \<le> cap"
  shows "within_cap cap (view s' k)"
  using assms(1)
proof cases
  case elsewhere
  then show ?thesis using assms(2,3) serve_frame by simp
next
  case (takes now cutoff slot)
  from assms(2) obtain z where z: "as_zset (view s k) = Some z" "int (length z) \<le> cap"
    by (rule within_capE)
  let ?live = "drop_scores cutoff z"
  obtain s1 where "run_lua exec (acquire_lua k cap now cutoff slot SLOT_TTL_SECONDS) s
      = (acquire_reply cap ?live, s1)"
    and "view s1 = (view s)(k := zset_entry (acquire_members cap now slot ?live)
                       (Some (clock s + SLOT_TTL_SECONDS * usec)))"
    by (rule run_acquire_lua [OF z(1) slot_ttl_pos refl])
  with assms(3) takes have "as_zset (view s' k) = Some (acquire_members cap now slot ?live)"
    by simp
  moreover have "int (length (acquire_members cap now slot ?live)) \<le> cap"
    using acquire_members_length [of cap now slot ?live] drop_scores_length [of cutoff z] z(2)
    by linarith
  ultimately show ?thesis by (rule within_capI)
next
  case (gives slot)
  from assms(2) obtain z where z: "as_zset (view s k) = Some z" "int (length z) \<le> cap"
    by (rule within_capE)
  obtain n s1 where "exec (ZREM k slot) s = (RInt n, s1)"
    and "view s1 = (view s)(k := zset_entry (AList.delete slot z) (deadline_of (view s k)))"
    by (rule run_release_cmd [OF z(1)])
  with assms(3) gives have "as_zset (view s' k) = Some (AList.delete slot z)" by simp
  moreover have "int (length (AList.delete slot z)) \<le> cap"
    using length_delete_alist_le [of slot z] z(2) by linarith
  ultimately show ?thesis by (rule within_capI)
qed

lemma within_cap_elapse:
  assumes "within_cap cap (view s k)" and "0 \<le> cap"
  shows "within_cap cap (view (elapse d s) k)"
  using elapse_either [of d s k] assms by (auto simp: within_cap_def)

end

text \<open>Every tenant's concurrency key is such a guarded store, with the tenant's own cap.\<close>

sublocale redis_server \<subseteq> tenant_slots: guarded_store exec elapse
    "semaphore_call (concurrency_key t) (concurrency_cap t)"
    "\<lambda>s. within_cap (concurrency_cap t) (view s (concurrency_key t))" for t
proof unfold_locales
  have cap: "0 \<le> concurrency_cap t"
    using limits_positive(3) [of t] by (simp add: concurrency_cap_limits)
  show "within_cap (concurrency_cap t) (view s' (concurrency_key t))"
    if "semaphore_call (concurrency_key t) (concurrency_cap t) c"
      and "within_cap (concurrency_cap t) (view s (concurrency_key t))"
      and "serve exec c s = (r, s')" for c s r s'
    using that cap by (rule semaphore_call_within_cap)
  show "within_cap (concurrency_cap t) (view (elapse d s) (concurrency_key t))"
    if "within_cap (concurrency_cap t) (view s (concurrency_key t))" for s d
    using that cap by (rule within_cap_elapse)
qed

context redis_server
begin

lemma reach_within_cap:
  assumes "sys_reach exec elapse req s0 T (s, ps)"
    and "\<forall>p \<in> req. calls_in (semaphore_call (concurrency_key t) (concurrency_cap t)) p"
    and "view s0 (concurrency_key t) = None"
  shows "within_cap (concurrency_cap t) (view s (concurrency_key t))"
proof -
  have "within_cap (concurrency_cap t) (view s0 (concurrency_key t))"
    using assms(3) limits_positive(3) [of t] by (simp add: within_cap_def concurrency_cap_limits)
  with tenant_slots.reach_inv [OF assms(1,2)] show ?thesis by simp
qed

end

text \<open>
  C39. \<open>acquire\<close> on a semaphore with members \<open>z\<close>: the slots older than a minute are evicted,
  the caller is admitted exactly when fewer than \<open>capacity\<close> are left, an admitted caller's
  slot is added with its time as score, the reply counts the slots, and the key's minute
  restarts; nothing else changes.
\<close>

theorem acquire_decides:
  assumes srv: "redis_server exec view clock elapse"
    and z: "as_zset (view s key) = Some z"
    and live: "live = drop_scores (fmt6 (now - 60)) z"
  shows "\<exists>s'. run exec (acquire key capacity) [Reads now, Draws slot, Deliver] s
      = (Done \<lparr>admitted = (int (length live) < capacity), slot_id = slot,
               in_flight = int (length live) + (if int (length live) < capacity then 1 else 0)\<rparr>, [], s')
    \<and> view s' = (view s)(key := zset_entry
         (if int (length live) < capacity then AList.update slot (fmt6 now) live else live)
         (Some (clock s + 60 * usec)))"
proof -
  have "live = drop_scores (fmt6 (now - of_int SLOT_TTL_SECONDS)) z"
    by (simp add: live SLOT_TTL_SECONDS_def)
  then obtain s' where "run_lua exec (acquire_lua key capacity (fmt6 now)
        (fmt6 (now - of_int SLOT_TTL_SECONDS)) slot SLOT_TTL_SECONDS) s = (acquire_reply capacity live, s')"
    and v: "view s' = (view s)(key := zset_entry (acquire_members capacity (fmt6 now) slot live)
                       (Some (clock s + SLOT_TTL_SECONDS * usec)))"
    by (rule redis_server.run_acquire_lua [OF srv z slot_ttl_pos])
  then have "run exec (acquire key capacity) [Reads now, Draws slot, Deliver] s
      = (Done \<lparr>admitted = (int (length live) < capacity), slot_id = slot,
               in_flight = int (length live) + (if int (length live) < capacity then 1 else 0)\<rparr>, [], s')"
    by (simp add: acquire_def prog_simps acquire_reply_no_error reply_outcome_ok slot_handle_reply)
  with v show ?thesis
    by (intro exI [of _ s']) (simp add: acquire_members_def SLOT_TTL_SECONDS_def linorder_not_less)
qed

theorem acquire_decides_witness:
  "\<exists>s'. run mem_exec (acquire ''k'' 1) [Reads 100, Draws ''b'', Deliver]
      (put ''k'' (Some (RZSet [(''a'', 99)], None)) (mem_at 0))
    = (Done \<lparr>admitted = False, slot_id = ''b'', in_flight = 1\<rparr>, [], s')"
  using acquire_decides [OF mem.redis_server_axioms,
      of "put ''k'' (Some (RZSet [(''a'', 99)], None)) (mem_at 0)" "''k''" "[(''a'', 99)]" "[(''a'', 99)]" 100 1 "''b''"]
  by (auto simp: drop_scores_def fmt6_def py_round_def round_half_even_def)

text \<open>
  Giving back a slot undoes taking it: after an admitted \<open>acquire\<close> with a new slot id
  and the matching \<open>release\<close>, exactly the other live slots are held, and releasing once
  more changes nothing.
\<close>

theorem release_undoes_acquire:
  assumes srv: "redis_server exec view clock elapse"
    and z: "as_zset (view s key) = Some z"
    and live: "live = drop_scores (fmt6 (now - 60)) z"
    and room: "int (length live) < capacity" and fresh: "slot \<notin> fst ` set live"
  shows "\<exists>s'. run exec (bnd (acquire key capacity) (\<lambda>h. bnd (release key (slot_id h)) (\<lambda>_. release key (slot_id h))))
        [Reads now, Draws slot, Deliver, Deliver, Deliver] s = (Done (), [], s')
    \<and> as_zset (view s' key) = Some live"
proof -
  have "live = drop_scores (fmt6 (now - of_int SLOT_TTL_SECONDS)) z"
    by (simp add: live SLOT_TTL_SECONDS_def)
  then obtain s1 where 1: "run_lua exec (acquire_lua key capacity (fmt6 now)
        (fmt6 (now - of_int SLOT_TTL_SECONDS)) slot SLOT_TTL_SECONDS) s = (acquire_reply capacity live, s1)"
    and "view s1 = (view s)(key := zset_entry (acquire_members capacity (fmt6 now) slot live)
                       (Some (clock s + SLOT_TTL_SECONDS * usec)))"
    by (rule redis_server.run_acquire_lua [OF srv z slot_ttl_pos])
  with room have z1: "as_zset (view s1 key) = Some (AList.update slot (fmt6 now) live)"
    by (simp add: acquire_members_def)
  obtain n s2 where 2: "exec (ZREM key slot) s1 = (RInt n, s2)"
    and "view s2 = (view s1)(key := zset_entry (AList.delete slot (AList.update slot (fmt6 now) live))
                       (deadline_of (view s1 key)))"
    by (rule redis_server.run_release_cmd [OF srv z1])
  with fresh have z2: "as_zset (view s2 key) = Some live"
    by (simp add: delete_update_alist_fresh)
  obtain m s3 where 3: "exec (ZREM key slot) s2 = (RInt m, s3)"
    and "view s3 = (view s2)(key := zset_entry (AList.delete slot live) (deadline_of (view s2 key)))"
    by (rule redis_server.run_release_cmd [OF srv z2])
  with fresh have "as_zset (view s3 key) = Some live" by simp
  with 1 2 3 show ?thesis
    by (simp add: acquire_def release_def prog_simps acquire_reply_no_error reply_outcome_ok
        slot_handle_reply)
qed

theorem release_undoes_acquire_witness:
  "\<exists>s'. run mem_exec (bnd (acquire ''k'' 2) (\<lambda>h. bnd (release ''k'' (slot_id h)) (\<lambda>_. release ''k'' (slot_id h))))
        [Reads 100, Draws ''b'', Deliver, Deliver, Deliver]
        (put ''k'' (Some (RZSet [(''a'', 99)], None)) (mem_at 0)) = (Done (), [], s')
    \<and> as_zset (mem_data s' ''k'') = Some [(''a'', 99)]"
  using release_undoes_acquire [OF mem.redis_server_axioms,
      of "put ''k'' (Some (RZSet [(''a'', 99)], None)) (mem_at 0)" "''k''" "[(''a'', 99)]" "[(''a'', 99)]" 100 2 "''b''"]
  by (auto simp: drop_scores_def fmt6_def py_round_def round_half_even_def)

text \<open>
  However many programs run and however their requests interleave, get lost or time
  out, the slots recorded for a tenant never exceed the tenant's cap, provided every
  request that names the tenant's concurrency key is an acquisition with that cap or a
  release.
\<close>

theorem slots_never_exceed_cap:
  assumes srv: "redis_server exec view clock elapse"
    and reach: "sys_reach exec elapse req s0 T (s, ps)"
    and calls: "\<forall>p \<in> req. calls_in (semaphore_call (concurrency_key t) (concurrency_cap t)) p"
    and start: "view s0 (concurrency_key t) = None"
  shows "\<exists>z. as_zset (view s (concurrency_key t)) = Some z \<and> int (length z) \<le> concurrency_cap t"
  using redis_server.reach_within_cap [OF assms] by (auto elim: within_capE)

lemma calls_in_acquire: "calls_in (semaphore_call k cap) (acquire k cap)"
  unfolding acquire_def
  by (auto intro!: calls_in_bnd calls_in_redis_py semaphore_call.takes simp: lift_exn_def split: sum.split)

lemma calls_in_release: "calls_in (semaphore_call k cap) (release k slot)"
  unfolding release_def by (auto intro!: calls_in_bnd calls_in_redis_py semaphore_call.gives)

theorem slots_never_exceed_cap_witness:
  "\<exists>s' h z. sys_reach mem_exec mem_elapse {acquire (concurrency_key ''piedmont'') 3} (mem_at 0) 0 (s', [Return h])
     \<and> admitted h \<and> as_zset (mem_data s' (concurrency_key ''piedmont'')) = Some z \<and> int (length z) \<le> 3"
proof -
  let ?k = "concurrency_key ''piedmont''"
  have cap: "concurrency_cap ''piedmont'' = 3" by (simp add: concurrency_cap_limits limits_of_def)
  have "\<exists>s'. run mem_exec (acquire ?k 3) [Reads 100, Draws ''a'', Deliver] (mem_at 0)
      = (Done \<lparr>admitted = True, slot_id = ''a'', in_flight = 1\<rparr>, [], s')"
    by (simp add: acquire_def acquire_lua_def prog_simps mem_at_def with_defs grown_def drop_scores_def
        zset_entry_def)
  then obtain s' where "run mem_exec (acquire ?k 3) [Reads 100, Draws ''a'', Deliver] (mem_at 0)
      = (Done \<lparr>admitted = True, slot_id = ''a'', in_flight = 1\<rparr>, [], s')" ..
  from run_alone_reaches [OF this singletonI]
  have r: "sys_reach mem_exec mem_elapse {acquire ?k 3} (mem_at 0) 0
      (s', [Return \<lparr>admitted = True, slot_id = ''a'', in_flight = 1\<rparr>])" .
  have "\<forall>p \<in> {acquire ?k 3}. calls_in (semaphore_call ?k (concurrency_cap ''piedmont'')) p"
    by (simp add: calls_in_acquire cap)
  moreover have "mem_data (mem_at 0) ?k = None" by (simp add: mem_at_def)
  ultimately obtain z where "as_zset (mem_data s' ?k) = Some z" "int (length z) \<le> 3"
    using slots_never_exceed_cap [OF mem.redis_server_axioms r, of "''piedmont''"] by (auto simp: cap)
  with r show ?thesis by (metis SlotHandle.select_convs(1))
qed

text \<open>
  C23. The semaphore heals itself: when every recorded slot is at least a minute old by
  the caller's clock (their holders crashed or hang), the next caller is admitted as the
  only holder, whatever the set held.
\<close>

theorem stale_slots_are_reclaimed:
  assumes srv: "redis_server exec view clock elapse"
    and z: "as_zset (view s key) = Some z"
    and stale: "list_all (\<lambda>(m, score). score \<le> fmt6 (now - 60)) z" and "0 < capacity"
  shows "\<exists>s'. run exec (acquire key capacity) [Reads now, Draws slot, Deliver] s
      = (Done \<lparr>admitted = True, slot_id = slot, in_flight = 1\<rparr>, [], s')
    \<and> as_zset (view s' key) = Some [(slot, fmt6 now)]"
proof -
  have "[] = drop_scores (fmt6 (now - of_int SLOT_TTL_SECONDS)) z"
    using stale by (auto simp: drop_scores_def SLOT_TTL_SECONDS_def list_all_iff intro!: filter_False [symmetric])
  then obtain s' where "run_lua exec (acquire_lua key capacity (fmt6 now)
        (fmt6 (now - of_int SLOT_TTL_SECONDS)) slot SLOT_TTL_SECONDS) s = (acquire_reply capacity [], s')"
    and "view s' = (view s)(key := zset_entry (acquire_members capacity (fmt6 now) slot [])
                       (Some (clock s + SLOT_TTL_SECONDS * usec)))"
    by (rule redis_server.run_acquire_lua [OF srv z slot_ttl_pos])
  with assms(4) show ?thesis
    by (simp add: acquire_def prog_simps acquire_reply_def acquire_members_def)
qed

theorem stale_slots_are_reclaimed_witness:
  "\<exists>s'. run mem_exec (acquire ''k'' 1) [Reads 160, Draws ''b'', Deliver]
      (put ''k'' (Some (RZSet [(''a'', 99)], None)) (mem_at 0))
    = (Done \<lparr>admitted = True, slot_id = ''b'', in_flight = 1\<rparr>, [], s')"
  using stale_slots_are_reclaimed [OF mem.redis_server_axioms,
      of "put ''k'' (Some (RZSet [(''a'', 99)], None)) (mem_at 0)" "''k''" "[(''a'', 99)]" 160 1 "''b''"]
  by (auto simp: fmt6_def py_round_def round_half_even_def)

subsection \<open>A counting semaphore\<close>

text \<open>
  Histories of one semaphore key, and the abstract semaphore: a list of holders. A history
  is timely when nobody holds a slot for the whole minute: by the clock of every caller
  that acquires, and by the server's clock, each current holder's slot is younger than
  \<open>SLOT_TTL_SECONDS\<close>. Slot ids are new when drawn.
\<close>

datatype sem_op = Take rat string | Give string | Wait nat | Elsewhere rcmd

primrec sem_history :: "'s exec \<Rightarrow> (nat \<Rightarrow> 's \<Rightarrow> 's) \<Rightarrow> string \<Rightarrow> int \<Rightarrow> sem_op list \<Rightarrow> 's \<Rightarrow> bool list" where
  "sem_history ex el k cap [] s = []"
| "sem_history ex el k cap (op # ops) s =
     (case op of
        Take now slot \<Rightarrow>
          (case run_lua ex (acquire_lua k cap (fmt6 now) (fmt6 (now - of_int SLOT_TTL_SECONDS)) slot
                              SLOT_TTL_SECONDS) s of
             (r, s') \<Rightarrow> (lua_index r 1 = RInt 1) # sem_history ex el k cap ops s')
      | Give slot \<Rightarrow> sem_history ex el k cap ops (snd (ex (ZREM k slot) s))
      | Wait d \<Rightarrow> sem_history ex el k cap ops (el d s)
      | Elsewhere c \<Rightarrow> sem_history ex el k cap ops (snd (ex c s)))"

primrec counting_semaphore :: "int \<Rightarrow> sem_op list \<Rightarrow> string list \<Rightarrow> bool list" where
  "counting_semaphore cap [] hs = []"
| "counting_semaphore cap (op # ops) hs =
     (case op of
        Take now slot \<Rightarrow>
          (if int (length hs) < cap then True # counting_semaphore cap ops (hs @ [slot])
           else False # counting_semaphore cap ops hs)
      | Give slot \<Rightarrow> counting_semaphore cap ops (filter (\<lambda>h. h \<noteq> slot) hs)
      | Wait d \<Rightarrow> counting_semaphore cap ops hs
      | Elsewhere c \<Rightarrow> counting_semaphore cap ops hs)"

text \<open>A holder: slot id, score, and the server time at which its minute ends.\<close>

type_synonym holder = "string \<times> rat \<times> int"

definition take_holder :: "int \<Rightarrow> rat \<Rightarrow> string \<Rightarrow> int \<Rightarrow> holder list \<Rightarrow> holder list" where
  "take_holder cap now slot t hs =
     (if int (length hs) < cap then hs @ [(slot, fmt6 now, t + SLOT_TTL_SECONDS * usec)] else hs)"

primrec timely :: "string \<Rightarrow> int \<Rightarrow> sem_op list \<Rightarrow> holder list \<Rightarrow> int \<Rightarrow> bool" where
  "timely k cap [] hs t = True"
| "timely k cap (op # ops) hs t =
     (case op of
        Take now slot \<Rightarrow>
          list_all (\<lambda>(i, x, e). i \<noteq> slot \<and> fmt6 (now - of_int SLOT_TTL_SECONDS) < x) hs
          \<and> timely k cap ops (take_holder cap now slot t hs) t
      | Give slot \<Rightarrow> timely k cap ops (filter (\<lambda>(i, x, e). i \<noteq> slot) hs) t
      | Wait d \<Rightarrow> list_all (\<lambda>(i, x, e). t + int d < e) hs \<and> timely k cap ops hs (t + int d)
      | Elsewhere c \<Rightarrow> key_of c \<noteq> Some k \<and> timely k cap ops hs t)"

definition scored :: "holder list \<Rightarrow> (string \<times> rat) list" where
  "scored hs = map (\<lambda>(i, x, e). (i, x)) hs"

definition holds_exactly :: "holder list \<Rightarrow> entry option \<Rightarrow> bool" where
  "holds_exactly hs e \<longleftrightarrow>
     (\<exists>d. e = zset_entry (scored hs) (Some d) \<and> list_all (\<lambda>(i, x, l). l \<le> d) hs)"

lemma scored_simps [simp]:
  "scored [] = []" "scored (hs @ [(i, x, e)]) = scored hs @ [(i, x)]"
  "length (scored hs) = length hs" "scored hs = [] \<longleftrightarrow> hs = []"
  by (simp_all add: scored_def)

lemma drop_scores_scored:
  "list_all (\<lambda>(i, x, e). i \<noteq> slot \<and> cutoff < x) hs \<Longrightarrow> drop_scores cutoff (scored hs) = scored hs"
  by (auto simp: drop_scores_def scored_def list_all_iff filter_id_conv)

lemma update_scored_fresh:
  "list_all (\<lambda>(i, x, e). i \<noteq> slot \<and> cutoff < x) hs \<Longrightarrow>
     AList.update slot v (scored hs) = scored hs @ [(slot, v)]"
  by (induction hs) (auto simp: scored_def)

lemma delete_scored:
  "AList.delete slot (scored hs) = scored (filter (\<lambda>(i, x, e). i \<noteq> slot) hs)"
  by (induction hs) (auto simp: scored_def)

lemma map_filter_holders:
  "map fst (filter (\<lambda>(i, x, e). i \<noteq> slot) hs) = filter (\<lambda>h. h \<noteq> slot) (map fst hs)"
  for hs :: "holder list"
  by (induction hs) auto

context redis_server
begin

lemma take_refines:
  assumes h: "holds_exactly hs (view s k)"
    and young: "list_all (\<lambda>(i, x, e). i \<noteq> slot \<and> fmt6 (now - of_int SLOT_TTL_SECONDS) < x) hs"
    and e: "list_all (\<lambda>(i, x, e). e \<le> clock s + SLOT_TTL_SECONDS * usec) hs"
  obtains r s' where
    "run_lua exec (acquire_lua k cap (fmt6 now) (fmt6 (now - of_int SLOT_TTL_SECONDS)) slot SLOT_TTL_SECONDS) s
       = (r, s')"
    and "(lua_index r 1 = RInt 1) = (int (length hs) < cap)"
    and "holds_exactly (take_holder cap now slot (clock s) hs) (view s' k)" and "clock s' = clock s"
proof -
  have z: "as_zset (view s k) = Some (scored hs)" using h by (auto simp: holds_exactly_def)
  have live: "scored hs = drop_scores (fmt6 (now - of_int SLOT_TTL_SECONDS)) (scored hs)"
    using drop_scores_scored [OF young] by simp
  obtain s' where s': "run_lua exec (acquire_lua k cap (fmt6 now)
        (fmt6 (now - of_int SLOT_TTL_SECONDS)) slot SLOT_TTL_SECONDS) s = (acquire_reply cap (scored hs), s')"
    and v: "view s' = (view s)(k := zset_entry (acquire_members cap (fmt6 now) slot (scored hs))
                       (Some (clock s + SLOT_TTL_SECONDS * usec)))"
    and c: "clock s' = clock s"
    by (rule run_acquire_lua [OF z slot_ttl_pos live])
  have "acquire_members cap (fmt6 now) slot (scored hs) = scored (take_holder cap now slot (clock s) hs)"
    using update_scored_fresh [OF young] by (simp add: acquire_members_def take_holder_def)
  moreover have "list_all (\<lambda>(i, x, e). e \<le> clock s + SLOT_TTL_SECONDS * usec)
      (take_holder cap now slot (clock s) hs)"
    using e by (simp add: take_holder_def)
  ultimately have "holds_exactly (take_holder cap now slot (clock s) hs) (view s' k)"
    using v by (auto simp: holds_exactly_def)
  then show ?thesis using that [OF s' _ _ c] acquire_reply_admits [of cap "scored hs"] by simp
qed

lemma give_refines:
  assumes "holds_exactly hs (view s k)"
  shows "holds_exactly (filter (\<lambda>(i, x, e). i \<noteq> slot) hs) (view (snd (exec (ZREM k slot) s)) k)"
proof -
  from assms obtain d where v: "view s k = zset_entry (scored hs) (Some d)"
    and d: "list_all (\<lambda>(i, x, l). l \<le> d) hs" by (auto simp: holds_exactly_def)
  have z: "as_zset (view s k) = Some (scored hs)" by (simp add: v)
  obtain n s' where "exec (ZREM k slot) s = (RInt n, s')"
    and "view s' = (view s)(k := zset_entry (AList.delete slot (scored hs)) (deadline_of (view s k)))"
    by (rule run_release_cmd [OF z])
  moreover have "zset_entry (scored (filter (\<lambda>(i, x, e). i \<noteq> slot) hs)) (deadline_of (view s k))
      = zset_entry (scored (filter (\<lambda>(i, x, e). i \<noteq> slot) hs)) (Some d)"
    by (cases "hs = []") (simp_all add: v zset_entry_def)
  ultimately show ?thesis
    using d by (auto simp: holds_exactly_def delete_scored list_all_iff)
qed

lemma wait_refines:
  assumes "holds_exactly hs (view s k)" and "list_all (\<lambda>(i, x, e). clock s + int d < e) hs"
  shows "view (elapse d s) k = view s k"
proof (rule elapse_live)
  fix dl assume dl: "deadline_of (view s k) = Some dl"
  from assms(1) obtain e where v: "view s k = zset_entry (scored hs) (Some e)"
    and e: "list_all (\<lambda>(i, x, l). l \<le> e) hs" by (auto simp: holds_exactly_def)
  with dl obtain h hs' where "hs = h # hs'" by (cases hs) (auto simp: zset_entry_def)
  with v e dl assms(2) show "clock s + int d < dl"
    by (auto simp: zset_entry_def scored_def split: prod.splits)
qed

lemma semaphore_refines:
  assumes "holds_exactly hs (view s k)" and "timely k cap ops hs (clock s)"
    and "list_all (\<lambda>(i, x, e). e \<le> clock s + SLOT_TTL_SECONDS * usec) hs"
  shows "sem_history exec elapse k cap ops s = counting_semaphore cap ops (map fst hs)"
  using assms
proof (induction ops arbitrary: hs s)
  case Nil
  then show ?case by simp
next
  case (Cons op ops)
  show ?case
  proof (cases op)
    case (Take now slot)
    with Cons.prems have young: "list_all (\<lambda>(i, x, e). i \<noteq> slot \<and> fmt6 (now - of_int SLOT_TTL_SECONDS) < x) hs"
      and rest: "timely k cap ops (take_holder cap now slot (clock s) hs) (clock s)" by simp_all
    obtain r s' where r: "run_lua exec (acquire_lua k cap (fmt6 now)
          (fmt6 (now - of_int SLOT_TTL_SECONDS)) slot SLOT_TTL_SECONDS) s = (r, s')"
      "(lua_index r 1 = RInt 1) = (int (length hs) < cap)"
      and h: "holds_exactly (take_holder cap now slot (clock s) hs) (view s' k)" and c: "clock s' = clock s"
      by (rule take_refines [OF Cons.prems(1) young Cons.prems(3)])
    have "sem_history exec elapse k cap ops s'
        = counting_semaphore cap ops (map fst (take_holder cap now slot (clock s) hs))"
      using h rest Cons.prems(3) by (intro Cons.IH) (simp_all add: c take_holder_def)
    with r Take show ?thesis by (simp add: take_holder_def)
  next
    case (Give slot)
    let ?s = "snd (exec (ZREM k slot) s)"
    have "sem_history exec elapse k cap ops ?s
        = counting_semaphore cap ops (map fst (filter (\<lambda>(i, x, e). i \<noteq> slot) hs))"
    proof (rule Cons.IH)
      show "holds_exactly (filter (\<lambda>(i, x, e). i \<noteq> slot) hs) (view ?s k)"
        by (rule give_refines [OF Cons.prems(1)])
    qed (use Cons.prems Give in \<open>auto simp: clock_exec list_all_iff\<close>)
    with Give show ?thesis by (simp add: map_filter_holders)
  next
    case (Wait d)
    with Cons.prems have w: "list_all (\<lambda>(i, x, e). clock s + int d < e) hs" by simp
    have "sem_history exec elapse k cap ops (elapse d s) = counting_semaphore cap ops (map fst hs)"
      using Cons.prems Wait wait_refines [OF Cons.prems(1) w]
      by (intro Cons.IH) (auto simp: clock_elapse list_all_iff)
    with Wait show ?thesis by simp
  next
    case (Elsewhere c)
    with Cons.prems frame [of c k s] Cons.IH [of hs "snd (exec c s)"] show ?thesis
      by (simp add: clock_exec)
  qed
qed

end

text \<open>
  C16. From an unused key, over every timely history (any interleaving of acquisitions,
  releases, other traffic and waiting in which each holder gives its slot back before its
  minute is over), the decisions are exactly those of a counting semaphore of the given
  capacity: admitted when and only when fewer than \<open>capacity\<close> holders are inside.
\<close>

theorem semaphore_is_counting:
  assumes srv: "redis_server exec view clock elapse"
    and "view s key = None" and "timely key capacity ops [] (clock s)"
  shows "sem_history exec elapse key capacity ops s = counting_semaphore capacity ops []"
proof -
  have "holds_exactly [] (view s key)"
    using assms(2) by (simp add: holds_exactly_def zset_entry_def)
  from redis_server.semaphore_refines [OF srv this assms(3)] show ?thesis by simp
qed

theorem semaphore_is_counting_witness:
  "sem_history mem_exec mem_elapse ''k'' 1
     [Take 100 ''a'', Take 101 ''b'', Wait 5000000, Give ''a'', Take 107 ''c''] (mem_at 0)
   = [True, False, True]"
  using semaphore_is_counting [OF mem.redis_server_axioms, of "mem_at 0" "''k''" 1
      "[Take 100 ''a'', Take 101 ''b'', Wait 5000000, Give ''a'', Take 107 ''c'']"]
  by (simp add: mem_at_def take_holder_def fmt6_def py_round_def round_half_even_def SLOT_TTL_SECONDS_def)

end
