(* ===== verification/Middleware.thy ===== *)
theory Middleware imports Http Rate_Limiter Semaphore begin

text \<open>
  \<open>billing/interfaces/api/incoming/middleware.py\<close>: the two admission gates around an
  arbitrary handler \<open>get_response\<close>. The lemmas show when a gate lets a request through,
  what a rejection says, that a failing limiter lets requests through, and that a slot is
  given back however the handler ends.
\<close>

definition API_PREFIX :: string where
  "API_PREFIX = ''/api/v1/''"

definition HEAVY_ENDPOINTS :: "string list" where
  "HEAVY_ENDPOINTS = [''/api/v1/billing/calculate'', ''/api/v1/invoices/generate'']"

definition should_guard :: "'b HttpRequest \<Rightarrow> bool" where
  "should_guard request = (take (length API_PREFIX) (req_path request) = API_PREFIX)"

fun math_ceil :: "pyfloat \<Rightarrow> exn + int" where
  "math_ceil (Fin x) = Inr \<lceil>x\<rceil>"
| "math_ceil Inf = Inl (OtherException ''OverflowError'')"

definition reject :: "RateLimitDecision \<Rightarrow> HttpResponse prog" where
  "reject decision =
     bnd (lift_exn (math_ceil (rl_retry_after_seconds decision))) (\<lambda>n.
     let retry_after = max 1 n in
     Return
       \<lparr>resp_status = 429,
        resp_content = JObj [(''error'', JStr ''rate_limited''), (''tenant'', JStr (rl_tenant_id decision)),
          (''retry_after_seconds'', JNum (of_int retry_after))],
        retry_after = Some retry_after\<rparr>)"

definition rate_limit_middleware :: "'b handler \<Rightarrow> 'b handler" where
  "rate_limit_middleware get_response request =
     (if \<not> should_guard request then get_response request
      else let tenant_id = header_tenant request in
        if tenant_id = '''' then get_response request
        else try_else (check_and_consume tenant_id (req_path request))
               (\<lambda>e. get_response request)
               (\<lambda>decision. if rl_allowed decision then get_response request else reject decision))"

definition concurrency_middleware :: "'b handler \<Rightarrow> 'b handler" where
  "concurrency_middleware get_response request =
     (if req_path request \<notin> set HEAVY_ENDPOINTS then get_response request
      else let tenant_id = header_tenant request in
        if tenant_id = '''' then get_response request
        else bnd (lift_exn (plan_for tenant_id)) (\<lambda>limits.
          let key = concurrency_key tenant_id in
          try_else (acquire key (max_concurrency limits))
            (\<lambda>e. get_response request)
            (\<lambda>handle.
              if \<not> admitted handle then
                Return
                  \<lparr>resp_status = 429,
                   resp_content = JObj [(''error'', JStr ''concurrency_limit''), (''tenant'', JStr tenant_id),
                     (''in_flight'', JNum (of_int (in_flight handle))),
                     (''max_concurrency'', JNum (of_int (max_concurrency limits)))],
                   retry_after = Some 1\<rparr>
              else finally_do (get_response request)
                     (catch (release key (slot_id handle)) (\<lambda>e. Return ())))))"

text \<open>The gate at work: a request it applies to, of a named tenant.\<close>

lemma rate_limit_guarded:
  assumes "should_guard r" and "header_tenant r \<noteq> []"
  shows "rate_limit_middleware h r =
    try_else (check_and_consume (header_tenant r) (req_path r)) (\<lambda>e. h r)
      (\<lambda>d. if rl_allowed d then h r else reject d)"
  using assms by (simp add: rate_limit_middleware_def)

lemma rate_limit_passes: "\<not> should_guard r \<or> header_tenant r = [] \<Longrightarrow> rate_limit_middleware h r = h r"
  by (auto simp: rate_limit_middleware_def)

lemma concurrency_passes:
  "req_path r \<notin> set HEAVY_ENDPOINTS \<or> header_tenant r = [] \<Longrightarrow> concurrency_middleware h r = h r"
  by (auto simp: concurrency_middleware_def)

text \<open>The answer to a rejected request.\<close>

definition rate_limited_response :: "string \<Rightarrow> int \<Rightarrow> HttpResponse" where
  "rate_limited_response t n =
     \<lparr>resp_status = 429,
      resp_content = JObj [(''error'', JStr ''rate_limited''), (''tenant'', JStr t),
        (''retry_after_seconds'', JNum (of_int n))],
      retry_after = Some n\<rparr>"

definition concurrency_limit_response :: "string \<Rightarrow> int \<Rightarrow> int \<Rightarrow> HttpResponse" where
  "concurrency_limit_response t n cap =
     \<lparr>resp_status = 429,
      resp_content = JObj [(''error'', JStr ''concurrency_limit''), (''tenant'', JStr t),
        (''in_flight'', JNum (of_int n)), (''max_concurrency'', JNum (of_int cap))],
      retry_after = Some 1\<rparr>"

lemma reject_decision:
  assumes "\<not> rl_allowed (rate_decision t e lvl)"
  shows "reject (rate_decision t e lvl) =
    Return (rate_limited_response t (max 1 \<lceil>(of_int (cost_of e) - lvl) / plan_rate t\<rceil>))"
proof -
  have "rl_tenant_id (rate_decision t e lvl) = t" by (simp add: rate_decision_def Let_def)
  then show ?thesis
    using rate_decision_retry [OF assms] by (simp add: reject_def rate_limited_response_def Let_def)
qed

lemma concurrency_guarded:
  assumes "req_path r \<in> set HEAVY_ENDPOINTS" and "header_tenant r \<noteq> []"
  shows "concurrency_middleware h r =
    try_else (acquire (concurrency_key (header_tenant r)) (concurrency_cap (header_tenant r))) (\<lambda>e. h r)
      (\<lambda>hd. if \<not> admitted hd
        then Return (concurrency_limit_response (header_tenant r) (in_flight hd) (concurrency_cap (header_tenant r)))
        else finally_do (h r) (catch (release (concurrency_key (header_tenant r)) (slot_id hd)) (\<lambda>e. Return ())))"
  unfolding concurrency_limit_response_def concurrency_cap_limits
  using assms by (simp add: concurrency_middleware_def Let_def plan_for_limits)

context redis_server
begin

lemma rate_limit_run:
  assumes "should_guard r" and "header_tenant r = t" and "t \<noteq> []"
    and ok: "tenant_bucket_ok t (clock s) (view s (bucket_key t))"
    and lvl: "lvl = tenant_level t (view s (bucket_key t)) (clock s)"
  obtains s' where "run exec (rate_limit_middleware h r) (Deliver # tape) s =
      (if of_int (cost_of (req_path r)) \<le> lvl then run exec (h r) tape s'
       else (Done (rate_limited_response t (max 1 \<lceil>(of_int (cost_of (req_path r)) - lvl) / plan_rate t\<rceil>)), tape, s'))"
    and "tenant_bucket_ok t (clock s') (view s' (bucket_key t))"
    and "tenant_level t (view s' (bucket_key t)) (clock s')
       = (if of_int (cost_of (req_path r)) \<le> lvl then lvl - of_int (cost_of (req_path r)) else lvl)"
    and "clock s' = clock s" and "view s' = (view s)(bucket_key t := view s' (bucket_key t))"
proof -
  obtain s' where run: "run exec (check_and_consume t (req_path r)) (Deliver # tape) s
      = (Done (rate_decision t (req_path r) lvl), tape, s')"
    and post: "tenant_bucket_ok t (clock s') (view s' (bucket_key t))"
      "tenant_level t (view s' (bucket_key t)) (clock s')
       = (if of_int (cost_of (req_path r)) \<le> lvl then lvl - of_int (cost_of (req_path r)) else lvl)"
      "clock s' = clock s" "view s' = (view s)(bucket_key t := view s' (bucket_key t))"
    by (rule check_and_consume_run [OF ok lvl])
  have "rate_limit_middleware h r = try_else (check_and_consume t (req_path r)) (\<lambda>e. h r)
      (\<lambda>d. if rl_allowed d then h r else reject d)"
    using rate_limit_guarded assms(1-3) by blast
  with run have "run exec (rate_limit_middleware h r) (Deliver # tape) s =
      (if of_int (cost_of (req_path r)) \<le> lvl then run exec (h r) tape s'
       else (Done (rate_limited_response t (max 1 \<lceil>(of_int (cost_of (req_path r)) - lvl) / plan_rate t\<rceil>)), tape, s'))"
    by (simp add: prog_simps rate_decision_allowed reject_decision)
  from that [OF this post] show ?thesis .
qed

lemma rate_limit_again:
  assumes guarded: "should_guard r" "header_tenant r = t" "t \<noteq> []"
    and ok: "tenant_bucket_ok t (clock s) (view s (bucket_key t))"
    and lvl: "tenant_level t (view s (bucket_key t)) (clock s) = lvl" and low: "\<not> of_int (cost_of (req_path r)) \<le> lvl"
  shows "\<exists>s'. run exec (rate_limit_middleware h r) (Deliver # tape)
      (elapse (nat (max 1 \<lceil>(of_int (cost_of (req_path r)) - lvl) / plan_rate t\<rceil>) * 1000000) s) = run exec (h r) tape s'"
proof -
  let ?c = "of_int (cost_of (req_path r)) :: rat"
  let ?n = "max 1 \<lceil>(?c - lvl) / plan_rate t\<rceil>"
  let ?d = "nat ?n * 1000000"
  let ?lvl = "tenant_level t (view (elapse ?d s) (bucket_key t)) (clock (elapse ?d s))"
  have "(?c - lvl) / plan_rate t \<le> of_int ?n"
    by (meson le_of_int_ceiling of_int_le_iff max.cobounded2 order_trans)
  then have "?c - lvl \<le> of_int ?n * plan_rate t" using plan_numbers(1) [of t] by (simp add: pos_divide_le_eq)
  moreover have "secs (int ?d) = of_int ?n" by (simp add: secs_def)
  ultimately have enough: "?c \<le> ?lvl"
    using tenant_bucket_elapse(2) [OF ok, of ?d] lvl low plan_numbers(3) [of "req_path r" t]
    by (simp add: mult.commute)
  obtain s' where "run exec (rate_limit_middleware h r) (Deliver # tape) (elapse ?d s) =
      (if ?c \<le> ?lvl then run exec (h r) tape s'
       else (Done (rate_limited_response t (max 1 \<lceil>(?c - ?lvl) / plan_rate t\<rceil>)), tape, s'))"
    by (rule rate_limit_run [OF guarded tenant_bucket_elapse(1) [OF ok] refl])
  with enough show ?thesis by auto
qed

end


text \<open>
  C13. The rate gate: a guarded request of tenant \<open>t\<close> reaches the handler exactly when the
  tenant's bucket covers the endpoint's cost, and the cost is drawn first. Otherwise the
  handler does not run, the tenant's other keys and everyone else's are untouched, and the
  answer is a 429 whose \<open>Retry-After\<close> is a whole number of seconds, at least one, after
  which (with no other traffic on the bucket) the same request reaches the handler.
\<close>

theorem rate_gate_decides:
  assumes srv: "redis_server exec view clock elapse"
    and guarded: "should_guard r" "header_tenant r = t" "t \<noteq> []"
    and ok: "tenant_bucket_ok t (clock s) (view s (bucket_key t))"
    and lvl: "lvl = tenant_level t (view s (bucket_key t)) (clock s)"
  shows "\<exists>s' b. view s' = (view s)(bucket_key t := b) \<and>
    (if of_int (cost_of (req_path r)) \<le> lvl
     then run exec (rate_limit_middleware h r) (Deliver # tape) s = run exec (h r) tape s'
     else \<exists>n \<ge> 1. run exec (rate_limit_middleware h r) (Deliver # tape) s
            = (Done (rate_limited_response t n), tape, s')
          \<and> (\<exists>s''. run exec (rate_limit_middleware h r) (Deliver # tape') (elapse (nat n * 1000000) s')
               = run exec (h r) tape' s''))"
proof -
  let ?c = "of_int (cost_of (req_path r)) :: rat"
  let ?n = "max 1 \<lceil>(?c - lvl) / plan_rate t\<rceil>"
  obtain s' where run: "run exec (rate_limit_middleware h r) (Deliver # tape) s =
      (if ?c \<le> lvl then run exec (h r) tape s' else (Done (rate_limited_response t ?n), tape, s'))"
    and ok': "tenant_bucket_ok t (clock s') (view s' (bucket_key t))"
    and lvl': "tenant_level t (view s' (bucket_key t)) (clock s') = (if ?c \<le> lvl then lvl - ?c else lvl)"
    and v: "view s' = (view s)(bucket_key t := view s' (bucket_key t))"
    by (rule redis_server.rate_limit_run [OF srv guarded ok lvl])
  have again: "\<exists>s''. run exec (rate_limit_middleware h r) (Deliver # tape') (elapse (nat ?n * 1000000) s')
      = run exec (h r) tape' s''" if "\<not> ?c \<le> lvl"
    using redis_server.rate_limit_again [OF srv guarded ok', of lvl] lvl' that by simp
  show ?thesis
  proof (intro exI conjI)
    show "view s' = (view s)(bucket_key t := view s' (bucket_key t))" by (rule v)
    show "if ?c \<le> lvl then run exec (rate_limit_middleware h r) (Deliver # tape) s = run exec (h r) tape s'
      else \<exists>n \<ge> 1. run exec (rate_limit_middleware h r) (Deliver # tape) s
            = (Done (rate_limited_response t n), tape, s')
          \<and> (\<exists>s''. run exec (rate_limit_middleware h r) (Deliver # tape') (elapse (nat n * 1000000) s')
               = run exec (h r) tape' s'')"
    proof (cases "?c \<le> lvl")
      case True
      with run show ?thesis by simp
    next
      case False
      with run again [OF False] show ?thesis by (simp only: if_False) (intro exI [of _ ?n] conjI, simp_all)
    qed
  qed
qed

text \<open>
  C25. Fail open: if the limiter or the semaphore itself fails (an error reply, a lost
  connection, a server that cannot be reached), the request goes through to the handler as
  if the gate were not there.
\<close>

theorem broken_gates_let_requests_through:
  assumes "should_guard r" and "header_tenant r \<noteq> []"
    and "run exec (check_and_consume (header_tenant r) (req_path r)) tape s = (Raised e, tape', s')"
    and "req_path r \<in> set HEAVY_ENDPOINTS"
    and "run exec (acquire (concurrency_key (header_tenant r)) (concurrency_cap (header_tenant r))) tape' s'
      = (Raised e', tape'', s'')"
  shows "run exec (rate_limit_middleware (concurrency_middleware h) r) tape s = run exec (h r) tape'' s''"
proof -
  have "run exec (concurrency_middleware h r) tape' s' = run exec (h r) tape'' s''"
    by (simp add: concurrency_guarded [OF assms(4,2)] run_try_else assms(5))
  then show ?thesis by (simp add: rate_limit_guarded [OF assms(1,2)] run_try_else assms(3))
qed


text \<open>A request of \<open>piedmont\<close>, and a handler for the witnesses.\<close>

definition sample_request :: "string \<Rightarrow> unit HttpRequest" where
  "sample_request path =
     \<lparr>req_method = ''POST'', req_path = path, tenant_header = Some '' piedmont '', req_body = ()\<rparr>"

definition ok_response :: HttpResponse where
  "ok_response = \<lparr>resp_status = 200, resp_content = JNull, retry_after = None\<rparr>"

lemma sample_request_facts:
  "should_guard (sample_request ''/api/v1/billing/calculate'')"
  "req_path (sample_request ''/api/v1/billing/calculate'') \<in> set HEAVY_ENDPOINTS"
  "header_tenant (sample_request p) = ''piedmont''"
  by (simp_all add: should_guard_def sample_request_def API_PREFIX_def HEAVY_ENDPOINTS_def header_tenant_def
      py_strip_def py_isspace_def Let_def)

theorem broken_gates_let_requests_through_witness:
  "run mem_exec (rate_limit_middleware (concurrency_middleware (\<lambda>_. Return ok_response))
      (sample_request ''/api/v1/billing/calculate'')) [Unsent, Reads 0, Draws ''a'', Unsent] (mem_at 0)
   = (Done ok_response, [], mem_at 0)"
proof -
  let ?r = "sample_request ''/api/v1/billing/calculate''"
  have 1: "run mem_exec (check_and_consume (header_tenant ?r) (req_path ?r)) [Unsent, Reads 0, Draws ''a'', Unsent] (mem_at 0)
      = (Raised (RedisError ''connection''), [Reads 0, Draws ''a'', Unsent], mem_at 0)"
    by (simp add: check_and_consume_def plan_for_limits consume_def prog_simps Let_def)
  have 2: "run mem_exec (acquire (concurrency_key (header_tenant ?r)) (concurrency_cap (header_tenant ?r)))
      [Reads 0, Draws ''a'', Unsent] (mem_at 0) = (Raised (RedisError ''connection''), [], mem_at 0)"
    by (simp add: acquire_def prog_simps)
  have "header_tenant ?r \<noteq> []" by (simp add: sample_request_facts)
  from broken_gates_let_requests_through [OF sample_request_facts(1) this 1 sample_request_facts(2) 2,
      of "\<lambda>_. Return ok_response"] show ?thesis by simp
qed

theorem rate_gate_decides_witness:
  "\<exists>s'. run mem_exec (rate_limit_middleware (\<lambda>_. Return ok_response)
      (sample_request ''/api/v1/billing/calculate'')) [Deliver] (mem_at 0) = (Done ok_response, [], s')"
proof -
  let ?r = "sample_request ''/api/v1/billing/calculate''"
  have cost: "of_int (cost_of (req_path ?r)) \<le> (50 :: rat)"
    by (simp add: cost_of_def ENDPOINT_COSTS_def sample_request_def)
  have ok: "tenant_bucket_ok ''piedmont'' (mem_clock (mem_at 0)) (mem_data (mem_at 0) (bucket_key ''piedmont''))"
    and lvl: "(50 :: rat) = tenant_level ''piedmont'' (mem_data (mem_at 0) (bucket_key ''piedmont'')) (mem_clock (mem_at 0))"
    by (simp_all add: tenant_bucket_ok_def tenant_level_def mem_at_def limits_of_def)
  have ne: "''piedmont'' \<noteq> []" by simp
  note rate_gate_decides [where r = ?r and t = "''piedmont''" and s = "mem_at 0" and lvl = 50
      and h = "\<lambda>_. Return ok_response" and tape = "[]", OF mem.redis_server_axioms sample_request_facts(1,3) ne ok lvl]
  then show ?thesis by (simp only: if_P [OF cost]) auto
qed

context redis_server
begin

text \<open>The store an acquisition leaves does not depend on what the handler goes through later.\<close>

lemma acquire_run_any:
  assumes z: "as_zset (view s k) = Some z" and live: "live = drop_scores (fmt6 (now - 60)) z"
  obtains s' where "\<And>tape. run exec (acquire k capacity) (Reads now # Draws slot # Deliver # tape) s
      = (Done \<lparr>admitted = (int (length live) < capacity), slot_id = slot,
               in_flight = int (length live) + (if int (length live) < capacity then 1 else 0)\<rparr>, tape, s')"
    and "view s' = (view s)(k := zset_entry (acquire_members capacity (fmt6 now) slot live) (Some (clock s + 60 * usec)))"
    and "clock s' = clock s"
proof -
  have "live = drop_scores (fmt6 (now - of_int SLOT_TTL_SECONDS)) z" by (simp add: live SLOT_TTL_SECONDS_def)
  then obtain s' where "run_lua exec (acquire_lua k capacity (fmt6 now)
        (fmt6 (now - of_int SLOT_TTL_SECONDS)) slot SLOT_TTL_SECONDS) s = (acquire_reply capacity live, s')"
    and "view s' = (view s)(k := zset_entry (acquire_members capacity (fmt6 now) slot live)
                       (Some (clock s + SLOT_TTL_SECONDS * usec)))"
    and "clock s' = clock s"
    by (rule run_acquire_lua [OF z slot_ttl_pos])
  then show ?thesis
    by (intro that [of s']) (simp_all add: acquire_def prog_simps acquire_reply_no_error reply_outcome_ok
        slot_handle_reply SLOT_TTL_SECONDS_def)
qed

lemma acquire_run:
  assumes "as_zset (view s k) = Some z" and "live = drop_scores (fmt6 (now - 60)) z"
  obtains s' where "run exec (acquire k capacity) (Reads now # Draws slot # Deliver # tape) s
      = (Done \<lparr>admitted = (int (length live) < capacity), slot_id = slot,
               in_flight = int (length live) + (if int (length live) < capacity then 1 else 0)\<rparr>, tape, s')"
    and "view s' = (view s)(k := zset_entry (acquire_members capacity (fmt6 now) slot live) (Some (clock s + 60 * usec)))"
    and "clock s' = clock s"
  by (rule acquire_run_any [OF assms], rule that) assumption+

lemma release_run:
  assumes z: "as_zset (view s k) = Some z" and x: "x \<in> {Deliver, Unsent, Lost}"
  obtains s' where "run exec (catch (release k slot) (\<lambda>e. Return ())) (x # tape) s = (Done (), tape, s')"
    and "as_zset (view s' k) = Some (if x = Unsent then z else AList.delete slot z)"
proof -
  obtain n s1 where e: "exec (ZREM k slot) s = (RInt n, s1)"
    and v: "view s1 = (view s)(k := zset_entry (AList.delete slot z) (deadline_of (view s k)))"
    by (rule run_release_cmd [OF z])
  show ?thesis
    by (rule that [of "if x = Unsent then s else s1"])
       (use x e v z in \<open>auto simp: release_def prog_simps\<close>)
qed

end

text \<open>
  C24. The concurrency gate at the cap: when the tenant already holds its cap of live slots,
  a heavy request is answered 429 with the count and the cap, the handler does not run, no
  slot is taken and no other key is touched.
\<close>

theorem concurrency_gate_rejects:
  assumes srv: "redis_server exec view clock elapse"
    and heavy: "req_path r \<in> set HEAVY_ENDPOINTS" and t: "header_tenant r = t" "t \<noteq> []"
    and z: "as_zset (view s (concurrency_key t)) = Some z"
    and live: "live = drop_scores (fmt6 (now - 60)) z" and full: "concurrency_cap t \<le> int (length live)"
  shows "\<exists>s'. run exec (concurrency_middleware h r) (Reads now # Draws slot # Deliver # tape) s
      = (Done (concurrency_limit_response t (int (length live)) (concurrency_cap t)), tape, s')
    \<and> view s' = (view s)(concurrency_key t := zset_entry live (Some (clock s + 60 * usec)))"
proof -
  obtain s' where "run exec (acquire (concurrency_key t) (concurrency_cap t)) (Reads now # Draws slot # Deliver # tape) s
      = (Done \<lparr>admitted = (int (length live) < concurrency_cap t), slot_id = slot,
               in_flight = int (length live) + (if int (length live) < concurrency_cap t then 1 else 0)\<rparr>, tape, s')"
    and "view s' = (view s)(concurrency_key t := zset_entry (acquire_members (concurrency_cap t) (fmt6 now) slot live)
           (Some (clock s + 60 * usec)))"
    by (rule redis_server.acquire_run [OF srv z live])
  moreover have "header_tenant r \<noteq> []" using t by simp
  note concurrency_guarded [OF heavy this, of h]
  ultimately show ?thesis
    using full t(1) by (intro exI [of _ s']) (simp add: run_try_else acquire_members_def)
qed

theorem concurrency_gate_rejects_witness:
  "\<exists>s'. run mem_exec (concurrency_middleware (\<lambda>_. Return ok_response) (sample_request ''/api/v1/billing/calculate''))
      [Reads 100, Draws ''d'', Deliver]
      (put (concurrency_key ''piedmont'') (Some (RZSet [(''a'', 99), (''b'', 99), (''c'', 99)], None)) (mem_at 0))
    = (Done (concurrency_limit_response ''piedmont'' 3 3), [], s')"
proof -
  let ?s = "put (concurrency_key ''piedmont'') (Some (RZSet [(''a'', 99), (''b'', 99), (''c'', 99)], None)) (mem_at 0)"
  have cap: "concurrency_cap ''piedmont'' = 3" by (simp add: concurrency_cap_limits limits_of_def)
  have "\<exists>s'. run mem_exec (concurrency_middleware (\<lambda>_. Return ok_response) (sample_request ''/api/v1/billing/calculate''))
      [Reads 100, Draws ''d'', Deliver] ?s
    = (Done (concurrency_limit_response ''piedmont'' (int (length [(''a'', 99::rat), (''b'', 99), (''c'', 99)])) (concurrency_cap ''piedmont'')), [], s')
    \<and> mem_data s' = (mem_data ?s)(concurrency_key ''piedmont'' :=
        zset_entry [(''a'', 99), (''b'', 99), (''c'', 99)] (Some (mem_clock ?s + 60 * usec)))"
    by (rule concurrency_gate_rejects [OF mem.redis_server_axioms sample_request_facts(2,3), where z = "[(''a'', 99), (''b'', 99), (''c'', 99)]"])
       (simp_all add: cap drop_scores_def fmt6_def py_round_def round_half_even_def)
  then show ?thesis by (auto simp: cap)
qed

text \<open>
  C15. An admitted heavy request gives its slot back. From the store in which its slot has
  just been recorded, whatever the handler then does and however it ends, by returning or by
  raising, its outcome is passed on unchanged, and afterwards its slot is gone while the
  others are as the handler left them: exactly the other live slots, if it left the semaphore
  alone. Only if the release cannot be sent does the slot stay, to be evicted later; the
  outcome is passed on even then.
\<close>

theorem concurrency_gate_gives_slot_back:
  assumes srv: "redis_server exec view clock elapse"
    and heavy: "req_path r \<in> set HEAVY_ENDPOINTS" and t: "header_tenant r = t" "t \<noteq> []"
    and z: "as_zset (view s (concurrency_key t)) = Some z"
    and live: "live = drop_scores (fmt6 (now - 60)) z" and room: "int (length live) < concurrency_cap t"
    and fresh: "slot \<notin> fst ` set live"
  shows "\<exists>s1. view s1 = (view s)(concurrency_key t :=
        zset_entry (AList.update slot (fmt6 now) live) (Some (clock s + 60 * usec))) \<and> clock s1 = clock s
    \<and> (\<forall>tape x out s2 z2. run exec (h r) (tape @ [x]) s1 = (out, [x], s2) \<and> out \<noteq> Crashed
         \<and> x \<in> {Deliver, Unsent, Lost} \<and> as_zset (view s2 (concurrency_key t)) = Some z2 \<longrightarrow>
       (\<exists>s'. run exec (concurrency_middleware h r) (Reads now # Draws slot # Deliver # tape @ [x]) s = (out, [], s')
         \<and> as_zset (view s' (concurrency_key t)) = Some (if x = Unsent then z2 else AList.delete slot z2)))
    \<and> AList.delete slot (AList.update slot (fmt6 now) live) = live"
proof -
  let ?k = "concurrency_key t"
  obtain s1 where acq: "\<And>tape. run exec (acquire ?k (concurrency_cap t)) (Reads now # Draws slot # Deliver # tape) s
      = (Done \<lparr>admitted = (int (length live) < concurrency_cap t), slot_id = slot,
               in_flight = int (length live) + (if int (length live) < concurrency_cap t then 1 else 0)\<rparr>, tape, s1)"
    and v1: "view s1 = (view s)(?k := zset_entry (acquire_members (concurrency_cap t) (fmt6 now) slot live)
           (Some (clock s + 60 * usec)))" and c1: "clock s1 = clock s"
    by (rule redis_server.acquire_run_any [OF srv z live, where capacity = "concurrency_cap t" and slot = slot]) blast
  have "\<exists>s'. run exec (concurrency_middleware h r) (Reads now # Draws slot # Deliver # tape @ [x]) s = (out, [], s')
      \<and> as_zset (view s' ?k) = Some (if x = Unsent then z2 else AList.delete slot z2)"
    if run2: "run exec (h r) (tape @ [x]) s1 = (out, [x], s2)" and out: "out \<noteq> Crashed"
      and x: "x \<in> {Deliver, Unsent, Lost}" and z2: "as_zset (view s2 ?k) = Some z2" for tape x out s2 z2
  proof -
    obtain s3 where rel: "run exec (catch (release ?k slot) (\<lambda>e. Return ())) [x] s2 = (Done (), [], s3)"
      and z3: "as_zset (view s3 ?k) = Some (if x = Unsent then z2 else AList.delete slot z2)"
      by (rule redis_server.release_run [OF srv z2 x])
    have "header_tenant r \<noteq> []" using t by simp
    from concurrency_guarded [OF heavy this, of h]
    have "run exec (concurrency_middleware h r) (Reads now # Draws slot # Deliver # tape @ [x]) s
        = run exec (finally_do (h r) (catch (release ?k slot) (\<lambda>e. Return ()))) (tape @ [x]) s1"
      using acq room t(1) by (simp add: run_try_else)
    also have "\<dots> = (out, [], s3)"
      using run2 out rel by (cases out) (simp_all add: run_finally run_bnd)
    finally show ?thesis using z3 by blast
  qed
  moreover have "view s1 = (view s)(?k := zset_entry (AList.update slot (fmt6 now) live) (Some (clock s + 60 * usec)))"
    using room by (simp add: v1 acquire_members_def)
  moreover have "AList.delete slot (AList.update slot (fmt6 now) live) = live"
    using fresh by (rule delete_update_alist_fresh)
  ultimately show ?thesis using c1 by (intro exI [of _ s1]) simp
qed

end
