(* ===== verification/Serializers.thy ===== *)
theory Serializers imports Programs begin

text \<open>
  \<open>billing/interfaces/api/incoming/serializers.py\<close>: the three serializers as the lists of
  fields they declare, the check \<open>BillingCalculateSerializer\<close> adds, and the dictionary form
  of a validated event. How Django REST framework reads a body against a list of declared
  fields is not part of the source: it is the argument \<open>parse\<close> of \<open>is_valid\<close>, and
  \<open>fields_ok\<close> is what its documentation promises of the result. The lemmas show that this
  is all the views need: data that conform can be read without an error.
\<close>

subsection \<open>Fields and validated data\<close>

text \<open>
  The fields the source declares, with the constraints it gives them: \<open>max_length\<close> of a
  \<open>CharField\<close> and \<open>min_value\<close> of a \<open>FloatField\<close>. A field with a default (third component)
  is not required.
\<close>

datatype field =
    CharField "nat option"
  | DateTimeField
  | FloatField "rat option"
  | DictField

datatype pyvalue =
    PyStr string | PyFloat rat | PyDatetime int | PyDict "(string \<times> json) list"

type_synonym fields = "(string \<times> field \<times> pyvalue option) list"
type_synonym validated = "(string \<times> pyvalue) list"

record serializer =
  declared_fields :: fields
  validate :: "validated \<Rightarrow> exn + validated"

definition try_bind :: "exn + 'a \<Rightarrow> ('a \<Rightarrow> exn + 'b) \<Rightarrow> exn + 'b" where
  "try_bind r f = (case r of Inl e \<Rightarrow> Inl e | Inr x \<Rightarrow> f x)"

lemma try_bind_simps [simp]: "try_bind (Inl e) f = Inl e" "try_bind (Inr x) f = f x"
  by (simp_all add: try_bind_def)

lemma try_bind_Inr: "try_bind r f = Inr y \<longleftrightarrow> (\<exists>x. r = Inr x \<and> f x = Inr y)"
  by (cases r) simp_all

text \<open>\<open>data[k]\<close>, read at the type the receiving class or function annotates.\<close>

definition dict_item :: "(string \<times> 'v) list \<Rightarrow> string \<Rightarrow> ('v \<Rightarrow> exn + 'a) \<Rightarrow> exn + 'a" where
  "dict_item d k conv = (case map_of d k of None \<Rightarrow> Inl (KeyError k) | Some v \<Rightarrow> conv v)"

lemma dict_item_missing: "map_of d k = None \<Longrightarrow> dict_item d k conv = Inl (KeyError k)"
  by (simp add: dict_item_def)

lemma dict_item_present: "map_of d k = Some v \<Longrightarrow> dict_item d k conv = conv v"
  by (simp add: dict_item_def)

fun py_str :: "pyvalue \<Rightarrow> exn + string" where
  "py_str (PyStr s) = Inr s"
| "py_str _ = Inl (OtherException ''TypeError'')"

fun py_datetime :: "pyvalue \<Rightarrow> exn + int" where
  "py_datetime (PyDatetime t) = Inr t"
| "py_datetime _ = Inl (OtherException ''TypeError'')"

text \<open>\<open>float(v)\<close> of a value that is no number in text.\<close>

fun field_float :: "pyvalue \<Rightarrow> exn + rat" where
  "field_float (PyFloat x) = Inr x"
| "field_float (PyStr _) = Inl ValueError"
| "field_float _ = Inl (OtherException ''TypeError'')"

fun py_dict :: "pyvalue \<Rightarrow> exn + (string \<times> json) list" where
  "py_dict (PyDict d) = Inr d"
| "py_dict _ = Inl (OtherException ''TypeError'')"

subsection \<open>The declarations\<close>

definition UsageEventSerializer :: serializer where
  "UsageEventSerializer =
     \<lparr>declared_fields =
        [(''event_name'', CharField (Some 128), None),
         (''customer_id'', CharField None, None),
         (''timestamp'', DateTimeField, None),
         (''idempotency_key'', CharField None, None),
         (''value'', FloatField (Some 0), Some (PyFloat 1)),
         (''properties'', DictField, Some (PyDict []))],
      validate = Inr\<rparr>"

definition validate_period :: "validated \<Rightarrow> exn + validated" where
  "validate_period attrs =
     try_bind (dict_item attrs ''period_end'' py_datetime) (\<lambda>period_end.
     try_bind (dict_item attrs ''period_start'' py_datetime) (\<lambda>period_start.
       if period_end \<le> period_start
       then Inl (ValidationError (JObj [(''period_end'', JStr ''period_end must be after period_start.'')]))
       else Inr attrs))"

definition BillingCalculateSerializer :: serializer where
  "BillingCalculateSerializer =
     \<lparr>declared_fields =
        [(''customer_id'', CharField None, None),
         (''period_start'', DateTimeField, None),
         (''period_end'', DateTimeField, None)],
      validate = validate_period\<rparr>"

definition InvoiceGenerateSerializer :: serializer where
  "InvoiceGenerateSerializer =
     \<lparr>declared_fields = [(''invoice_id'', CharField (Some 64), None)], validate = Inr\<rparr>"

text \<open>\<open>is_valid(raise_exception=True)\<close>: the fields, then the serializer's own \<open>validate\<close>.\<close>

definition is_valid :: "(fields \<Rightarrow> 'b \<Rightarrow> exn + validated) \<Rightarrow> serializer \<Rightarrow> 'b \<Rightarrow> exn + validated" where
  "is_valid parse ser body = try_bind (parse (declared_fields ser) body) (validate ser)"

subsection \<open>What validated data look like\<close>

text \<open>
  The framework's documentation of the field types: a \<open>CharField\<close> gives non-empty text no
  longer than \<open>max_length\<close>, a \<open>FloatField\<close> a number no smaller than \<open>min_value\<close>, a
  \<open>DateTimeField\<close> a \<open>datetime\<close>, a \<open>DictField\<close> a dictionary; every declared field is there,
  absent ones with their default.
\<close>

fun conforms :: "field \<Rightarrow> pyvalue \<Rightarrow> bool" where
  "conforms (CharField m) (PyStr s) = (s \<noteq> [] \<and> (case m of None \<Rightarrow> True | Some n \<Rightarrow> length s \<le> n))"
| "conforms DateTimeField (PyDatetime t) = True"
| "conforms (FloatField m) (PyFloat x) = (case m of None \<Rightarrow> True | Some l \<Rightarrow> l \<le> x)"
| "conforms DictField (PyDict d) = True"
| "conforms _ _ = False"

definition fields_ok :: "fields \<Rightarrow> validated \<Rightarrow> bool" where
  "fields_ok fs data =
     list_all (\<lambda>(f, ty, d). case map_of data f of None \<Rightarrow> False | Some v \<Rightarrow> conforms ty v) fs"

lemma conforms_CharField:
  "conforms (CharField m) v \<longleftrightarrow> (\<exists>s. v = PyStr s \<and> s \<noteq> [] \<and> (\<forall>n. m = Some n \<longrightarrow> length s \<le> n))"
  by (cases v) (auto split: option.splits)

lemma conforms_others:
  "conforms DateTimeField v \<longleftrightarrow> (\<exists>t. v = PyDatetime t)"
  "conforms (FloatField m) v \<longleftrightarrow> (\<exists>x. v = PyFloat x \<and> (\<forall>l. m = Some l \<longrightarrow> l \<le> x))"
  "conforms DictField v \<longleftrightarrow> (\<exists>d. v = PyDict d)"
  by (cases v; auto split: option.splits)+

lemma fields_ok_simps [simp]:
  "fields_ok [] data"
  "fields_ok ((f, ty, d) # fs) data \<longleftrightarrow> (\<exists>v. map_of data f = Some v \<and> conforms ty v) \<and> fields_ok fs data"
  by (auto simp: fields_ok_def split: option.splits)

text \<open>A billing period that passed the serializer is ordered.\<close>

lemma period_data:
  assumes "fields_ok (declared_fields BillingCalculateSerializer) data"
  obtains c a b where "map_of data ''customer_id'' = Some (PyStr c)"
    and "map_of data ''period_start'' = Some (PyDatetime a)" and "map_of data ''period_end'' = Some (PyDatetime b)"
    and "validate_period data = (if a < b then Inr data
      else Inl (ValidationError (JObj [(''period_end'', JStr ''period_end must be after period_start.'')])))"
proof -
  obtain c a b where d: "map_of data ''customer_id'' = Some (PyStr c)"
    "map_of data ''period_start'' = Some (PyDatetime a)" "map_of data ''period_end'' = Some (PyDatetime b)"
    using assms by (auto simp: BillingCalculateSerializer_def conforms_CharField conforms_others)
  show ?thesis by (rule that [OF d]) (simp add: validate_period_def dict_item_present [OF d(2)] dict_item_present [OF d(3)])
qed

text \<open>A reading of bodies that keeps the promise, for witnesses: bodies are dictionaries.\<close>

definition filled :: "fields \<Rightarrow> validated \<Rightarrow> validated" where
  "filled fs body = concat (map (\<lambda>(f, ty, d).
     case map_of body f of Some v \<Rightarrow> [(f, v)] | None \<Rightarrow> (case d of Some v \<Rightarrow> [(f, v)] | None \<Rightarrow> [])) fs)"

definition sample_parse :: "fields \<Rightarrow> validated \<Rightarrow> exn + validated" where
  "sample_parse fs body =
     (if fields_ok fs (filled fs body) then Inr (filled fs body) else Inl (ValidationError JNull))"

lemma sample_parse_ok: "sample_parse fs body = Inr data \<Longrightarrow> fields_ok fs data"
  by (auto simp: sample_parse_def split: if_splits)

subsection \<open>The dictionary form of an event\<close>

record UsageEventValidated =
  ue_event_name :: string
  ue_customer_id :: string
  ue_timestamp :: int
  ue_idempotency_key :: string
  ue_value :: rat
  ue_properties :: "(string \<times> json) list"

text \<open>
  \<open>to_dict\<close> and \<open>from_dict\<close>: the dictionary holds the timestamp as ISO text, the value as
  a number and the properties as an object. \<open>fromisoformat\<close> reads what \<open>isoformat\<close> writes.
\<close>

definition to_dict :: "UsageEventValidated \<Rightarrow> (string \<times> json) list" where
  "to_dict e =
    [(''event_name'', JStr (ue_event_name e)),
     (''customer_id'', JStr (ue_customer_id e)),
     (''timestamp'', JText (Iso (ue_timestamp e))),
     (''idempotency_key'', JStr (ue_idempotency_key e)),
     (''value'', JNum (ue_value e)),
     (''properties'', JObj (ue_properties e))]"

fun str_of :: "json \<Rightarrow> exn + string" where
  "str_of (JStr s) = Inr s"
| "str_of _ = Inl (OtherException ''TypeError'')"

fun num_of :: "json \<Rightarrow> exn + rat" where
  "num_of (JNum x) = Inr x"
| "num_of _ = Inl (OtherException ''TypeError'')"

fun obj_of :: "json \<Rightarrow> exn + (string \<times> json) list" where
  "obj_of (JObj x) = Inr x"
| "obj_of _ = Inl (OtherException ''TypeError'')"

fun fromisoformat :: "json \<Rightarrow> exn + int" where
  "fromisoformat (JText (Iso t)) = Inr t"
| "fromisoformat (JStr s) = Inl ValueError"
| "fromisoformat _ = Inl (OtherException ''TypeError'')"

definition from_dict :: "(string \<times> json) list \<Rightarrow> exn + UsageEventValidated" where
  "from_dict data =
     try_bind (dict_item data ''event_name'' str_of) (\<lambda>event_name.
     try_bind (dict_item data ''customer_id'' str_of) (\<lambda>customer_id.
     try_bind (dict_item data ''timestamp'' fromisoformat) (\<lambda>timestamp.
     try_bind (dict_item data ''idempotency_key'' str_of) (\<lambda>idempotency_key.
     try_bind (dict_item data ''value'' num_of) (\<lambda>value.
     try_bind (dict_item data ''properties'' obj_of) (\<lambda>properties.
     Inr \<lparr>ue_event_name = event_name, ue_customer_id = customer_id, ue_timestamp = timestamp,
          ue_idempotency_key = idempotency_key, ue_value = value, ue_properties = properties\<rparr>))))))"

lemma from_dict_missing:
  assumes "map_of d f = None"
    and "f \<in> {''event_name'', ''customer_id'', ''timestamp'', ''idempotency_key'', ''value'', ''properties''}"
  shows "\<exists>x. from_dict d = Inl x"
  using assms(2,1) unfolding from_dict_def
  by (elim insertE emptyE) (auto simp: try_bind_def dict_item_missing split: sum.splits)

text \<open>
  The dictionary form loses nothing: \<open>from_dict\<close> of \<open>to_dict\<close> is the event, also when
  the dictionary has further entries after it, and a dictionary that lacks one of the
  event's fields is refused.
\<close>

theorem event_dict_roundtrip:
  "from_dict (to_dict e @ extra) = Inr e \<and>
   (f \<in> fst ` set (to_dict e) \<and> map_of d f = None \<longrightarrow> (\<exists>x. from_dict d = Inl x))"
proof
  show "from_dict (to_dict e @ extra) = Inr e"
    by (simp add: from_dict_def to_dict_def dict_item_def)
  show "f \<in> fst ` set (to_dict e) \<and> map_of d f = None \<longrightarrow> (\<exists>x. from_dict d = Inl x)"
    using from_dict_missing [of d f] by (simp add: to_dict_def)
qed

theorem event_dict_roundtrip_witness:
  "\<exists>x. from_dict [(''event_name'', JStr ''n'')] = Inl x"
  using event_dict_roundtrip [of "\<lparr>ue_event_name = ''n'', ue_customer_id = ''c'', ue_timestamp = 0,
      ue_idempotency_key = ''i'', ue_value = 1, ue_properties = []\<rparr>" "[]" "''value''" "[(''event_name'', JStr ''n'')]"]
  by (simp add: to_dict_def)

end
