(* ===== verification/Event_Store.thy ===== *)
theory Event_Store imports Redis_Reference Key_Schema begin

text \<open>
  \<open>billing/application/ingest_event.py\<close> and \<open>billing/infrastructure/event_repository.py\<close>:
  the command, the claim of the idempotency marker, the append to the tenant's stream, and
  their order. The lemmas give the behaviour of every branch, and what a fault between the
  two steps does.

  A command's \<open>timestamp\<close> is the instant in microseconds; its \<open>value\<close> is finite.
\<close>

definition IDEMPOTENCY_TTL_SECONDS :: int where
  "IDEMPOTENCY_TTL_SECONDS = 60 * 60 * 24 * 7"

lemma idempotency_ttl: "IDEMPOTENCY_TTL_SECONDS = 604800"
  by (simp add: IDEMPOTENCY_TTL_SECONDS_def)

record IngestEventCommand =
  ev_tenant_id :: string
  ev_event_name :: string
  ev_customer_id :: string
  ev_timestamp :: int
  ev_idempotency_key :: string
  ev_value :: rat
  ev_properties :: "(string \<times> json) list"

record IngestEventResult =
  event_id :: string
  duplicate :: bool

record RecordedEvent =
  stream_entry_id :: string
  rec_duplicate :: bool

definition serialize_event :: "IngestEventCommand \<Rightarrow> (string \<times> bulk) list" where
  "serialize_event c =
    [(''event_name'', Text (ev_event_name c)),
     (''customer_id'', Text (ev_customer_id c)),
     (''timestamp'', Iso (ev_timestamp c)),
     (''idempotency_key'', Text (ev_idempotency_key c)),
     (''value'', Number (ev_value c)),
     (''properties'', Json (JObj (ev_properties c)))]"

text \<open>\<open>bool(reply)\<close> in Python: \<open>None\<close>, zero and the empty string are false.\<close>

fun reply_truthy :: "reply \<Rightarrow> bool" where
  "reply_truthy RNil = False"
| "reply_truthy (RInt n) = (n \<noteq> 0)"
| "reply_truthy (RBulk (Text s)) = (s \<noteq> [])"
| "reply_truthy _ = True"

fun reply_text :: "reply \<Rightarrow> string" where
  "reply_text (RBulk (Text s)) = s"
| "reply_text _ = []"

definition claim_idempotency :: "string \<Rightarrow> string \<Rightarrow> bool prog" where
  "claim_idempotency tenant_id idem =
     bnd (redis_py (Cmd (SET_NX_EX (idempotency_key tenant_id idem) (Text ''1'') IDEMPOTENCY_TTL_SECONDS)))
       (\<lambda>was_first. Return (reply_truthy was_first))"

definition record_event :: "IngestEventCommand \<Rightarrow> RecordedEvent prog" where
  "record_event c =
     bnd (claim_idempotency (ev_tenant_id c) (ev_idempotency_key c)) (\<lambda>first.
       if \<not> first then Return \<lparr>stream_entry_id = '''', rec_duplicate = True\<rparr>
       else let fields = serialize_event c in
         bnd (redis_py (Cmd (XADD (stream_key (ev_tenant_id c)) fields)))
           (\<lambda>entry_id. Return \<lparr>stream_entry_id = reply_text entry_id, rec_duplicate = False\<rparr>))"

definition ingest_event :: "IngestEventCommand \<Rightarrow> IngestEventResult prog" where
  "ingest_event c =
     bnd (record_event c) (\<lambda>recorded.
       Return \<lparr>event_id = ev_idempotency_key c, duplicate = rec_duplicate recorded\<rparr>)"

abbreviation marker_key :: "IngestEventCommand \<Rightarrow> string" where
  "marker_key c \<equiv> idempotency_key (ev_tenant_id c) (ev_idempotency_key c)"

abbreviation events_key :: "IngestEventCommand \<Rightarrow> string" where
  "events_key c \<equiv> stream_key (ev_tenant_id c)"

lemma serialize_nonempty [simp]: "serialize_event c \<noteq> []"
  by (simp add: serialize_event_def)

lemma idempotency_ttl_pos: "0 < IDEMPOTENCY_TTL_SECONDS"
  by (simp add: IDEMPOTENCY_TTL_SECONDS_def)

context redis_server
begin

lemma claim_fresh:
  assumes "view s (marker_key c) = None"
  obtains s' where "exec (SET_NX_EX (marker_key c) (Text ''1'') IDEMPOTENCY_TTL_SECONDS) s
      = (RBulk (Text ''OK''), s')"
    and "view s' = (view s)(marker_key c :=
           Some (RString (Text ''1''), Some (clock s + IDEMPOTENCY_TTL_SECONDS * usec)))"
    and "clock s' = clock s"
  by (rule set_nx_view [OF assms idempotency_ttl_pos])

lemma ingest_taken:
  assumes "view s (marker_key c) \<noteq> None"
  shows "run exec (ingest_event c) (Deliver # tape) s
    = (Done \<lparr>event_id = ev_idempotency_key c, duplicate = True\<rparr>, tape, s)"
  using set_nx_taken [OF assms idempotency_ttl_pos]
  by (simp add: ingest_event_def record_event_def claim_idempotency_def prog_simps)

lemma ingest_fresh:
  assumes "view s (marker_key c) = None" and es: "as_stream (view s (events_key c)) = Some es"
  obtains i s' where "run exec (ingest_event c) (Deliver # Deliver # tape) s
      = (Done \<lparr>event_id = ev_idempotency_key c, duplicate = False\<rparr>, tape, s')"
    and "view s' = (view s)(
           marker_key c := Some (RString (Text ''1''), Some (clock s + IDEMPOTENCY_TTL_SECONDS * usec)),
           events_key c := Some (RStream (es @ [(i, serialize_event c)]), deadline_of (view s (events_key c))))"
    and "clock s' = clock s"
proof -
  obtain s1 where 1: "exec (SET_NX_EX (marker_key c) (Text ''1'') IDEMPOTENCY_TTL_SECONDS) s
      = (RBulk (Text ''OK''), s1)"
    and v1: "view s1 = (view s)(marker_key c :=
           Some (RString (Text ''1''), Some (clock s + IDEMPOTENCY_TTL_SECONDS * usec)))"
    and c1: "clock s1 = clock s"
    by (rule claim_fresh [OF assms(1)])
  have es1: "as_stream (view s1 (events_key c)) = Some es" by (simp add: v1 es)
  obtain i s2 where 2: "exec (XADD (events_key c) (serialize_event c)) s1 = (RBulk (Text i), s2)"
    and v2: "view s2 = (view s1)(events_key c :=
        Some (RStream (es @ [(i, serialize_event c)]), deadline_of (view s1 (events_key c))))"
    and c2: "clock s2 = clock s1"
    by (rule xadd_view [OF es1 serialize_nonempty])
  show ?thesis
    by (rule that [of s2 i])
       (use 1 2 in \<open>simp_all add: ingest_event_def record_event_def claim_idempotency_def prog_simps
          v1 v2 c1 c2\<close>)
qed

lemma ingest_claimed_then_failed:
  assumes "view s (marker_key c) = None" and "t \<in> {[Deliver], [Deliver, Unsent], [Lost]}"
  obtains out s' where "run exec (ingest_event c) t s = (out, [], s')" and "\<And>x. out \<noteq> Done x"
    and "view s' = (view s)(marker_key c :=
           Some (RString (Text ''1''), Some (clock s + IDEMPOTENCY_TTL_SECONDS * usec)))"
    and "clock s' = clock s"
proof -
  obtain s1 where 1: "exec (SET_NX_EX (marker_key c) (Text ''1'') IDEMPOTENCY_TTL_SECONDS) s
      = (RBulk (Text ''OK''), s1)"
    and v1: "view s1 = (view s)(marker_key c :=
           Some (RString (Text ''1''), Some (clock s + IDEMPOTENCY_TTL_SECONDS * usec)))"
    and c1: "clock s1 = clock s"
    by (rule claim_fresh [OF assms(1)])
  have "\<exists>out. run exec (ingest_event c) t s = (out, [], s1) \<and> (\<forall>x. out \<noteq> Done x)"
    using assms(2) 1
    by (auto simp: ingest_event_def record_event_def claim_idempotency_def prog_simps)
  with v1 c1 show ?thesis using that by blast
qed

end

text \<open>
  C21. A new event is recorded: with its marker free, the ingest appends exactly one entry
  with the event's fields to the tenant's stream, sets the marker for seven days, touches
  nothing else, and answers with the client's own key and \<open>duplicate = False\<close>.
\<close>

theorem ingest_records_new_event:
  assumes srv: "redis_server exec view clock elapse"
    and free: "view s (marker_key c) = None" and es: "as_stream (view s (events_key c)) = Some es"
  shows "\<exists>i s'. run exec (ingest_event c) [Deliver, Deliver] s
      = (Done \<lparr>event_id = ev_idempotency_key c, duplicate = False\<rparr>, [], s')
    \<and> view s' = (view s)(
        marker_key c := Some (RString (Text ''1''), Some (clock s + 604800 * usec)),
        events_key c := Some (RStream (es @ [(i, serialize_event c)]), deadline_of (view s (events_key c))))"
proof -
  obtain i s' where "run exec (ingest_event c) [Deliver, Deliver] s
      = (Done \<lparr>event_id = ev_idempotency_key c, duplicate = False\<rparr>, [], s')"
    and "view s' = (view s)(
           marker_key c := Some (RString (Text ''1''), Some (clock s + IDEMPOTENCY_TTL_SECONDS * usec)),
           events_key c := Some (RStream (es @ [(i, serialize_event c)]), deadline_of (view s (events_key c))))"
    by (rule redis_server.ingest_fresh [OF srv free es])
  then show ?thesis by (auto simp: idempotency_ttl)
qed

definition sample_event :: IngestEventCommand where
  "sample_event = \<lparr>ev_tenant_id = ''globex'', ev_event_name = ''api_call'', ev_customer_id = ''cust-1'',
     ev_timestamp = 1775044800000000, ev_idempotency_key = ''smoke-1'', ev_value = 1, ev_properties = []\<rparr>"

theorem ingest_records_new_event_witness:
  "\<exists>i s'. run mem_exec (ingest_event sample_event) [Deliver, Deliver] (mem_at 0)
      = (Done \<lparr>event_id = ''smoke-1'', duplicate = False\<rparr>, [], s')
    \<and> mem_data s' (stream_key ''globex'') = Some (RStream [(i, serialize_event sample_event)], None)"
  using ingest_records_new_event [OF mem.redis_server_axioms, of "mem_at 0" sample_event "[]"]
  by (auto simp: mem_at_def sample_event_def)

text \<open>
  C22. A retry is absorbed: right after a recorded event, a second ingest by the same
  tenant with the same idempotency key, whatever else it carries, answers
  \<open>duplicate = True\<close> and leaves the stream with the one entry.
\<close>

theorem retry_is_absorbed:
  assumes srv: "redis_server exec view clock elapse"
    and free: "view s (marker_key c) = None" and es: "as_stream (view s (events_key c)) = Some es"
    and same: "ev_tenant_id c' = ev_tenant_id c" "ev_idempotency_key c' = ev_idempotency_key c"
  shows "\<exists>i s'. run exec (bnd (ingest_event c) (\<lambda>r. bnd (ingest_event c') (\<lambda>r'. Return (r, r'))))
        [Deliver, Deliver, Deliver] s
      = (Done (\<lparr>event_id = ev_idempotency_key c, duplicate = False\<rparr>,
               \<lparr>event_id = ev_idempotency_key c, duplicate = True\<rparr>), [], s')
    \<and> as_stream (view s' (events_key c)) = Some (es @ [(i, serialize_event c)])"
proof -
  obtain i s' where 1: "run exec (ingest_event c) [Deliver, Deliver, Deliver] s
      = (Done \<lparr>event_id = ev_idempotency_key c, duplicate = False\<rparr>, [Deliver], s')"
    and v: "view s' = (view s)(
           marker_key c := Some (RString (Text ''1''), Some (clock s + IDEMPOTENCY_TTL_SECONDS * usec)),
           events_key c := Some (RStream (es @ [(i, serialize_event c)]), deadline_of (view s (events_key c))))"
    by (rule redis_server.ingest_fresh [OF srv free es])
  have "view s' (marker_key c') \<noteq> None" by (simp add: v same)
  from redis_server.ingest_taken [OF srv this, of "[]"] 1 v show ?thesis
    by (auto simp: prog_simps same)
qed

theorem retry_is_absorbed_witness:
  "\<exists>i s'. run mem_exec (bnd (ingest_event sample_event)
         (\<lambda>r. bnd (ingest_event (sample_event\<lparr>ev_value := 7\<rparr>)) (\<lambda>r'. Return (r, r'))))
        [Deliver, Deliver, Deliver] (mem_at 0)
      = (Done (\<lparr>event_id = ''smoke-1'', duplicate = False\<rparr>, \<lparr>event_id = ''smoke-1'', duplicate = True\<rparr>), [], s')
    \<and> as_stream (mem_data s' (stream_key ''globex'')) = Some [(i, serialize_event sample_event)]"
  using retry_is_absorbed [OF mem.redis_server_axioms, of "mem_at 0" sample_event "[]" "sample_event\<lparr>ev_value := 7\<rparr>"]
  by (auto simp: mem_at_def sample_event_def)

text \<open>
  C27. The claim is not undone when the append fails: if the process dies after the claim,
  the append cannot be sent, or the claim's reply is lost, the caller gets no result and the
  stream has no entry, and for seven days every retry of the client is answered
  \<open>duplicate = True\<close> and records nothing. Only a client that still retries when the marker
  has expired has its event recorded.
\<close>

theorem failed_append_loses_event:
  assumes srv: "redis_server exec view clock elapse"
    and free: "view s (marker_key c) = None" and fault: "t \<in> {[Deliver], [Deliver, Unsent], [Lost]}"
    and es: "as_stream (view s (events_key c)) = Some es" "deadline_of (view s (events_key c)) = None"
  shows "\<exists>out s'. run exec (ingest_event c) t s = (out, [], s') \<and> (\<nexists>x. out = Done x)
    \<and> view s' (events_key c) = view s (events_key c)
    \<and> (\<forall>d. int d < 604800 * usec \<longrightarrow>
         run exec (ingest_event c) [Deliver] (elapse d s')
           = (Done \<lparr>event_id = ev_idempotency_key c, duplicate = True\<rparr>, [], elapse d s')
         \<and> as_stream (view (elapse d s') (events_key c)) = Some es)
    \<and> (\<forall>d. 604800 * usec < int d \<longrightarrow> (\<exists>i s''.
         run exec (ingest_event c) [Deliver, Deliver] (elapse d s')
           = (Done \<lparr>event_id = ev_idempotency_key c, duplicate = False\<rparr>, [], s'')
         \<and> as_stream (view s'' (events_key c)) = Some (es @ [(i, serialize_event c)])))"
proof -
  obtain out s' where 1: "run exec (ingest_event c) t s = (out, [], s')" "\<nexists>x. out = Done x"
    and v: "view s' = (view s)(marker_key c :=
           Some (RString (Text ''1''), Some (clock s + IDEMPOTENCY_TTL_SECONDS * usec)))" and clk: "clock s' = clock s"
    using redis_server.ingest_claimed_then_failed [OF srv free fault] by metis
  have same: "view (elapse d s') (events_key c) = view s (events_key c)" for d
    using redis_server.elapse_live [OF srv, of s' "events_key c" d] es(2) by (simp add: v)
  have "run exec (ingest_event c) [Deliver] (elapse d s')
      = (Done \<lparr>event_id = ev_idempotency_key c, duplicate = True\<rparr>, [], elapse d s')" if "int d < 604800 * usec" for d
  proof -
    have "view (elapse d s') (marker_key c) = view s' (marker_key c)"
      by (rule redis_server.elapse_live [OF srv]) (use that in \<open>simp add: v clk idempotency_ttl\<close>)
    then have "view (elapse d s') (marker_key c) \<noteq> None" by (simp add: v)
    from redis_server.ingest_taken [OF srv this, of "[]"] show ?thesis .
  qed
  moreover have "\<exists>i s''. run exec (ingest_event c) [Deliver, Deliver] (elapse d s')
        = (Done \<lparr>event_id = ev_idempotency_key c, duplicate = False\<rparr>, [], s'')
      \<and> as_stream (view s'' (events_key c)) = Some (es @ [(i, serialize_event c)])" if "604800 * usec < int d" for d
  proof -
    have gone: "view (elapse d s') (marker_key c) = None"
      by (rule redis_server.elapse_dead [OF srv, of _ _ "clock s + IDEMPOTENCY_TTL_SECONDS * usec"])
         (use that in \<open>simp_all add: v clk idempotency_ttl\<close>)
    have str: "as_stream (view (elapse d s') (events_key c)) = Some es" by (simp add: same es)
    obtain i s'' where "run exec (ingest_event c) [Deliver, Deliver] (elapse d s')
        = (Done \<lparr>event_id = ev_idempotency_key c, duplicate = False\<rparr>, [], s'')"
      and "view s'' = (view (elapse d s'))(
           marker_key c := Some (RString (Text ''1''), Some (clock (elapse d s') + IDEMPOTENCY_TTL_SECONDS * usec)),
           events_key c := Some (RStream (es @ [(i, serialize_event c)]), deadline_of (view (elapse d s') (events_key c))))"
      by (rule redis_server.ingest_fresh [OF srv gone str])
    then show ?thesis by auto
  qed
  moreover have "view s' (events_key c) = view s (events_key c)" by (simp add: v)
  ultimately show ?thesis using 1 same es(1) by auto
qed

theorem failed_append_loses_event_witness:
  "\<exists>s'. run mem_exec (ingest_event sample_event) [Deliver, Unsent] (mem_at 0)
      = (Raised (RedisError ''connection''), [], s')
    \<and> run mem_exec (ingest_event sample_event) [Deliver] (mem_elapse 86400000000 s')
      = (Done \<lparr>event_id = ''smoke-1'', duplicate = True\<rparr>, [], mem_elapse 86400000000 s')
    \<and> mem_data s' (stream_key ''globex'') = None"
proof -
  have *: "mem_data (mem_at 0) (marker_key sample_event) = None"
    "as_stream (mem_data (mem_at 0) (events_key sample_event)) = Some []"
    "deadline_of (mem_data (mem_at 0) (events_key sample_event)) = None" by (simp_all add: mem_at_def)
  have "[Deliver, Unsent] \<in> {[Deliver], [Deliver, Unsent], [Lost]}" by simp
  from failed_append_loses_event [OF mem.redis_server_axioms *(1) this *(2,3)]
  obtain out s' where r: "run mem_exec (ingest_event sample_event) [Deliver, Unsent] (mem_at 0) = (out, [], s')"
    and "mem_data s' (events_key sample_event) = mem_data (mem_at 0) (events_key sample_event)"
    and week: "\<forall>d. int d < 604800 * usec \<longrightarrow> run mem_exec (ingest_event sample_event) [Deliver] (mem_elapse d s')
      = (Done \<lparr>event_id = ev_idempotency_key sample_event, duplicate = True\<rparr>, [], mem_elapse d s')" by blast
  moreover have "out = Raised (RedisError ''connection'')"
    using r by (simp add: mem_at_def sample_event_def ingest_event_def record_event_def claim_idempotency_def prog_simps
        split: prod.splits)
  moreover from week [rule_format, of 86400000000]
  have "run mem_exec (ingest_event sample_event) [Deliver] (mem_elapse 86400000000 s')
      = (Done \<lparr>event_id = ev_idempotency_key sample_event, duplicate = True\<rparr>, [], mem_elapse 86400000000 s')" by simp
  ultimately show ?thesis by (auto simp: sample_event_def mem_at_def)
qed

end
