(* ===== verification/Deduplication.thy ===== *)
theory Deduplication imports Event_Store begin

text \<open>
  At most one stream entry per idempotency key, under every interleaving of any number of
  programs with lost requests, lost replies and processes that stop. The argument is the
  one \<open>record_event\<close>'s docstring gives: a program appends an event only after it has won
  the claim of the marker. \<open>claims_first\<close> states that discipline of a program with a
  count of the claims it has won and not used yet; it is kept by the program constructors,
  so it extends from \<open>ingest_event\<close> to the whole application.
\<close>

definition is_copy :: "string \<Rightarrow> (string \<times> bulk) list \<Rightarrow> bool" where
  "is_copy idem ps = (map_of ps ''idempotency_key'' = Some (Text idem))"

text \<open>How many entries of a stream carry the idempotency key.\<close>

definition copies :: "string \<Rightarrow> entry option \<Rightarrow> nat" where
  "copies idem e =
     (case as_stream e of None \<Rightarrow> 0 | Some es \<Rightarrow> length (filter (\<lambda>(i, ps). is_copy idem ps) es))"

lemma copies_None [simp]: "copies idem None = 0"
  by (simp add: copies_def)

lemma copies_stream [simp]:
  "copies idem (Some (RStream es, d)) = length (filter (\<lambda>(i, ps). is_copy idem ps) es)"
  by (simp add: copies_def)

lemma is_copy_serialize [simp]: "is_copy idem (serialize_event c) \<longleftrightarrow> ev_idempotency_key c = idem"
  by (simp add: is_copy_def serialize_event_def)

text \<open>Commands that can neither free the marker nor add a copy.\<close>

definition harmless :: "string \<Rightarrow> string \<Rightarrow> rcmd \<Rightarrow> bool" where
  "harmless t idem c \<longleftrightarrow> key_of c \<noteq> Some (idempotency_key t idem) \<and>
     (key_of c = Some (stream_key t) \<longrightarrow>
        c = XLEN (stream_key t) \<or> (\<exists>ps. c = XADD (stream_key t) ps \<and> ps \<noteq> [] \<and> \<not> is_copy idem ps))"

text \<open>What a request does for the tickets: claims the marker, appends a copy, or neither.\<close>

inductive claims :: "string \<Rightarrow> string \<Rightarrow> call \<Rightarrow> bool" for t idem where
  "IDEMPOTENCY_TTL_SECONDS \<le> n \<Longrightarrow> claims t idem (Cmd (SET_NX_EX (idempotency_key t idem) b n))"

inductive appends :: "string \<Rightarrow> string \<Rightarrow> call \<Rightarrow> bool" for t idem where
  "is_copy idem ps \<Longrightarrow> appends t idem (Cmd (XADD (stream_key t) ps))"

inductive_cases claimsE: "claims t idem c"
inductive_cases appendsE: "appends t idem c"

primrec claims_first :: "string \<Rightarrow> string \<Rightarrow> nat \<Rightarrow> 'a prog \<Rightarrow> bool" where
  "claims_first t idem n (Return x) = True"
| "claims_first t idem n (Raise e) = True"
| "claims_first t idem n (Now k) = (\<forall>x. claims_first t idem n (k x))"
| "claims_first t idem n (Uuid4 k) = (\<forall>u. claims_first t idem n (k u))"
| "claims_first t idem n (Call c k) =
     (if claims t idem c
      then claims_first t idem (Suc n) (k (RBulk (Text ''OK''))) \<and>
           claims_first t idem n (k RNil) \<and> (\<forall>e. claims_first t idem n (k (RError e)))
      else if appends t idem c then 0 < n \<and> (\<forall>r. claims_first t idem (n - 1) (k r))
      else call_cmds (harmless t idem) c \<and> (\<forall>r. claims_first t idem n (k r)))"

lemma claims_not_appends: "claims t idem c \<Longrightarrow> \<not> appends t idem c"
  by (auto elim!: claimsE appendsE)

lemma claims_first_mono: "claims_first t idem m p \<Longrightarrow> m \<le> n \<Longrightarrow> claims_first t idem n p"
proof (induction p arbitrary: m n)
  case (Call c k)
  have up: "claims_first t idem n' (k r)" if "claims_first t idem m' (k r)" and "m' \<le> n'" for m' n' r
    using Call.IH [OF rangeI that] .
  show ?case
  proof (cases "claims t idem c")
    case True
    with Call.prems show ?thesis using up by fastforce
  next
    case False
    show ?thesis
    proof (cases "appends t idem c")
      case True
      from Call.prems False True have "0 < m" and all: "\<forall>r. claims_first t idem (m - 1) (k r)" by simp_all
      have "claims_first t idem (n - 1) (k r)" for r
        by (rule up [OF spec [OF all]]) (use Call.prems(2) in simp)
      with False True \<open>0 < m\<close> Call.prems(2) show ?thesis by simp
    next
      case other: False
      with Call.prems False have all: "\<forall>r. claims_first t idem m (k r)" and h: "call_cmds (harmless t idem) c"
        by simp_all
      have "claims_first t idem n (k r)" for r
        by (rule up [OF spec [OF all] Call.prems(2)])
      with False other h show ?thesis by simp
    qed
  qed
next
  case (Now k)
  then show ?case by simp (metis rangeI)
next
  case (Uuid4 k)
  then show ?case by simp (metis rangeI)
qed simp_all

text \<open>The program constructors keep the discipline.\<close>

lemma claims_first_bnd:
  "claims_first t idem n p \<Longrightarrow> (\<And>x. claims_first t idem 0 (f x)) \<Longrightarrow> claims_first t idem n (bnd p f)"
  by (induction p arbitrary: n) (auto intro: claims_first_mono)

lemma claims_first_catch:
  "claims_first t idem n p \<Longrightarrow> (\<And>e. claims_first t idem 0 (h e)) \<Longrightarrow> claims_first t idem n (catch p h)"
  by (induction p arbitrary: n) (auto intro: claims_first_mono)

lemma claims_first_try_else:
  "claims_first t idem n p \<Longrightarrow> (\<And>e. claims_first t idem 0 (h e)) \<Longrightarrow> (\<And>x. claims_first t idem 0 (f x))
     \<Longrightarrow> claims_first t idem n (try_else p h f)"
  by (induction p arbitrary: n) (auto intro: claims_first_mono)

lemma claims_first_finally:
  "claims_first t idem n p \<Longrightarrow> claims_first t idem 0 f \<Longrightarrow> claims_first t idem n (finally_do p f)"
  by (induction p arbitrary: n) (auto intro!: claims_first_bnd intro: claims_first_mono)

lemma claims_first_harmless:
  assumes "calls_in (call_cmds (harmless t idem)) p"
  shows "claims_first t idem n p"
proof -
  have no_claim: "\<not> claims t idem c" if "call_cmds (harmless t idem) c" for c
    using that by (auto elim!: claimsE simp: harmless_def)
  have no_append: "\<not> appends t idem c" if "call_cmds (harmless t idem) c" for c
    using that by (auto elim!: appendsE simp: harmless_def)
  show ?thesis
    using assms by (induction p) (simp_all add: no_claim no_append)
qed

lemmas claims_first_intros =
  claims_first_bnd claims_first_catch claims_first_try_else claims_first_finally


lemma ingest_event_claims_first: "claims_first t idem 0 (ingest_event c)"
proof (cases "ev_tenant_id c = t \<and> ev_idempotency_key c = idem")
  case True
  have claim: "claims t idem (Cmd (SET_NX_EX (idempotency_key t idem) (Text ''1'') IDEMPOTENCY_TTL_SECONDS))"
    by (rule claims.intros) simp
  have append: "appends t idem (Cmd (XADD (stream_key t) (serialize_event c)))"
    by (rule appends.intros) (simp add: True)
  have not_claim: "\<not> claims t idem (Cmd (XADD (stream_key t) (serialize_event c)))"
    using claims_not_appends append by blast
  from True show ?thesis
    by (auto simp: ingest_event_def record_event_def claim_idempotency_def redis_py_def claim append
        not_claim split: reply.splits)
next
  case False
  then have rest: "claims_first t idem n (bnd (redis_py (Cmd (XADD (stream_key (ev_tenant_id c)) (serialize_event c))))
      (\<lambda>entry_id. Return \<lparr>stream_entry_id = reply_text entry_id, rec_duplicate = False\<rparr>))" for n
    by (intro claims_first_harmless calls_in_bnd calls_in_redis_py) (auto simp: harmless_def)
  let ?claim = "Cmd (SET_NX_EX (idempotency_key (ev_tenant_id c) (ev_idempotency_key c)) (Text ''1'') IDEMPOTENCY_TTL_SECONDS)"
  have "claims_first t idem 0 (claim_idempotency (ev_tenant_id c) (ev_idempotency_key c))"
  proof (cases "idempotency_key (ev_tenant_id c) (ev_idempotency_key c) = idempotency_key t idem")
    case True
    have "claims t idem ?claim" unfolding True by (rule claims.intros) simp
    then show ?thesis by (simp add: claim_idempotency_def redis_py_def)
  next
    case False
    then show ?thesis unfolding claim_idempotency_def
      by (intro claims_first_harmless calls_in_bnd calls_in_redis_py) (auto simp: harmless_def)
  qed
  then show ?thesis unfolding ingest_event_def record_event_def Let_def
    by (intro claims_first_bnd) (simp_all add: rest)
qed

subsection \<open>The invariant\<close>

text \<open>
  The tickets the programs hold, one number per program, and the state of the store: every
  ticket and every copy beyond those of the start was paid for by the one claim the marker
  records, and the marker outlives the week.
\<close>

definition tickets :: "string \<Rightarrow> string \<Rightarrow> 'a prog list \<Rightarrow> nat \<Rightarrow> bool" where
  "tickets t idem ps n \<longleftrightarrow> (\<exists>ns. list_all2 (claims_first t idem) ns ps \<and> sum_list ns = n)"

lemma tickets_step:
  assumes "tickets t idem ps n" and "i < length ps"
    and "\<And>m. claims_first t idem m (ps ! i) \<Longrightarrow> claims_first t idem (g m) q"
    and g: "\<And>m. claims_first t idem m (ps ! i) \<Longrightarrow> g m + a = m + b"
  obtains n' where "tickets t idem (ps[i := q]) n'" and "n' + a = n + b"
proof -
  from assms(1) obtain ns where ns: "list_all2 (claims_first t idem) ns ps" "sum_list ns = n"
    by (auto simp: tickets_def)
  from ns(1) assms(2) have i: "i < length ns" and m: "claims_first t idem (ns ! i) (ps ! i)"
    by (auto simp: list_all2_conv_all_nth)
  have "list_all2 (claims_first t idem) (ns[i := g (ns ! i)]) (ps[i := q])"
    using ns(1) assms(3) [OF m] by (rule list_all2_update_cong)
  moreover have "sum_list (ns[i := g (ns ! i)]) + a = n + b"
    using sum_list_update [OF i, of "g (ns ! i)"] elem_le_sum_list [OF i] g [OF m] ns(2) by simp
  ultimately show ?thesis using that by (auto simp: tickets_def)
qed

lemma tickets_arrive: "tickets t idem ps n \<Longrightarrow> claims_first t idem 0 p \<Longrightarrow> tickets t idem (ps @ [p]) n"
proof -
  assume "tickets t idem ps n" and p: "claims_first t idem 0 p"
  then obtain ns where "list_all2 (claims_first t idem) ns ps" "sum_list ns = n"
    by (auto simp: tickets_def)
  then have "list_all2 (claims_first t idem) (ns @ [0]) (ps @ [p])" "sum_list (ns @ [0]) = n"
    using p by (auto intro: list_all2_appendI)
  then show ?thesis unfolding tickets_def by blast
qed

context redis_server
begin

definition marker_kept :: "string \<Rightarrow> string \<Rightarrow> int \<Rightarrow> 's \<Rightarrow> bool" where
  "marker_kept t idem dl s \<longleftrightarrow> (view s (idempotency_key t idem) \<noteq> None \<longrightarrow>
     (\<exists>d. deadline_of (view s (idempotency_key t idem)) = Some d \<and> dl \<le> d))"

definition store_copies :: "string \<Rightarrow> string \<Rightarrow> 's \<Rightarrow> nat" where
  "store_copies t idem s = copies idem (view s (stream_key t))"

abbreviation claimed :: "string \<Rightarrow> string \<Rightarrow> 's \<Rightarrow> nat" where
  "claimed t idem s \<equiv> (if view s (idempotency_key t idem) = None then 0 else 1)"

lemma harmless_serve:
  assumes "call_cmds (harmless t idem) c" and "serve exec c s = (r, s')"
  shows "view s' (idempotency_key t idem) = view s (idempotency_key t idem)"
    and "store_copies t idem s' = store_copies t idem s"
proof -
  let ?I = "\<lambda>u. view u (idempotency_key t idem) = view s (idempotency_key t idem) \<and>
    store_copies t idem u = store_copies t idem s"
  have one: "view u' (idempotency_key t idem) = view u (idempotency_key t idem) \<and>
      store_copies t idem u' = store_copies t idem u"
    if h: "harmless t idem x" and e: "exec x u = (r, u')" for x u r u'
  proof
    show "view u' (idempotency_key t idem) = view u (idempotency_key t idem)"
      using frame [of x "idempotency_key t idem" u] h e by (simp add: harmless_def)
    show "store_copies t idem u' = store_copies t idem u"
    proof (cases "key_of x = Some (stream_key t) \<and> as_stream (view u (stream_key t)) \<noteq> None")
      case False
      then have "view u' (stream_key t) = view u (stream_key t)"
        using h e frame [of x "stream_key t" u] wrong_type [of x "stream_key t" u]
        by (force simp: harmless_def)
      then show ?thesis by (simp add: store_copies_def)
    next
      case True
      then obtain es where es: "as_stream (view u (stream_key t)) = Some es" by auto
      from True h consider "x = XLEN (stream_key t)"
        | ps where "x = XADD (stream_key t) ps" "ps \<noteq> []" "\<not> is_copy idem ps"
        by (auto simp: harmless_def)
      then show ?thesis
      proof cases
        case 1
        with e xlen [OF es] show ?thesis by simp
      next
        case 2
        with e xadd [OF es 2(2)] es show ?thesis by (auto simp: store_copies_def copies_def)
      qed
    qed
  qed
  have "?I s'"
    by (rule serve_keeps [where P = "harmless t idem" and I = ?I, OF _ assms(1) _ assms(2)])
       (use one in \<open>auto\<close>)
  then show "view s' (idempotency_key t idem) = view s (idempotency_key t idem)"
    and "store_copies t idem s' = store_copies t idem s" by auto
qed

lemma append_serve:
  assumes "appends t idem c" and "serve exec c s = (r, s')"
  shows "view s' (idempotency_key t idem) = view s (idempotency_key t idem)"
    and "store_copies t idem s' \<le> Suc (store_copies t idem s)"
proof -
  from assms(1) obtain ps where c: "c = Cmd (XADD (stream_key t) ps)" and ps: "is_copy idem ps"
    by (auto elim: appendsE)
  from ps have ne: "ps \<noteq> []" by (auto simp: is_copy_def)
  show "view s' (idempotency_key t idem) = view s (idempotency_key t idem)"
    using frame [of "XADD (stream_key t) ps" "idempotency_key t idem" s] assms(2) c by simp
  show "store_copies t idem s' \<le> Suc (store_copies t idem s)"
  proof (cases "as_stream (view s (stream_key t))")
    case None
    with wrong_type [of "XADD (stream_key t) ps" "stream_key t" s] assms(2) c show ?thesis by auto
  next
    case (Some es)
    with xadd [OF Some ne] assms(2) c show ?thesis by (auto simp: store_copies_def copies_def)
  qed
qed

lemma claim_serve:
  assumes "claims t idem c" and "serve exec c s = (r, s')"
  obtains (won) "view s (idempotency_key t idem) = None" and "r = RBulk (Text ''OK'')"
      and "view s' (idempotency_key t idem) \<noteq> None"
      and "marker_kept t idem (clock s + IDEMPOTENCY_TTL_SECONDS * usec) s'"
      and "store_copies t idem s' = store_copies t idem s"
    | (taken) "view s (idempotency_key t idem) \<noteq> None" and "r = RNil" and "s' = s"
proof -
  from assms(1) obtain b m where c: "c = Cmd (SET_NX_EX (idempotency_key t idem) b m)"
    and m: "IDEMPOTENCY_TTL_SECONDS \<le> m"
    by (auto elim: claimsE)
  from m idempotency_ttl_pos have pos: "0 < m" by linarith
  show ?thesis
  proof (cases "view s (idempotency_key t idem)")
    case None
    obtain s1 where "exec (SET_NX_EX (idempotency_key t idem) b m) s = (RBulk (Text ''OK''), s1)"
      and v: "view s1 = (view s)(idempotency_key t idem := Some (RString b, Some (clock s + m * usec)))"
      by (rule set_nx_view [OF None pos])
    with c assms(2) have "r = RBulk (Text ''OK'')" and s1: "s' = s1" by simp_all
    moreover have "marker_kept t idem (clock s + IDEMPOTENCY_TTL_SECONDS * usec) s'"
      using m by (simp add: marker_kept_def s1 v)
    ultimately show ?thesis using None by (intro won) (simp_all add: v store_copies_def)
  next
    case (Some x)
    then have "view s (idempotency_key t idem) \<noteq> None" by simp
    from taken set_nx_taken [OF this pos, of b] c assms(2) Some show ?thesis by simp
  qed
qed

text \<open>One request of one program, answered or with its answer lost.\<close>

lemma served_step:
  assumes tk: "tickets t idem ps n" and i: "i < length ps" and p: "ps ! i = Call c k"
    and paid: "n + store_copies t idem s \<le> base + claimed t idem s"
    and kept: "marker_kept t idem dl s" and dl: "dl \<le> clock s + IDEMPOTENCY_TTL_SECONDS * usec"
    and sv: "serve exec c s = (r, s')" and q: "q = k r \<or> (\<exists>e. q = k (RError e))"
  shows "marker_kept t idem dl s' \<and>
    (\<exists>n'. tickets t idem (ps[i := q]) n' \<and> n' + store_copies t idem s' \<le> base + claimed t idem s')"
proof -
  note step = tickets_step [OF tk i, unfolded p]
  consider (claim) "claims t idem c" | (append) "\<not> claims t idem c" "appends t idem c"
    | (other) "\<not> claims t idem c" "\<not> appends t idem c" by blast
  then show ?thesis
  proof cases
    case claim
    from claim sv show ?thesis
    proof (cases rule: claim_serve)
      case won
      have keep: "marker_kept t idem dl s'" using won(4) dl by (force simp: marker_kept_def)
      show ?thesis
      proof (cases "q = k r")
        case True
        obtain n' where "tickets t idem (ps[i := q]) n'" "n' + 0 = n + 1"
          by (rule step [of Suc q 0 1]) (use claim True won(2) in auto)
        with keep won paid show ?thesis by (intro conjI exI [of _ n']) auto
      next
        case False
        with q obtain e where e: "q = k (RError e)" by blast
        obtain n' where "tickets t idem (ps[i := q]) n'" "n' + 0 = n + 0"
          by (rule step [of "\<lambda>m. m" q 0 0]) (use claim e in auto)
        with keep won paid show ?thesis by (intro conjI exI [of _ n']) simp_all
      qed
    next
      case taken
      obtain n' where "tickets t idem (ps[i := q]) n'" "n' + 0 = n + 0"
        by (rule step [of "\<lambda>m. m" q 0 0]) (use claim taken(2) q in auto)
      with kept taken(3) paid show ?thesis by (intro conjI exI [of _ n']) simp_all
    qed
  next
    case append
    obtain n' where "tickets t idem (ps[i := q]) n'" "n' + 1 = n + 0"
      by (rule step [of "\<lambda>m. m - 1" q 1 0]) (use append q in auto)
    with append_serve [OF append(2) sv] kept paid show ?thesis
      by (intro conjI exI [of _ n']) (simp_all add: marker_kept_def)
  next
    case other
    obtain n' where "tickets t idem (ps[i := q]) n'" "n' + 0 = n + 0"
      by (rule step [of "\<lambda>m. m" q 0 0]) (use other q in auto)
    moreover obtain m where "claims_first t idem m (Call c k)"
      using tk i p by (auto simp: tickets_def list_all2_conv_all_nth)
    then have "call_cmds (harmless t idem) c" using other by simp
    note harmless_serve [OF this sv]
    ultimately show ?thesis using kept paid by (intro conjI exI [of _ n']) (simp_all add: marker_kept_def)
  qed
qed

lemma unsent_step:
  assumes tk: "tickets t idem ps n" and i: "i < length ps" and p: "ps ! i = Call c k"
  obtains n' where "tickets t idem (ps[i := k (RError e)]) n'" and "n' \<le> n"
proof -
  note step = tickets_step [OF tk i, unfolded p]
  show ?thesis
  proof (cases "\<not> claims t idem c \<and> appends t idem c")
    case True
    obtain n' where "tickets t idem (ps[i := k (RError e)]) n'" "n' + 1 = n + 0"
      by (rule step [of "\<lambda>m. m - 1" "k (RError e)" 1 0]) (use True in auto)
    then show ?thesis by (intro that [of n']) simp_all
  next
    case False
    obtain n' where "tickets t idem (ps[i := k (RError e)]) n'" "n' + 0 = n + 0"
      by (rule step [of "\<lambda>m. m" "k (RError e)" 0 0]) (use False in \<open>auto split: if_splits\<close>)
    then show ?thesis by (intro that [of n']) simp_all
  qed
qed

lemma passes_step:
  assumes kept: "marker_kept t idem dl s" and "clock s + int d < dl"
  shows "view (elapse d s) (idempotency_key t idem) = view s (idempotency_key t idem)"
    and "store_copies t idem (elapse d s) \<le> store_copies t idem s"
proof -
  show "view (elapse d s) (idempotency_key t idem) = view s (idempotency_key t idem)"
  proof (rule elapse_live)
    fix x assume "deadline_of (view s (idempotency_key t idem)) = Some x"
    with kept assms(2) show "clock s + int d < x"
      by (cases "view s (idempotency_key t idem)") (auto simp: marker_kept_def)
  qed
  show "store_copies t idem (elapse d s) \<le> store_copies t idem s"
    using elapse_either [of d s "stream_key t"] by (auto simp: store_copies_def)
qed

lemma reach_dedup:
  assumes "sys_reach exec elapse req s0 T cf" and "\<forall>p \<in> req. claims_first t idem 0 p"
    and free: "view s0 (idempotency_key t idem) = None"
    and "int T < IDEMPOTENCY_TTL_SECONDS * usec"
  shows "clock (fst cf) = clock s0 + int T
    \<and> marker_kept t idem (clock s0 + IDEMPOTENCY_TTL_SECONDS * usec) (fst cf)
    \<and> (\<exists>n. tickets t idem (snd cf) n
         \<and> n + store_copies t idem (fst cf) \<le> store_copies t idem s0 + claimed t idem (fst cf))"
  using assms(1,4)
proof (induction rule: sys_reach.induct)
  case start
  have "tickets t idem [] 0" by (auto simp: tickets_def intro: exI [of _ "[]"])
  with free show ?case by (auto simp: marker_kept_def)
next
  case (step T cf d cf')
  let ?base = "store_copies t idem s0" and ?dl = "clock s0 + IDEMPOTENCY_TTL_SECONDS * usec"
  from step.prems have "int T < IDEMPOTENCY_TTL_SECONDS * usec" by simp
  from step.IH [OF this] obtain n where now: "clock (fst cf) = clock s0 + int T"
    and kept: "marker_kept t idem ?dl (fst cf)" and tk: "tickets t idem (snd cf) n"
    and paid: "n + store_copies t idem (fst cf) \<le> ?base + claimed t idem (fst cf)" by blast
  have dl: "?dl \<le> clock (fst cf) + IDEMPOTENCY_TTL_SECONDS * usec" using now by simp
  from step.hyps(2) now kept tk paid step.prems dl show ?case
  proof (induction rule: sys_step.induct)
    case (delivered i ps c k s r s')
    from served_step [OF _ delivered.hyps(1,2) _ _ _ delivered.hyps(3), of t idem n ?base ?dl "k r"]
      delivered.prems serve_clock [OF delivered.hyps(3)] show ?case by simp
  next
    case (unsent i ps c k s e)
    obtain n' where "tickets t idem (ps[i := k (RError e)]) n'" "n' \<le> n"
      by (rule unsent_step [OF _ unsent.hyps, of t idem n e]) (use unsent.prems in simp_all)
    with unsent.prems show ?case by (auto intro!: exI [of _ n'])
  next
    case (lost i ps c k s r s' e)
    have "k (RError e) = k r \<or> (\<exists>e'. k (RError e) = k (RError e'))" by blast
    from served_step [OF _ lost.hyps(1,2) _ _ _ lost.hyps(3) this, of t idem n ?base ?dl]
      lost.prems serve_clock [OF lost.hyps(3)] show ?case by simp
  next
    case (reads_clock i ps k s x)
    obtain n' where "tickets t idem (ps[i := k x]) n'" "n' + 0 = n + 0"
      by (rule tickets_step [of t idem ps n i "\<lambda>m. m" "k x" 0 0]) (use reads_clock in simp_all)
    with reads_clock.prems show ?case by (auto intro!: exI [of _ n'])
  next
    case (draws_uuid i ps k s u)
    obtain n' where "tickets t idem (ps[i := k u]) n'" "n' + 0 = n + 0"
      by (rule tickets_step [of t idem ps n i "\<lambda>m. m" "k u" 0 0]) (use draws_uuid in simp_all)
    with draws_uuid.prems show ?case by (auto intro!: exI [of _ n'])
  next
    case (arrives p s ps)
    from assms(2) arrives.hyps have "claims_first t idem 0 p" by (rule bspec)
    moreover from arrives.prems have "tickets t idem ps n" by simp
    ultimately have "tickets t idem (ps @ [p]) n" by (intro tickets_arrive)
    with arrives.prems show ?case by auto
  next
    case (passes s ps d)
    then have "clock s + int d < ?dl" by simp
    with passes passes_step [of t idem ?dl s d] show ?case
      by (auto simp: clock_elapse marker_kept_def intro!: exI [of _ n])
  qed
qed

lemma reach_at_most_once:
  assumes "sys_reach exec elapse req s0 T (s, ps)" and "\<forall>p \<in> req. claims_first t idem 0 p"
    and "view s0 (idempotency_key t idem) = None" and "int T < 604800 * usec"
  shows "copies idem (view s (stream_key t)) \<le> Suc (copies idem (view s0 (stream_key t)))"
  using reach_dedup [OF assms(1-3)] assms(4)
  by (auto simp: store_copies_def idempotency_ttl split: if_splits)

end

text \<open>
  At most once: in any week that starts with the marker of \<open>(t, idem)\<close> free, any number
  of concurrent ingests (of any tenants and keys, with requests and replies lost and
  processes stopping anywhere) beside any other programs that touch neither the marker nor
  the stream add at most one entry with that idempotency key to the tenant's stream.
\<close>

theorem ingested_at_most_once:
  assumes srv: "redis_server exec view clock elapse"
    and reach: "sys_reach exec elapse req s0 T (s, ps)" and week: "int T < 604800 * usec"
    and free: "view s0 (idempotency_key t idem) = None"
    and progs: "\<forall>p \<in> req. p \<in> range ingest_event \<or>
      calls_in (call_cmds (\<lambda>c. key_of c \<notin> {Some (idempotency_key t idem), Some (stream_key t)})) p"
  shows "copies idem (view s (stream_key t)) \<le> copies idem (view s0 (stream_key t)) + 1"
proof -
  have "claims_first t idem 0 p" if "p \<in> req" for p
  proof (cases "p \<in> range ingest_event")
    case True
    then show ?thesis by (auto intro: ingest_event_claims_first)
  next
    case False
    with progs that have "calls_in (call_cmds (\<lambda>c. key_of c \<notin> {Some (idempotency_key t idem), Some (stream_key t)})) p"
      by blast
    then have "calls_in (call_cmds (harmless t idem)) p"
      by (rule calls_in_mono) (erule call_cmds_mono, simp add: harmless_def)
    then show ?thesis by (rule claims_first_harmless)
  qed
  with redis_server.reach_at_most_once [OF srv reach _ free week] show ?thesis by simp
qed

theorem ingested_at_most_once_witness:
  "\<exists>s r. sys_reach mem_exec mem_elapse {ingest_event sample_event} (mem_at 0) 0 (s, [Return r])
     \<and> copies ''smoke-1'' (mem_data s (stream_key ''globex'')) \<le> 1"
proof -
  let ?r = "\<lparr>event_id = ''smoke-1'', duplicate = False\<rparr>"
  have "\<exists>s. run mem_exec (ingest_event sample_event) [Deliver, Deliver] (mem_at 0) = (Done ?r, [], s)"
    by (simp add: ingest_event_def record_event_def claim_idempotency_def prog_simps mem_at_def
        with_defs sample_event_def serialize_event_def Let_def)
  then obtain s where "run mem_exec (ingest_event sample_event) [Deliver, Deliver] (mem_at 0) = (Done ?r, [], s)" ..
  from run_alone_reaches [OF this singletonI]
  have r: "sys_reach mem_exec mem_elapse {ingest_event sample_event} (mem_at 0) 0 (s, [Return ?r])" .
  from ingested_at_most_once [OF mem.redis_server_axioms r, of "''globex''" "''smoke-1''"] r
  show ?thesis by (auto simp: mem_at_def)
qed

end
