(* ===== verification/Billing_Calculator.thy ===== *)
theory Billing_Calculator imports Redis_Reference Key_Schema begin

text \<open>
  \<open>billing/application/billing_calculator.py\<close>: \<open>calculate_for\<close> counts the tenant's events,
  looks up the customer's price, and writes a draft invoice with a TTL of an hour. The
  lemmas give its result and its effect on every branch.

  Instants (\<open>period_start\<close>, \<open>period_end\<close>) are microseconds since the epoch. A stored price is
  a finite number or text \<open>float\<close> rejects; the texts \<open>inf\<close> and \<open>nan\<close> are not represented.
\<close>

definition DEFAULT_PRICE_PER_EVENT :: rat where
  "DEFAULT_PRICE_PER_EVENT = 1 / 100"

definition INVOICE_TTL_SECONDS :: int where
  "INVOICE_TTL_SECONDS = 3600"

lemma invoice_ttl_pos: "0 < INVOICE_TTL_SECONDS"
  by (simp add: INVOICE_TTL_SECONDS_def)

record BillingCalculation =
  bc_invoice_id :: string
  bc_tenant_id :: string
  bc_customer_id :: string
  bc_period_start :: int
  bc_period_end :: int
  bc_event_count :: int
  bc_amount :: rat

text \<open>The reply of \<open>XLEN\<close> as a number, and \<open>float(text)\<close>.\<close>

fun reply_int :: "reply \<Rightarrow> exn + int" where
  "reply_int (RInt n) = Inr n"
| "reply_int _ = Inl (OtherException ''TypeError'')"

fun float_of :: "bulk \<Rightarrow> exn + rat" where
  "float_of (Number x) = Inr x"
| "float_of _ = Inl ValueError"

text \<open>\<open>float(pricing_raw) if pricing_raw else _DEFAULT_PRICE_PER_EVENT\<close>\<close>

fun price_of :: "reply \<Rightarrow> exn + rat" where
  "price_of (RBulk b) = (if b = Text [] then Inr DEFAULT_PRICE_PER_EVENT else float_of b)"
| "price_of _ = Inr DEFAULT_PRICE_PER_EVENT"

definition draft_mapping ::
    "string \<Rightarrow> string \<Rightarrow> int \<Rightarrow> int \<Rightarrow> int \<Rightarrow> rat \<Rightarrow> rat \<Rightarrow> rat \<Rightarrow> (string \<times> bulk) list" where
  "draft_mapping tenant_id customer_id period_start period_end event_count price_per_event amount created_at =
    [(''tenant_id'', Text tenant_id),
     (''customer_id'', Text customer_id),
     (''period_start'', Iso period_start),
     (''period_end'', Iso period_end),
     (''event_count'', Number (of_int event_count)),
     (''amount'', Number amount),
     (''status'', Text ''draft''),
     (''created_at'', Number created_at),
     (''line_items'', Json (JArr [JObj
        [(''description'', JStr ''Usage events''),
         (''quantity'', JNum (of_int event_count)),
         (''unit_price'', JNum price_per_event),
         (''amount'', JNum amount)]]))]"

definition calculate_for :: "string \<Rightarrow> string \<Rightarrow> int \<Rightarrow> int \<Rightarrow> BillingCalculation prog" where
  "calculate_for tenant_id customer_id period_start period_end =
     bnd (redis_py (Cmd (XLEN (stream_key tenant_id)))) (\<lambda>n.
     bnd (lift_exn (reply_int n)) (\<lambda>event_count.
     bnd (redis_py (Cmd (HGET (pricing_key tenant_id) customer_id))) (\<lambda>pricing_raw.
     bnd (lift_exn (price_of pricing_raw)) (\<lambda>price_per_event.
     let amount = py_round (of_int event_count * price_per_event) 4 in
     Uuid4 (\<lambda>u.
     let invoice_id = ''inv_'' @ take 16 u in
     Now (\<lambda>created_at.
     bnd (redis_py (Cmd (HSET (invoice_key tenant_id invoice_id)
            (draft_mapping tenant_id customer_id period_start period_end event_count
               price_per_event amount created_at)))) (\<lambda>_.
     bnd (redis_py (Cmd (EXPIRE (invoice_key tenant_id invoice_id) INVOICE_TTL_SECONDS))) (\<lambda>_.
     Return
       \<lparr>bc_invoice_id = invoice_id, bc_tenant_id = tenant_id, bc_customer_id = customer_id,
        bc_period_start = period_start, bc_period_end = period_end,
        bc_event_count = event_count, bc_amount = amount\<rparr>))))))))"

lemma draft_mapping_nonempty [simp]: "draft_mapping t c a b n p x w \<noteq> []"
  by (simp add: draft_mapping_def)

lemma draft_mapping_distinct [simp]: "distinct (map fst (draft_mapping t c a b n p x w))"
  by (simp add: draft_mapping_def)

lemma map_of_draft [simp]:
  "map_of (draft_mapping t c a b n p x w) ''customer_id'' = Some (Text c)"
  "map_of (draft_mapping t c a b n p x w) ''amount'' = Some (Number x)"
  "map_of (draft_mapping t c a b n p x w) ''status'' = Some (Text ''draft'')"
  by (simp_all add: draft_mapping_def)

text \<open>What the pricing hash says of a customer.\<close>

definition rate_card :: "(string \<times> bulk) list \<Rightarrow> string \<Rightarrow> exn + rat" where
  "rate_card ph customer_id =
     (case map_of ph customer_id of
        None \<Rightarrow> Inr (1 / 100)
      | Some b \<Rightarrow> if b = Text [] then Inr (1 / 100) else float_of b)"

lemma price_of_field: "price_of (field_reply ph c) = rate_card ph c"
  by (simp add: field_reply_def rate_card_def DEFAULT_PRICE_PER_EVENT_def split: option.split)

lemma field_reply_ok [simp]: "field_reply h f \<noteq> RError e" "reply_outcome (field_reply h f) = Done (field_reply h f)"
  by (simp_all add: field_reply_def split: option.split)

context redis_server
begin

text \<open>The first two reads of a calculation.\<close>

lemma calculate_reads:
  assumes es: "as_stream (view s (stream_key t)) = Some es"
    and ph: "as_hash (view s (pricing_key t)) = Some ph"
  shows "run exec (calculate_for t c a b) (Deliver # Deliver # tape) s =
     (case rate_card ph c of
        Inl e \<Rightarrow> (Raised e, tape, s)
      | Inr p \<Rightarrow>
          run exec (Uuid4 (\<lambda>u. Now (\<lambda>w.
            bnd (redis_py (Cmd (HSET (invoice_key t (''inv_'' @ take 16 u))
              (draft_mapping t c a b (int (length es)) p (py_round (of_int (int (length es)) * p) 4) w)))) (\<lambda>_.
            bnd (redis_py (Cmd (EXPIRE (invoice_key t (''inv_'' @ take 16 u)) INVOICE_TTL_SECONDS))) (\<lambda>_.
            Return \<lparr>bc_invoice_id = ''inv_'' @ take 16 u, bc_tenant_id = t, bc_customer_id = c,
              bc_period_start = a, bc_period_end = b, bc_event_count = int (length es),
              bc_amount = py_round (of_int (int (length es)) * p) 4\<rparr>))))) tape s)"
  by (simp add: calculate_for_def prog_simps xlen [OF es] hget [OF ph] price_of_field Let_def split: sum.split)

lemma calculate_run:
  assumes es: "as_stream (view s (stream_key t)) = Some es"
    and ph: "as_hash (view s (pricing_key t)) = Some ph"
    and price: "rate_card ph c = Inr p"
    and i: "i = ''inv_'' @ take 16 u" and h: "as_hash (view s (invoice_key t i)) = Some h"
    and x: "x = py_round (of_int (int (length es)) * p) 4"
  obtains s' where "run exec (calculate_for t c a b)
        (Deliver # Deliver # Draws u # Reads w # Deliver # Deliver # tape) s
      = (Done \<lparr>bc_invoice_id = i, bc_tenant_id = t, bc_customer_id = c, bc_period_start = a,
               bc_period_end = b, bc_event_count = int (length es), bc_amount = x\<rparr>, tape, s')"
    and "view s' = (view s)(invoice_key t i :=
          Some (RHash (update_fields h (draft_mapping t c a b (int (length es)) p x w)),
                Some (clock s + INVOICE_TTL_SECONDS * usec)))"
    and "clock s' = clock s"
proof -
  obtain j1 s1 j2 s2 where
    "exec (HSET (invoice_key t i) (draft_mapping t c a b (int (length es)) p x w)) s = (RInt j1, s1)"
    and "exec (EXPIRE (invoice_key t i) INVOICE_TTL_SECONDS) s1 = (RInt j2, s2)"
    and "view s2 = (view s)(invoice_key t i :=
          Some (RHash (update_fields h (draft_mapping t c a b (int (length es)) p x w)),
                Some (clock s + INVOICE_TTL_SECONDS * usec)))"
    and "clock s2 = clock s"
    by (rule hset_expire [OF h draft_mapping_nonempty invoice_ttl_pos])
  with price show ?thesis
    by (intro that [of s2]) (simp_all add: calculate_reads [OF es ph] prog_simps i x)
qed

lemma calculate_bad:
  assumes bad: "as_stream (view s (stream_key t)) = None \<or> as_hash (view s (pricing_key t)) = None
      \<or> (\<exists>ph e. as_hash (view s (pricing_key t)) = Some ph \<and> rate_card ph c = Inl e)"
  shows "\<exists>e tape'. run exec (calculate_for t c a b) (Deliver # Deliver # tape) s = (Raised e, tape', s)"
proof (cases "as_stream (view s (stream_key t))")
  case None
  then obtain e where "exec (XLEN (stream_key t)) s = (RError e, s)"
    using wrong_type [of "XLEN (stream_key t)" "stream_key t" s] by auto
  then show ?thesis by (simp add: calculate_for_def prog_simps)
next
  case es: (Some es)
  show ?thesis
  proof (cases "as_hash (view s (pricing_key t))")
    case None
    then obtain e where "exec (HGET (pricing_key t) c) s = (RError e, s)"
      using wrong_type [of "HGET (pricing_key t) c" "pricing_key t" s] by auto
    then show ?thesis by (simp add: calculate_for_def prog_simps xlen [OF es])
  next
    case ph: (Some ph)
    with bad es obtain e where "rate_card ph c = Inl e" by auto
    with calculate_reads [OF es ph] show ?thesis by simp
  qed
qed

lemma calculate_interrupted:
  assumes es: "as_stream (view s (stream_key t)) = Some es"
    and ph: "as_hash (view s (pricing_key t)) = Some ph"
    and price: "rate_card ph c = Inr p"
    and i: "i = ''inv_'' @ take 16 u" and new: "view s (invoice_key t i) = None"
    and fault: "tape = [] \<or> tape = [Unsent]"
    and ps: "ps = draft_mapping t c a b (int (length es)) p (py_round (of_int (int (length es)) * p) 4) w"
  obtains out s' where "run exec (calculate_for t c a b) ([Deliver, Deliver, Draws u, Reads w, Deliver] @ tape) s
        = (out, [], s')" and "\<nexists>x. out = Done x"
    and "view s' = (view s)(invoice_key t i := Some (RHash (update_fields [] ps), None))"
proof -
  have h: "as_hash (view s (invoice_key t i)) = Some []" and ne: "ps \<noteq> []" by (simp_all add: new ps)
  obtain n s1 where 1: "exec (HSET (invoice_key t i) ps) s = (RInt n, s1)"
    and v: "view s1 = (view s)(invoice_key t i := Some (RHash (update_fields [] ps), deadline_of (view s (invoice_key t i))))"
    by (rule hset_view [OF h ne])
  have "\<exists>out. run exec (calculate_for t c a b) ([Deliver, Deliver, Draws u, Reads w, Deliver] @ tape) s = (out, [], s1)
      \<and> (\<nexists>x. out = Done x)"
    using fault 1 price by (auto simp: calculate_reads [OF es ph] prog_simps i ps)
  then show ?thesis using that v by (auto simp: new)
qed

end

lemma update_fields_draft [simp]:
  "update_fields [] (draft_mapping t c a b n p x w) = draft_mapping t c a b n p x w"
  by (simp add: draft_mapping_def)

text \<open>
  C20. A calculation charges every event of the tenant's stream at the customer's price (a
  cent where none is set), rounded to four decimals, hence off by at most half of the last
  one, and stores exactly the draft it reports for one hour; no other key is touched, in
  particular no event.
\<close>

theorem calculate_stores_draft:
  assumes srv: "redis_server exec view clock elapse"
    and es: "as_stream (view s (stream_key t)) = Some es"
    and ph: "as_hash (view s (pricing_key t)) = Some ph"
    and price: "rate_card ph c = Inr p"
    and i: "i = ''inv_'' @ take 16 u" and new: "view s (invoice_key t i) = None"
  shows "\<exists>s' x. run exec (calculate_for t c a b) [Deliver, Deliver, Draws u, Reads w, Deliver, Deliver] s
      = (Done \<lparr>bc_invoice_id = i, bc_tenant_id = t, bc_customer_id = c, bc_period_start = a,
               bc_period_end = b, bc_event_count = int (length es), bc_amount = x\<rparr>, [], s')
    \<and> \<bar>x - of_int (int (length es)) * p\<bar> \<le> 1 / 20000 \<and> py_round x 4 = x
    \<and> view s' = (view s)(invoice_key t i :=
         Some (RHash (draft_mapping t c a b (int (length es)) p x w), Some (clock s + 3600 * usec)))"
proof -
  have h: "as_hash (view s (invoice_key t i)) = Some []" by (simp add: new)
  obtain s' where "run exec (calculate_for t c a b) [Deliver, Deliver, Draws u, Reads w, Deliver, Deliver] s
      = (Done \<lparr>bc_invoice_id = i, bc_tenant_id = t, bc_customer_id = c, bc_period_start = a,
               bc_period_end = b, bc_event_count = int (length es),
               bc_amount = py_round (of_int (int (length es)) * p) 4\<rparr>, [], s')"
    and "view s' = (view s)(invoice_key t i :=
          Some (RHash (update_fields [] (draft_mapping t c a b (int (length es)) p
                 (py_round (of_int (int (length es)) * p) 4) w)), Some (clock s + INVOICE_TTL_SECONDS * usec)))"
    by (rule redis_server.calculate_run [OF srv es ph price i h refl])
  then show ?thesis
    using py_round_error [of "of_int (int (length es)) * p" 4]
    by (intro exI [of _ s'] exI [of _ "py_round (of_int (int (length es)) * p) 4"])
       (simp add: INVOICE_TTL_SECONDS_def py_round_idem)
qed

text \<open>A store with three events of \<open>globex\<close> and a price for one customer.\<close>

definition priced_store :: mem where
  "priced_store =
     put (stream_key ''globex'') (Some (RStream [(''1'', []), (''2'', []), (''3'', [])], None))
       (put (pricing_key ''globex'') (Some (RHash [(''cust-1'', Number (1/3))], None)) (mem_at 0))"

theorem calculate_stores_draft_witness:
  "\<exists>s' x. run mem_exec (calculate_for ''globex'' ''cust-1'' 0 1)
      [Deliver, Deliver, Draws ''abc'', Reads 5, Deliver, Deliver] priced_store
    = (Done \<lparr>bc_invoice_id = ''inv_abc'', bc_tenant_id = ''globex'', bc_customer_id = ''cust-1'',
             bc_period_start = 0, bc_period_end = 1, bc_event_count = 3, bc_amount = x\<rparr>, [], s')
    \<and> \<bar>x - 3 * (1/3)\<bar> \<le> 1 / 20000"
  using calculate_stores_draft [OF mem.redis_server_axioms, of priced_store "''globex''"
      "[(''1'', []), (''2'', []), (''3'', [])]" "[(''cust-1'', Number (1/3))]" "''cust-1''" "1/3"
      "''inv_abc''" "''abc''" 0 1 5]
  by (auto simp: priced_store_def rate_card_def mem_at_def)

text \<open>
  C31. A calculation that cannot price the events fails cleanly: when the stream or the
  pricing key holds another type, or the price is not a number, it raises and the store is
  as before; no draft exists.
\<close>

theorem calculate_fails_cleanly:
  assumes srv: "redis_server exec view clock elapse"
    and bad: "as_stream (view s (stream_key t)) = None \<or> as_hash (view s (pricing_key t)) = None
      \<or> (\<exists>ph e. as_hash (view s (pricing_key t)) = Some ph \<and> rate_card ph c = Inl e)"
  shows "\<exists>e tape'. run exec (calculate_for t c a b) (Deliver # Deliver # tape) s = (Raised e, tape', s)"
by (rule redis_server.calculate_bad [OF srv bad])

theorem calculate_fails_cleanly_witness:
  "\<exists>e tape'. run mem_exec (calculate_for ''globex'' ''cust-1'' 0 1) [Deliver, Deliver]
      (put (pricing_key ''globex'') (Some (RHash [(''cust-1'', Text ''free'')], None)) (mem_at 0))
    = (Raised e, tape', put (pricing_key ''globex'') (Some (RHash [(''cust-1'', Text ''free'')], None)) (mem_at 0))"
  using calculate_fails_cleanly [OF mem.redis_server_axioms,
      of "put (pricing_key ''globex'') (Some (RHash [(''cust-1'', Text ''free'')], None)) (mem_at 0)"
         "''globex''" "''cust-1''" 0 1 "[]"]
  by (simp add: rate_card_def mem_at_def)

text \<open>
  C30. Drafts are not always self-cleaning: if the process or the connection fails between
  the write and the \<open>EXPIRE\<close>, the caller gets no result and the draft stays without an
  expiry, for any length of time.
\<close>

theorem interrupted_draft_never_expires:
  assumes srv: "redis_server exec view clock elapse"
    and es: "as_stream (view s (stream_key t)) = Some es"
    and ph: "as_hash (view s (pricing_key t)) = Some ph"
    and price: "rate_card ph c = Inr p"
    and i: "i = ''inv_'' @ take 16 u" and new: "view s (invoice_key t i) = None"
    and fault: "tape = [] \<or> tape = [Unsent]"
  shows "\<exists>out s'. run exec (calculate_for t c a b) ([Deliver, Deliver, Draws u, Reads w, Deliver] @ tape) s
        = (out, [], s') \<and> (\<nexists>x. out = Done x)
    \<and> (\<forall>d. \<exists>h. view (elapse d s') (invoice_key t i) = Some (RHash h, None)
         \<and> map_of h ''status'' = Some (Text ''draft''))"
proof -
  let ?ps = "draft_mapping t c a b (int (length es)) p (py_round (of_int (int (length es)) * p) 4) w"
  obtain out s' where "run exec (calculate_for t c a b) ([Deliver, Deliver, Draws u, Reads w, Deliver] @ tape) s
        = (out, [], s')" "\<nexists>x. out = Done x"
    and v: "view s' = (view s)(invoice_key t i := Some (RHash (update_fields [] ?ps), None))"
    by (rule redis_server.calculate_interrupted [OF srv es ph price i new fault refl])
  moreover have "view (elapse d s') (invoice_key t i) = Some (RHash ?ps, None)" for d
    using redis_server.elapse_live [OF srv, of s' "invoice_key t i" d] by (simp add: v)
  ultimately show ?thesis by auto
qed

theorem interrupted_draft_never_expires_witness:
  "\<exists>out s'. run mem_exec (calculate_for ''globex'' ''cust-1'' 0 1)
      [Deliver, Deliver, Draws ''abc'', Reads 5, Deliver, Unsent] priced_store = (out, [], s')
    \<and> mem_data (mem_elapse 99999999999999 s') (invoice_key ''globex'' ''inv_abc'') \<noteq> None"
proof -
  have "\<exists>out s'. run mem_exec (calculate_for ''globex'' ''cust-1'' 0 1)
        ([Deliver, Deliver, Draws ''abc'', Reads 5, Deliver] @ [Unsent]) priced_store = (out, [], s')
      \<and> (\<nexists>x. out = Done x)
      \<and> (\<forall>d. \<exists>h. mem_data (mem_elapse d s') (invoice_key ''globex'' ''inv_abc'') = Some (RHash h, None)
         \<and> map_of h ''status'' = Some (Text ''draft''))"
    by (rule interrupted_draft_never_expires [OF mem.redis_server_axioms, of _ _
        "[(''1'', []), (''2'', []), (''3'', [])]" "[(''cust-1'', Number (1/3))]" _ "1/3" _ "''abc''"])
       (simp_all add: priced_store_def rate_card_def mem_at_def)
  then show ?thesis by (metis option.discI append_Cons append_Nil)
qed

end
