(* ===== verification/Invoice_Generator.thy ===== *)
theory Invoice_Generator imports Billing_Calculator begin

text \<open>
  \<open>billing/application/invoice_generator.py\<close>: \<open>generate_for\<close> reads a draft, marks it issued
  and renews its hour. The lemmas give its behaviour on every branch, the round trip from
  \<open>calculate_for\<close>, what no interleaving of issuances can change in an invoice, and what
  happens when the draft expires between the read and the write.
\<close>

record GeneratedInvoice =
  gi_invoice_id :: string
  gi_tenant_id :: string
  gi_customer_id :: bulk
  gi_amount :: rat
  gi_status :: string
  gi_issued_at :: rat

text \<open>The reply of \<open>HGETALL\<close> as a dict.\<close>

fun reply_dict :: "reply \<Rightarrow> exn + (string \<times> bulk) list" where
  "reply_dict (RMap h) = Inr h"
| "reply_dict _ = Inl (OtherException ''TypeError'')"

definition dict_get :: "(string \<times> bulk) list \<Rightarrow> string \<Rightarrow> bulk \<Rightarrow> bulk" where
  "dict_get d k v = (case map_of d k of None \<Rightarrow> v | Some x \<Rightarrow> x)"

definition issued_mapping :: "rat \<Rightarrow> (string \<times> bulk) list" where
  "issued_mapping issued_at = [(''status'', Text ''issued''), (''issued_at'', Number issued_at)]"

definition generate_for :: "string \<Rightarrow> string \<Rightarrow> GeneratedInvoice prog" where
  "generate_for tenant_id invoice_id =
     (let key = invoice_key tenant_id invoice_id in
      bnd (redis_py (Cmd (HGETALL key))) (\<lambda>raw.
      bnd (lift_exn (reply_dict raw)) (\<lambda>draft.
      if draft = [] then Raise (InvoiceNotFound invoice_id)
      else Now (\<lambda>issued_at.
        bnd (redis_py (Cmd (HSET key (issued_mapping issued_at)))) (\<lambda>_.
        bnd (redis_py (Cmd (EXPIRE key 3600))) (\<lambda>_.
        bnd (lift_exn (float_of (dict_get draft ''amount'' (Number 0)))) (\<lambda>amount.
        Return
          \<lparr>gi_invoice_id = invoice_id, gi_tenant_id = tenant_id,
           gi_customer_id = dict_get draft ''customer_id'' (Text ''''),
           gi_amount = amount, gi_status = ''issued'', gi_issued_at = issued_at\<rparr>)))))))"

lemma issued_mapping_simps [simp]:
  "issued_mapping x \<noteq> []" "distinct (map fst (issued_mapping x))"
  by (simp_all add: issued_mapping_def)

lemma dict_get_map_of: "map_of d = map_of d' \<Longrightarrow> dict_get d = dict_get d'"
  by (simp add: dict_get_def fun_eq_iff)

text \<open>What issuing leaves in the hash.\<close>

lemma map_of_issued:
  "map_of (update_fields h (issued_mapping x)) f =
     (if f = ''status'' then Some (Text ''issued'') else if f = ''issued_at'' then Some (Number x)
      else map_of h f)"
  by (simp add: issued_mapping_def update_conv')

lemma dict_get_issued:
  "f \<noteq> ''status'' \<Longrightarrow> f \<noteq> ''issued_at'' \<Longrightarrow>
     dict_get (update_fields h (issued_mapping x)) f = dict_get h f"
  by (simp add: dict_get_def map_of_issued fun_eq_iff)

context redis_server
begin

lemma generate_missing:
  assumes "view s (invoice_key t i) = None"
  shows "run exec (generate_for t i) (Deliver # tape) s = (Raised (InvoiceNotFound i), tape, s)"
proof -
  have "as_hash (view s (invoice_key t i)) = Some []" by (simp add: assms)
  from hgetall [OF this] show ?thesis by (auto simp: generate_for_def prog_simps Let_def)
qed

text \<open>Reading a draft that is there.\<close>

lemma generate_reads:
  assumes h: "as_hash (view s (invoice_key t i)) = Some h" and "h \<noteq> []"
  obtains d where "map_of d = map_of h" and "d \<noteq> []"
    and "exec (HGETALL (invoice_key t i)) s = (RMap d, s)"
proof -
  from hgetall [OF h] obtain d where "exec (HGETALL (invoice_key t i)) s = (RMap d, s)" "map_of d = map_of h"
    by auto
  moreover from this(2) assms(2) have "d \<noteq> []" by (metis map_of_eq_empty_iff)
  ultimately show ?thesis using that by blast
qed

lemma generate_run:
  assumes h: "as_hash (view s (invoice_key t i)) = Some h" and ne: "h \<noteq> []"
  obtains s' where "run exec (generate_for t i) (Deliver # Reads w # Deliver # Deliver # tape) s
      = (case float_of (dict_get h ''amount'' (Number 0)) of
           Inl e \<Rightarrow> (Raised e, tape, s')
         | Inr x \<Rightarrow> (Done \<lparr>gi_invoice_id = i, gi_tenant_id = t,
             gi_customer_id = dict_get h ''customer_id'' (Text ''''), gi_amount = x,
             gi_status = ''issued'', gi_issued_at = w\<rparr>, tape, s'))"
    and "view s' = (view s)(invoice_key t i :=
           Some (RHash (update_fields h (issued_mapping w)), Some (clock s + 3600 * usec)))"
    and "clock s' = clock s"
proof -
  obtain d where d: "map_of d = map_of h" "d \<noteq> []" "exec (HGETALL (invoice_key t i)) s = (RMap d, s)"
    by (rule generate_reads [OF assms])
  have pos: "0 < (3600 :: int)" by simp
  obtain j1 s1 j2 s2 where
    "exec (HSET (invoice_key t i) (issued_mapping w)) s = (RInt j1, s1)"
    and "exec (EXPIRE (invoice_key t i) 3600) s1 = (RInt j2, s2)"
    and "view s2 = (view s)(invoice_key t i :=
           Some (RHash (update_fields h (issued_mapping w)), Some (clock s + 3600 * usec)))"
    and "clock s2 = clock s"
    by (rule hset_expire [OF h issued_mapping_simps(1) pos])
  with d dict_get_map_of [OF d(1)] show ?thesis
    by (intro that [of s2]) (simp_all add: generate_for_def prog_simps Let_def split: sum.split)
qed

text \<open>A draft with a readable amount.\<close>

lemma generate_done:
  assumes h: "as_hash (view s (invoice_key t i)) = Some h" and ne: "h \<noteq> []"
    and x: "float_of (dict_get h ''amount'' (Number 0)) = Inr x"
  obtains s' where "run exec (generate_for t i) (Deliver # Reads w # Deliver # Deliver # tape) s
      = (Done \<lparr>gi_invoice_id = i, gi_tenant_id = t, gi_customer_id = dict_get h ''customer_id'' (Text ''''),
           gi_amount = x, gi_status = ''issued'', gi_issued_at = w\<rparr>, tape, s')"
    and "view s' (invoice_key t i) = Some (RHash (update_fields h (issued_mapping w)), Some (clock s + 3600 * usec))"
proof -
  obtain s' where "run exec (generate_for t i) (Deliver # Reads w # Deliver # Deliver # tape) s
      = (case float_of (dict_get h ''amount'' (Number 0)) of
           Inl e \<Rightarrow> (Raised e, tape, s')
         | Inr x \<Rightarrow> (Done \<lparr>gi_invoice_id = i, gi_tenant_id = t,
             gi_customer_id = dict_get h ''customer_id'' (Text ''''), gi_amount = x,
             gi_status = ''issued'', gi_issued_at = w\<rparr>, tape, s'))"
    and v: "view s' = (view s)(invoice_key t i :=
           Some (RHash (update_fields h (issued_mapping w)), Some (clock s + 3600 * usec)))"
    by (rule generate_run [OF h ne])
  with that show ?thesis by (simp add: x v)
qed

end

text \<open>
  An invoice that is not there is not made up: when the key is gone (never drafted, or
  expired), issuing raises \<open>InvoiceNotFound\<close> and leaves the store as it was.
\<close>

theorem missing_invoice_is_not_issued:
  assumes srv: "redis_server exec view clock elapse" and "view s (invoice_key t i) = None"
  shows "run exec (generate_for t i) [Deliver] s = (Raised (InvoiceNotFound i), [], s)"
  by (rule redis_server.generate_missing [OF assms])

theorem missing_invoice_is_not_issued_witness:
  "run mem_exec (generate_for ''globex'' ''inv_1'') [Deliver] (mem_at 0)
     = (Raised (InvoiceNotFound ''inv_1''), [], mem_at 0)"
  by (rule missing_invoice_is_not_issued [OF mem.redis_server_axioms]) (simp add: mem_at_def)

text \<open>
  C17. The two phases fit: a draft calculated now and issued within the hour is issued with
  the customer and the amount the calculation reported; the stored invoice is the draft
  with its status and issue time set, and lives for another hour. Issuing again returns the
  same customer and amount.
\<close>

theorem calculated_invoice_is_issued:
  assumes srv: "redis_server exec view clock elapse"
    and es: "as_stream (view s (stream_key t)) = Some es"
    and ph: "as_hash (view s (pricing_key t)) = Some ph"
    and price: "rate_card ph c = Inr p"
    and i: "i = ''inv_'' @ take 16 u" and new: "view s (invoice_key t i) = None"
    and hour: "int d < 3600 * usec"
  shows "\<exists>s1 s2 calc inv h.
      run exec (calculate_for t c a b) [Deliver, Deliver, Draws u, Reads w, Deliver, Deliver] s = (Done calc, [], s1)
    \<and> run exec (generate_for t (bc_invoice_id calc)) [Deliver, Reads w', Deliver, Deliver] (elapse d s1) = (Done inv, [], s2)
    \<and> gi_customer_id inv = Text (bc_customer_id calc) \<and> gi_amount inv = bc_amount calc \<and> gi_status inv = ''issued''
    \<and> view s2 (invoice_key t i) = Some (RHash h, Some (clock s + int d + 3600 * usec))
    \<and> map_of h = (map_of (draft_mapping t c a b (int (length es)) p (bc_amount calc) w))
         (''status'' \<mapsto> Text ''issued'', ''issued_at'' \<mapsto> Number w')
    \<and> (\<exists>s3. run exec (generate_for t (bc_invoice_id calc)) [Deliver, Reads w'', Deliver, Deliver] s2
         = (Done (inv\<lparr>gi_issued_at := w''\<rparr>), [], s3))"
proof -
  define x where "x = py_round (of_int (int (length es)) * p) 4"
  define ps where "ps = draft_mapping t c a b (int (length es)) p x w"
  define ps' where "ps' = update_fields ps (issued_mapping w')"
  define inv_of where "inv_of h \<tau> = \<lparr>gi_invoice_id = i, gi_tenant_id = t,
      gi_customer_id = dict_get h ''customer_id'' (Text ''''), gi_amount = x, gi_status = ''issued'', gi_issued_at = \<tau>\<rparr>" for h \<tau>
  have ne: "ps \<noteq> []" "update_fields [] ps = ps" by (simp_all add: ps_def)
  have ne': "ps' \<noteq> []" unfolding ps'_def by (rule update_fields_nonempty) simp
  have f: "float_of (dict_get ps ''amount'' (Number 0)) = Inr x" "dict_get ps ''customer_id'' (Text []) = Text c"
    by (simp_all add: dict_get_def ps_def)
  then have f': "float_of (dict_get ps' ''amount'' (Number 0)) = Inr x" "dict_get ps' ''customer_id'' (Text []) = Text c"
    by (simp_all add: ps'_def dict_get_issued)
  have m: "map_of ps' = (map_of ps)(''status'' \<mapsto> Text ''issued'', ''issued_at'' \<mapsto> Number w')"
    by (rule ext) (simp add: map_of_issued ps'_def)
  have h: "as_hash (view s (invoice_key t i)) = Some []" by (simp add: new)
  obtain s1 where 1: "run exec (calculate_for t c a b) [Deliver, Deliver, Draws u, Reads w, Deliver, Deliver] s
      = (Done \<lparr>bc_invoice_id = i, bc_tenant_id = t, bc_customer_id = c, bc_period_start = a,
               bc_period_end = b, bc_event_count = int (length es), bc_amount = x\<rparr>, [], s1)"
    and v1: "view s1 = (view s)(invoice_key t i := Some (RHash (update_fields [] ps), Some (clock s + INVOICE_TTL_SECONDS * usec)))"
    and c1: "clock s1 = clock s"
    unfolding ps_def by (rule redis_server.calculate_run [OF srv es ph price i h x_def])
  have c2: "clock (elapse d s1) = clock s + int d" by (simp add: redis_server.clock_elapse [OF srv] c1)
  have "view (elapse d s1) (invoice_key t i) = view s1 (invoice_key t i)"
    by (rule redis_server.elapse_live [OF srv]) (use hour in \<open>simp add: v1 c1 INVOICE_TTL_SECONDS_def\<close>)
  then have h2: "as_hash (view (elapse d s1) (invoice_key t i)) = Some ps" by (simp add: v1 ne)
  obtain s2 where 2: "run exec (generate_for t i) [Deliver, Reads w', Deliver, Deliver] (elapse d s1)
      = (Done (inv_of ps w'), [], s2)"
    and v2: "view s2 (invoice_key t i) = Some (RHash ps', Some (clock s + int d + 3600 * usec))"
    unfolding ps'_def c2 [symmetric] inv_of_def by (rule redis_server.generate_done [OF srv h2 ne(1) f(1)])
  then have h3: "as_hash (view s2 (invoice_key t i)) = Some ps'" by simp
  obtain s3 where 3: "run exec (generate_for t i) [Deliver, Reads w'', Deliver, Deliver] s2
      = (Done (inv_of ps' w''), [], s3)"
    unfolding inv_of_def by (rule redis_server.generate_done [OF srv h3 ne' f'(1)])
  let ?calc = "\<lparr>bc_invoice_id = i, bc_tenant_id = t, bc_customer_id = c, bc_period_start = a,
      bc_period_end = b, bc_event_count = int (length es), bc_amount = x\<rparr>"
  show ?thesis
    by (intro exI [of _ s1] exI [of _ s2] exI [of _ ?calc] exI [of _ "inv_of ps w'"] exI [of _ ps'])
       (use 1 2 3 in \<open>simp add: inv_of_def f f' v2 m [unfolded ps_def]\<close>)
qed

theorem calculated_invoice_is_issued_witness:
  "\<exists>s1 s2 calc inv.
      run mem_exec (calculate_for ''globex'' ''cust-1'' 0 1)
        [Deliver, Deliver, Draws ''abc'', Reads 5, Deliver, Deliver] priced_store = (Done calc, [], s1)
    \<and> run mem_exec (generate_for ''globex'' (bc_invoice_id calc)) [Deliver, Reads 65, Deliver, Deliver]
        (mem_elapse 60000000 s1) = (Done inv, [], s2)
    \<and> gi_amount inv = bc_amount calc \<and> gi_status inv = ''issued''"
proof -
  let ?es = "[(''1'', []), (''2'', []), (''3'', [])] :: (string \<times> (string \<times> bulk) list) list"
  have es: "as_stream (mem_data priced_store (stream_key ''globex'')) = Some ?es"
    and ph: "as_hash (mem_data priced_store (pricing_key ''globex'')) = Some [(''cust-1'', Number (1/3))]"
    and price: "rate_card [(''cust-1'', Number (1/3))] ''cust-1'' = Inr (1/3)"
    and i: "''inv_abc'' = ''inv_'' @ take 16 ''abc''"
    and new: "mem_data priced_store (invoice_key ''globex'' ''inv_abc'') = None"
    and hour: "int 60000000 < 3600 * usec"
    by (simp_all add: priced_store_def rate_card_def mem_at_def)
  note calculated_invoice_is_issued [where s = priced_store and t = "''globex''" and es = ?es
      and ph = "[(''cust-1'', Number (1/3))]" and c = "''cust-1''" and p = "1/3" and i = "''inv_abc''"
      and u = "''abc''" and d = 60000000 and a = 0 and b = 1 and w = 5 and w' = 65 and w'' = 70,
      OF mem.redis_server_axioms es ph price i new hour]
  then show ?thesis by blast
qed


subsection \<open>Concurrent issuance\<close>

text \<open>
  What may reach an invoice once it is drafted: reads, stamps, renewals, and requests that
  name other keys. The rest of the hash is either the draft's or, after an expiry, gone.
\<close>

inductive invoice_call :: "string \<Rightarrow> call \<Rightarrow> bool" for k where
  elsewhere: "call_cmds (\<lambda>x. key_of x \<noteq> Some k) c \<Longrightarrow> invoice_call k c"
| reads: "invoice_call k (Cmd (HGETALL k))"
| stamps: "invoice_call k (Cmd (HSET k (issued_mapping w)))"
| renews: "INVOICE_TTL_SECONDS \<le> n \<Longrightarrow> invoice_call k (Cmd (EXPIRE k n))"

definition same_rest :: "(string \<times> bulk) list \<Rightarrow> (string \<times> bulk) list \<Rightarrow> bool" where
  "same_rest h h0 \<longleftrightarrow>
     (\<forall>f. f \<notin> {''status'', ''issued_at''} \<longrightarrow> map_of h f = map_of h0 f)"

text \<open>
  Until the instant \<open>until\<close> the stored fields are the draft's; later the key may have
  expired, and with it all fields but those a late issuance writes.
\<close>

definition agrees :: "(string \<times> bulk) list \<Rightarrow> int \<Rightarrow> int \<Rightarrow> entry option \<Rightarrow> bool" where
  "agrees h0 until now e \<longleftrightarrow>
     (\<exists>h dl. e = Some (RHash h, dl) \<and> same_rest h h0 \<and> (\<forall>d. dl = Some d \<longrightarrow> until \<le> d)) \<or>
     (until \<le> now \<and> (\<exists>h. as_hash e = Some h \<and> same_rest h []))"

lemma same_rest_stamp [simp]: "same_rest (update_fields h (issued_mapping w)) h0 = same_rest h h0"
  by (simp add: same_rest_def map_of_issued)

lemma as_hash_renewed [simp]: "as_hash (map_option (\<lambda>(v, _). (v, d)) e) = as_hash e"
  by (cases e rule: as_hash.cases) auto

lemma agrees_expired: "until \<le> now \<Longrightarrow> agrees h0 until now None"
  by (simp add: agrees_def same_rest_def)

lemma agrees_later: "agrees h0 until now e \<Longrightarrow> now \<le> now' \<Longrightarrow> agrees h0 until now' e"
  by (auto simp: agrees_def)

lemma agrees_stamped:
  assumes "agrees h0 until now e" and "as_hash e = Some h"
  shows "agrees h0 until now (Some (RHash (update_fields h (issued_mapping w)), deadline_of e))"
  using assms by (auto simp: agrees_def)

lemma agrees_renewed:
  assumes "agrees h0 until now e" and "until \<le> d"
  shows "agrees h0 until now (map_option (\<lambda>(v, _). (v, Some d)) e)"
  using assms by (auto simp: agrees_def)

sublocale redis_server \<subseteq> invoice: guarded_store exec elapse
    "invoice_call k" "\<lambda>s. start \<le> clock s \<and> agrees h0 until (clock s) (view s k) \<and> until \<le> start + INVOICE_TTL_SECONDS * usec"
    for k h0 until start
proof unfold_locales
  fix c s r s'
  assume "invoice_call k c" and sv: "serve exec c s = (r, s')"
    and "start \<le> clock s \<and> agrees h0 until (clock s) (view s k) \<and> until \<le> start + INVOICE_TTL_SECONDS * usec"
  then have t: "start \<le> clock s" and inv: "agrees h0 until (clock s) (view s k)" and u: "until \<le> start + INVOICE_TTL_SECONDS * usec"
    by simp_all
  from inv obtain h where h: "as_hash (view s k) = Some h" by (auto simp: agrees_def)
  from \<open>invoice_call k c\<close> have "agrees h0 until (clock s) (view s' k)"
  proof cases
    case elsewhere
    with sv inv show ?thesis using serve_frame by simp
  next
    case reads
    with sv hgetall [OF h] inv show ?thesis by auto
  next
    case (stamps w)
    obtain n s1 where "exec (HSET k (issued_mapping w)) s = (RInt n, s1)"
      and "view s1 = (view s)(k := Some (RHash (update_fields h (issued_mapping w)), deadline_of (view s k)))"
      by (rule hset_view [OF h issued_mapping_simps(1)])
    with sv stamps agrees_stamped [OF inv h, of w] show ?thesis by simp
  next
    case (renews n)
    then have pos: "0 < n" using invoice_ttl_pos by linarith
    obtain j s1 where "exec (EXPIRE k n) s = (RInt j, s1)"
      and "view s1 = (view s)(k := map_option (\<lambda>(v, _). (v, Some (clock s + n * usec))) (view s k))"
      by (rule expire_view [OF pos])
    moreover have "until \<le> clock s + n * usec" using t u renews(2) by linarith
    ultimately show ?thesis using sv renews agrees_renewed [OF inv] by simp
  qed
  with t u serve_clock [OF sv]
  show "start \<le> clock s' \<and> agrees h0 until (clock s') (view s' k) \<and> until \<le> start + INVOICE_TTL_SECONDS * usec" by simp
next
  fix s d
  assume "start \<le> clock s \<and> agrees h0 until (clock s) (view s k) \<and> until \<le> start + INVOICE_TTL_SECONDS * usec"
  then have t: "start \<le> clock s" and inv: "agrees h0 until (clock s) (view s k)" and u: "until \<le> start + INVOICE_TTL_SECONDS * usec"
    by simp_all
  have now: "clock (elapse d s) = clock s + int d" by (rule clock_elapse)
  have "agrees h0 until (clock (elapse d s)) (view (elapse d s) k)"
  proof (cases "until \<le> clock s + int d")
    case True
    from elapse_either [of d s k] show ?thesis
    proof
      assume "view (elapse d s) k = None"
      with agrees_expired [OF True] now show ?thesis by simp
    next
      assume "view (elapse d s) k = view s k"
      with agrees_later [OF inv, of "clock (elapse d s)"] now show ?thesis by simp
    qed
  next
    case False
    with inv obtain h dl where e: "view s k = Some (RHash h, dl)" "\<forall>d. dl = Some d \<longrightarrow> until \<le> d"
      by (auto simp: agrees_def)
    have "view (elapse d s) k = view s k" by (rule elapse_live) (use e False in auto)
    with agrees_later [OF inv, of "clock (elapse d s)"] now show ?thesis by simp
  qed
  with t u now show "start \<le> clock (elapse d s) \<and> agrees h0 until (clock (elapse d s)) (view (elapse d s) k)
      \<and> until \<le> start + INVOICE_TTL_SECONDS * usec" by simp
qed

context redis_server
begin

lemma reach_agrees:
  assumes "sys_reach exec elapse req s0 T (s, ps)"
    and "\<forall>p \<in> req. calls_in (invoice_call k) p" and "agrees h0 until (clock s0) (view s0 k)"
    and "until \<le> clock s0 + INVOICE_TTL_SECONDS * usec"
  shows "agrees h0 until (clock s) (view s k)"
  using invoice.reach_inv [OF assms(1,2), of "clock s0" h0 until] assms(3,4) by simp

end

lemma calls_in_generate: "calls_in (invoice_call k) (generate_for t i)"
proof (cases "invoice_key t i = k")
  case True
  then show ?thesis unfolding generate_for_def Let_def
    by (auto intro!: calls_in_bnd calls_in_redis_py invoice_call.intros simp: INVOICE_TTL_SECONDS_def lift_exn_def split: sum.split)
next
  case False
  then show ?thesis unfolding generate_for_def Let_def
    by (auto intro!: calls_in_bnd calls_in_redis_py invoice_call.elsewhere simp: lift_exn_def split: sum.split)
qed

text \<open>
  C18. What was agreed at calculation stays agreed: under any interleaving of issuances (of
  this or other invoices, with requests lost and time passing) with programs that do not
  name the invoice, every field of the stored invoice but the status and the issue time is
  the draft's, at least until the draft's deadline, and for an hour where it has none or a
  later one. After that the key may have expired; then none of those fields is there.
\<close>

theorem issuance_keeps_the_numbers:
  assumes srv: "redis_server exec view clock elapse"
    and reach: "sys_reach exec elapse req s0 T (s, ps)"
    and draft: "view s0 (invoice_key t i) = Some (RHash h0, dl)"
    and progs: "\<forall>p \<in> req. (\<exists>t' i'. p = generate_for t' i') \<or>
      calls_in (call_cmds (\<lambda>c. key_of c \<noteq> Some (invoice_key t i))) p"
    and until: "until = (case dl of None \<Rightarrow> clock s0 + 3600 * usec | Some d \<Rightarrow> min d (clock s0 + 3600 * usec))"
  shows "\<exists>h. as_hash (view s (invoice_key t i)) = Some h \<and> (same_rest h h0 \<or> until \<le> clock s \<and> same_rest h [])
    \<and> (clock s < until \<longrightarrow> same_rest h h0 \<and> view s (invoice_key t i) \<noteq> None)"
proof -
  have "\<forall>p \<in> req. calls_in (invoice_call (invoice_key t i)) p"
  proof
    fix p assume "p \<in> req"
    with progs consider t' i' where "p = generate_for t' i'"
      | "calls_in (call_cmds (\<lambda>c. key_of c \<noteq> Some (invoice_key t i))) p" by blast
    then show "calls_in (invoice_call (invoice_key t i)) p"
    proof cases
      case 1
      then show ?thesis by (simp add: calls_in_generate)
    next
      case 2
      then show ?thesis by (rule calls_in_mono) (rule invoice_call.elsewhere)
    qed
  qed
  moreover have "agrees h0 until (clock s0) (view s0 (invoice_key t i))"
    by (simp add: draft agrees_def same_rest_def until split: option.split)
  moreover have "until \<le> clock s0 + INVOICE_TTL_SECONDS * usec"
    by (simp add: until INVOICE_TTL_SECONDS_def split: option.split)
  ultimately have "agrees h0 until (clock s) (view s (invoice_key t i))"
    using redis_server.reach_agrees [OF srv reach] by blast
  then show ?thesis by (auto simp: agrees_def)
qed

theorem issuance_keeps_the_numbers_witness:
  "\<exists>s inv h. sys_reach mem_exec mem_elapse {generate_for ''globex'' ''inv_1''}
       (put (invoice_key ''globex'' ''inv_1'') (Some (RHash [(''amount'', Number 7)], None)) (mem_at 0)) 0 (s, [Return inv])
     \<and> as_hash (mem_data s (invoice_key ''globex'' ''inv_1'')) = Some h
     \<and> same_rest h [(''amount'', Number 7)]"
proof -
  let ?k = "invoice_key ''globex'' ''inv_1''" and ?p = "generate_for ''globex'' ''inv_1''"
  let ?s = "put ?k (Some (RHash [(''amount'', Number 7)], None)) (mem_at 0)"
  have h: "as_hash (mem_data ?s ?k) = Some [(''amount'', Number 7)]" by simp
  obtain s' where "run mem_exec ?p [Deliver, Reads 5, Deliver, Deliver] ?s =
      (case float_of (dict_get [(''amount'', Number 7)] ''amount'' (Number 0)) of
           Inl e \<Rightarrow> (Raised e, [], s')
         | Inr x \<Rightarrow> (Done \<lparr>gi_invoice_id = ''inv_1'', gi_tenant_id = ''globex'',
             gi_customer_id = dict_get [(''amount'', Number 7)] ''customer_id'' (Text []), gi_amount = x,
             gi_status = ''issued'', gi_issued_at = 5\<rparr>, [], s'))" and c: "mem_clock s' = mem_clock ?s"
    by (rule mem.generate_run [OF h]) simp_all
  then obtain inv where "run mem_exec ?p [Deliver, Reads 5, Deliver, Deliver] ?s = (Done inv, [], s')"
    by (simp add: dict_get_def)
  from run_alone_reaches [OF this singletonI]
  have r: "sys_reach mem_exec mem_elapse {?p} ?s 0 (s', [Return inv])" .
  have "mem_clock s' < mem_clock ?s + 3600 * usec" using c by simp
  with issuance_keeps_the_numbers [OF mem.redis_server_axioms r, of "''globex''" "''inv_1''" "[(''amount'', Number 7)]" None] r
  show ?thesis by fastforce
qed

text \<open>The program after its read of a draft \<open>d\<close>.\<close>

definition stamp :: "string \<Rightarrow> string \<Rightarrow> (string \<times> bulk) list \<Rightarrow> GeneratedInvoice prog" where
  "stamp t i d = Now (\<lambda>w.
     bnd (redis_py (Cmd (HSET (invoice_key t i) (issued_mapping w)))) (\<lambda>_.
     bnd (redis_py (Cmd (EXPIRE (invoice_key t i) 3600))) (\<lambda>_.
     bnd (lift_exn (float_of (dict_get d ''amount'' (Number 0)))) (\<lambda>amount.
     Return
       \<lparr>gi_invoice_id = i, gi_tenant_id = t, gi_customer_id = dict_get d ''customer_id'' (Text ''''),
        gi_amount = amount, gi_status = ''issued'', gi_issued_at = w\<rparr>))))"

lemma generate_for_stamp:
  "\<exists>k. generate_for t i = Call (Cmd (HGETALL (invoice_key t i))) k \<and> (\<forall>d. d \<noteq> [] \<longrightarrow> k (RMap d) = stamp t i d)"
  by (simp add: generate_for_def redis_py_def stamp_def Let_def)

lemma dict_get_stamped:
  "dict_get (update_fields [] (issued_mapping w)) ''amount'' v = v"
  "dict_get (update_fields [] (issued_mapping w)) ''customer_id'' v = v"
  by (simp_all add: dict_get_def map_of_issued)

context redis_server
begin

lemma stamp_run:
  assumes h: "as_hash (view s (invoice_key t i)) = Some h"
    and x: "float_of (dict_get d ''amount'' (Number 0)) = Inr x"
  obtains s' where "run exec (stamp t i d) (Reads w # Deliver # Deliver # tape) s
      = (Done \<lparr>gi_invoice_id = i, gi_tenant_id = t,
           gi_customer_id = dict_get d ''customer_id'' (Text ''''), gi_amount = x,
           gi_status = ''issued'', gi_issued_at = w\<rparr>, tape, s')"
    and "view s' (invoice_key t i) = Some (RHash (update_fields h (issued_mapping w)), Some (clock s + 3600 * usec))"
proof -
  have pos: "0 < (3600 :: int)" by simp
  obtain j1 s1 j2 s2 where
    "exec (HSET (invoice_key t i) (issued_mapping w)) s = (RInt j1, s1)"
    and "exec (EXPIRE (invoice_key t i) 3600) s1 = (RInt j2, s2)"
    and "view s2 = (view s)(invoice_key t i :=
           Some (RHash (update_fields h (issued_mapping w)), Some (clock s + 3600 * usec)))"
    by (rule hset_expire [OF h issued_mapping_simps(1) pos])
  with x show ?thesis by (intro that [of s2]) (simp_all add: stamp_def prog_simps)
qed

lemma issue_across_expiry:
  assumes e: "view s (invoice_key t i) = Some (RHash h, Some dl)" and ne: "h \<noteq> []"
    and x: "float_of (dict_get h ''amount'' (Number 0)) = Inr x" and late: "dl < clock s + int d"
  obtains s' where "sys_reach exec elapse {generate_for t i} s d
      (s', [Return \<lparr>gi_invoice_id = i, gi_tenant_id = t,
           gi_customer_id = dict_get h ''customer_id'' (Text ''''), gi_amount = x,
           gi_status = ''issued'', gi_issued_at = w\<rparr>])"
    and "as_hash (view s' (invoice_key t i)) = Some (update_fields [] (issued_mapping w))"
proof -
  let ?p = "generate_for t i"
  have h: "as_hash (view s (invoice_key t i)) = Some h" by (simp add: e)
  obtain dd where dd: "map_of dd = map_of h" "dd \<noteq> []" "exec (HGETALL (invoice_key t i)) s = (RMap dd, s)"
    by (rule generate_reads [OF h ne])
  obtain k where k: "?p = Call (Cmd (HGETALL (invoice_key t i))) k" "k (RMap dd) = stamp t i dd"
    using generate_for_stamp [of t i] dd(2) by auto
  have "sys_reach exec elapse {?p} s (0 + 0) (s, [] @ [?p])"
    by (rule sys_reach.step [OF sys_reach.start sys_step.arrives]) simp
  then have "sys_reach exec elapse {?p} s 0 (s, [?p])" by simp
  from sys_moves(1) [OF this, of 0 "Cmd (HGETALL (invoice_key t i))" k "RMap dd" s] k dd(3)
  have "sys_reach exec elapse {?p} s 0 (s, [stamp t i dd])" by simp
  from sys_reach.step [OF this sys_step.passes]
  have r: "sys_reach exec elapse {?p} s d (elapse d s, [stamp t i dd])" by simp
  have dead: "view (elapse d s) (invoice_key t i) = None"
    by (rule elapse_dead [of _ _ dl]) (simp_all add: e late)
  then have h2: "as_hash (view (elapse d s) (invoice_key t i)) = Some []" by simp
  have x2: "float_of (dict_get dd ''amount'' (Number 0)) = Inr x"
    using x dict_get_map_of [OF dd(1)] by simp
  obtain s' where "run exec (stamp t i dd) [Reads w, Deliver, Deliver] (elapse d s)
      = (Done \<lparr>gi_invoice_id = i, gi_tenant_id = t,
           gi_customer_id = dict_get dd ''customer_id'' (Text ''''), gi_amount = x,
           gi_status = ''issued'', gi_issued_at = w\<rparr>, [], s')"
    and v: "view s' (invoice_key t i) = Some (RHash (update_fields [] (issued_mapping w)), Some (clock (elapse d s) + 3600 * usec))"
    by (rule stamp_run [OF h2 x2])
  from run_reaches [OF this(1) r, of 0] v dict_get_map_of [OF dd(1)] show ?thesis
    by (intro that [of s']) simp_all
qed

end

text \<open>
  C28. The read and the write are not atomic: a draft that expires between them is issued
  all the same. The caller is told the draft's amount, but what is stored is an issued
  invoice without customer or amount, and issuing it again succeeds with amount zero
  instead of raising \<open>InvoiceNotFound\<close>.
\<close>

theorem expiring_draft_becomes_empty_invoice:
  assumes srv: "redis_server exec view clock elapse"
    and e: "view s (invoice_key t i) = Some (RHash h, Some dl)" and ne: "h \<noteq> []"
    and x: "float_of (dict_get h ''amount'' (Number 0)) = Inr x" and late: "dl < clock s + int d"
  shows "\<exists>s' inv s'' inv'. sys_reach exec elapse {generate_for t i} s d (s', [Return inv])
    \<and> gi_status inv = ''issued'' \<and> gi_amount inv = x
    \<and> (\<exists>g. as_hash (view s' (invoice_key t i)) = Some g \<and> map_of g ''status'' = Some (Text ''issued'') \<and> map_of g ''amount'' = None)
    \<and> run exec (generate_for t i) [Deliver, Reads w', Deliver, Deliver] s' = (Done inv', [], s'')
    \<and> gi_amount inv' = 0 \<and> gi_customer_id inv' = Text ''''"
proof -
  let ?g = "update_fields [] (issued_mapping w')"
  let ?inv = "\<lparr>gi_invoice_id = i, gi_tenant_id = t,
           gi_customer_id = dict_get h ''customer_id'' (Text ''''), gi_amount = x,
           gi_status = ''issued'', gi_issued_at = w'\<rparr>"
  obtain s' where r: "sys_reach exec elapse {generate_for t i} s d (s', [Return ?inv])"
    and g: "as_hash (view s' (invoice_key t i)) = Some ?g"
    by (rule redis_server.issue_across_expiry [OF srv e ne x late])
  have gne: "?g \<noteq> []" by (rule update_fields_nonempty) simp
  obtain s'' where "run exec (generate_for t i) [Deliver, Reads w', Deliver, Deliver] s'
      = (case float_of (dict_get ?g ''amount'' (Number 0)) of
           Inl e \<Rightarrow> (Raised e, [], s'')
         | Inr x \<Rightarrow> (Done \<lparr>gi_invoice_id = i, gi_tenant_id = t,
             gi_customer_id = dict_get ?g ''customer_id'' (Text ''''), gi_amount = x,
             gi_status = ''issued'', gi_issued_at = w'\<rparr>, [], s''))"
    by (rule redis_server.generate_run [OF srv g gne])
  then have "run exec (generate_for t i) [Deliver, Reads w', Deliver, Deliver] s'
      = (Done \<lparr>gi_invoice_id = i, gi_tenant_id = t, gi_customer_id = Text '''', gi_amount = 0,
           gi_status = ''issued'', gi_issued_at = w'\<rparr>, [], s'')"
    by (simp add: dict_get_stamped)
  then show ?thesis
    by - (rule exI [of _ s'], rule exI [of _ ?inv], rule exI [of _ s''], use r g in \<open>simp add: map_of_issued\<close>)
qed

theorem expiring_draft_becomes_empty_invoice_witness:
  "\<exists>s' inv. sys_reach mem_exec mem_elapse {generate_for ''globex'' ''inv_1''}
       (put (invoice_key ''globex'' ''inv_1'') (Some (RHash [(''amount'', Number 7)], Some 10)) (mem_at 0)) 20 (s', [Return inv])
     \<and> gi_amount inv = 7
     \<and> (\<exists>g. as_hash (mem_data s' (invoice_key ''globex'' ''inv_1'')) = Some g \<and> map_of g ''amount'' = None)"
  using expiring_draft_becomes_empty_invoice [OF mem.redis_server_axioms, where t = "''globex''" and i = "''inv_1''"
      and s = "put (invoice_key ''globex'' ''inv_1'') (Some (RHash [(''amount'', Number 7)], Some 10)) (mem_at 0)"
      and h = "[(''amount'', Number 7)]" and dl = 10 and x = 7 and d = 20 and w' = 5]
  by (simp add: dict_get_def mem_at_def) blast

text \<open>
  C29. A colon in the tenant id breaks the namespace: a draft of tenant \<open>t:x\<close> is also the
  draft \<open>x:i\<close> of tenant \<open>t\<close>, who can issue it and is told its customer and amount.
\<close>

theorem colon_tenant_issues_others_draft:
  assumes srv: "redis_server exec view clock elapse"
    and draft: "view s (invoice_key (t @ '':'' @ x) i) = Some (RHash h, dl)" and ne: "h \<noteq> []"
    and amount: "float_of (dict_get h ''amount'' (Number 0)) = Inr a"
  shows "t \<noteq> t @ '':'' @ x \<and>
    (\<exists>s'. run exec (generate_for t (x @ '':'' @ i)) [Deliver, Reads w, Deliver, Deliver] s
      = (Done \<lparr>gi_invoice_id = x @ '':'' @ i, gi_tenant_id = t,
           gi_customer_id = dict_get h ''customer_id'' (Text ''''), gi_amount = a,
           gi_status = ''issued'', gi_issued_at = w\<rparr>, [], s')
    \<and> (\<exists>h' dl'. view s' (invoice_key (t @ '':'' @ x) i) = Some (RHash h', dl') \<and> map_of h' ''status'' = Some (Text ''issued'')))"
proof -
  have h: "as_hash (view s (invoice_key t (x @ '':'' @ i))) = Some h"
    using draft by (simp only: colon_key_shared) simp
  obtain s' where "run exec (generate_for t (x @ '':'' @ i)) [Deliver, Reads w, Deliver, Deliver] s
      = (case float_of (dict_get h ''amount'' (Number 0)) of
           Inl e \<Rightarrow> (Raised e, [], s')
         | Inr a \<Rightarrow> (Done \<lparr>gi_invoice_id = x @ '':'' @ i, gi_tenant_id = t,
             gi_customer_id = dict_get h ''customer_id'' (Text ''''), gi_amount = a,
             gi_status = ''issued'', gi_issued_at = w\<rparr>, [], s'))"
    and "view s' = (view s)(invoice_key t (x @ '':'' @ i) :=
           Some (RHash (update_fields h (issued_mapping w)), Some (clock s + 3600 * usec)))"
    by (rule redis_server.generate_run [OF srv h ne])
  then show ?thesis
    by (intro conjI exI [of _ s']) (simp_all add: amount map_of_issued colon_key_shared [simplified])
qed

theorem colon_tenant_issues_others_draft_witness:
  "\<exists>s'. run mem_exec (generate_for ''acme'' ''eu:inv_1'') [Deliver, Reads 5, Deliver, Deliver]
      (put (invoice_key ''acme:eu'' ''inv_1'') (Some (RHash [(''amount'', Number 7)], None)) (mem_at 0))
    = (Done \<lparr>gi_invoice_id = ''eu:inv_1'', gi_tenant_id = ''acme'', gi_customer_id = Text [], gi_amount = 7,
         gi_status = ''issued'', gi_issued_at = 5\<rparr>, [], s')"
  using colon_tenant_issues_others_draft [OF mem.redis_server_axioms, where t = "''acme''" and x = "''eu''" and i = "''inv_1''"
      and s = "put (invoice_key ''acme:eu'' ''inv_1'') (Some (RHash [(''amount'', Number 7)], None)) (mem_at 0)"
      and h = "[(''amount'', Number 7)]" and dl = None and a = 7 and w = 5]
  by (simp add: dict_get_def) blast

end
