(* ===== verification/Application.thy ===== *)
theory Application imports Middleware Serializers Deduplication Invoice_Generator begin

text \<open>
  \<open>billing/interfaces/api/incoming/views.py\<close>, \<open>urls.py\<close>, and the order of the middleware in
  \<open>billing_platform/settings.py\<close>: the three views, the routes, and the whole application as a
  handler. Django and Django REST framework are a parameter, the record \<open>framework\<close>: the
  reading of a request body against declared fields, the rendering of an exception that
  leaves a view or a middleware, Django's own middleware, and every other route and method.
\<close>

record 'b framework =
  fw_fields :: "fields \<Rightarrow> 'b \<Rightarrow> exn + validated"
  fw_on_error :: "exn \<Rightarrow> HttpResponse"
  fw_inner :: "'b handler \<Rightarrow> 'b handler"
  fw_other :: "'b handler"

subsection \<open>The views\<close>

fun py_truthy :: "pyvalue \<Rightarrow> bool" where
  "py_truthy (PyStr s) = (s \<noteq> [])"
| "py_truthy (PyFloat x) = (x \<noteq> 0)"
| "py_truthy (PyDatetime t) = True"
| "py_truthy (PyDict d) = (d \<noteq> [])"

text \<open>\<open>float(data.get("value", 1.0))\<close> and \<open>data.get("properties") or {}\<close>\<close>

definition value_or_one :: "validated \<Rightarrow> exn + rat" where
  "value_or_one data = (case map_of data ''value'' of None \<Rightarrow> Inr 1 | Some v \<Rightarrow> field_float v)"

definition properties_or_empty :: "validated \<Rightarrow> exn + (string \<times> json) list" where
  "properties_or_empty data =
     (case map_of data ''properties'' of
        None \<Rightarrow> Inr [] | Some v \<Rightarrow> if py_truthy v then py_dict v else Inr [])"

definition event_command :: "string \<Rightarrow> validated \<Rightarrow> exn + IngestEventCommand" where
  "event_command tenant_id data =
     try_bind (dict_item data ''event_name'' py_str) (\<lambda>event_name.
     try_bind (dict_item data ''customer_id'' py_str) (\<lambda>customer_id.
     try_bind (dict_item data ''timestamp'' py_datetime) (\<lambda>timestamp.
     try_bind (dict_item data ''idempotency_key'' py_str) (\<lambda>idempotency_key.
     try_bind (value_or_one data) (\<lambda>val.
     try_bind (properties_or_empty data) (\<lambda>props.
     Inr \<lparr>ev_tenant_id = tenant_id, ev_event_name = event_name, ev_customer_id = customer_id,
          ev_timestamp = timestamp, ev_idempotency_key = idempotency_key,
          ev_value = val, ev_properties = props\<rparr>))))))"

lemma event_command_tenant: "event_command t data = Inr c \<Longrightarrow> ev_tenant_id c = t"
  by (auto simp: event_command_def try_bind_Inr)

definition ingest_response :: "string \<Rightarrow> IngestEventResult \<Rightarrow> HttpResponse" where
  "ingest_response tenant_id result =
     \<lparr>resp_status = 202,
      resp_content = JObj [(''event_id'', JStr (event_id result)), (''tenant'', JStr tenant_id),
        (''duplicate'', JBool (duplicate result)), (''accepted'', JNum 1)],
      retry_after = None\<rparr>"

definition ingest_view :: "'b framework \<Rightarrow> 'b handler" where
  "ingest_view fw request =
     bnd (lift_exn (resolve_tenant request)) (\<lambda>tenant_id.
     bnd (lift_exn (is_valid (fw_fields fw) UsageEventSerializer (req_body request))) (\<lambda>data.
     bnd (lift_exn (event_command tenant_id data)) (\<lambda>command.
     bnd (ingest_event command) (\<lambda>result.
     Return (ingest_response tenant_id result)))))"

definition calculation_response :: "string \<Rightarrow> BillingCalculation \<Rightarrow> HttpResponse" where
  "calculation_response tenant_id result =
     \<lparr>resp_status = 200,
      resp_content = JObj [(''invoice_id'', JStr (bc_invoice_id result)), (''tenant'', JStr tenant_id),
        (''customer_id'', JStr (bc_customer_id result)),
        (''period_start'', JText (Iso (bc_period_start result))),
        (''period_end'', JText (Iso (bc_period_end result))),
        (''event_count'', JNum (of_int (bc_event_count result))),
        (''amount'', JNum (bc_amount result)), (''status'', JStr ''draft'')],
      retry_after = None\<rparr>"

definition calculate_view :: "'b framework \<Rightarrow> 'b handler" where
  "calculate_view fw request =
     bnd (lift_exn (resolve_tenant request)) (\<lambda>tenant_id.
     bnd (lift_exn (is_valid (fw_fields fw) BillingCalculateSerializer (req_body request))) (\<lambda>data.
     bnd (lift_exn (dict_item data ''customer_id'' py_str)) (\<lambda>customer_id.
     bnd (lift_exn (dict_item data ''period_start'' py_datetime)) (\<lambda>period_start.
     bnd (lift_exn (dict_item data ''period_end'' py_datetime)) (\<lambda>period_end.
     bnd (calculate_for tenant_id customer_id period_start period_end) (\<lambda>result.
     Return (calculation_response tenant_id result)))))))"

definition not_found_response :: "string \<Rightarrow> string \<Rightarrow> HttpResponse" where
  "not_found_response tenant_id invoice_id =
     \<lparr>resp_status = 404,
      resp_content = JObj [(''error'', JStr ''invoice_not_found''), (''tenant'', JStr tenant_id),
        (''invoice_id'', JStr invoice_id)],
      retry_after = None\<rparr>"

definition issued_response :: "string \<Rightarrow> GeneratedInvoice \<Rightarrow> HttpResponse" where
  "issued_response tenant_id result =
     \<lparr>resp_status = 200,
      resp_content = JObj [(''invoice_id'', JStr (gi_invoice_id result)), (''tenant'', JStr tenant_id),
        (''customer_id'', JText (gi_customer_id result)), (''amount'', JNum (gi_amount result)),
        (''status'', JStr (gi_status result)), (''issued_at'', JNum (gi_issued_at result))],
      retry_after = None\<rparr>"

definition generate_view :: "'b framework \<Rightarrow> 'b handler" where
  "generate_view fw request =
     bnd (lift_exn (resolve_tenant request)) (\<lambda>tenant_id.
     bnd (lift_exn (is_valid (fw_fields fw) InvoiceGenerateSerializer (req_body request))) (\<lambda>data.
     bnd (lift_exn (dict_item data ''invoice_id'' py_str)) (\<lambda>invoice_id.
     try_else (generate_for tenant_id invoice_id)
       (\<lambda>e. case e of InvoiceNotFound _ \<Rightarrow> Return (not_found_response tenant_id invoice_id) | _ \<Rightarrow> Raise e)
       (\<lambda>result. Return (issued_response tenant_id result)))))"

subsection \<open>Routes and middleware\<close>

definition urlpatterns :: "(string \<times> ('b framework \<Rightarrow> 'b handler)) list" where
  "urlpatterns =
    [(''events/ingest'', ingest_view),
     (''billing/calculate'', calculate_view),
     (''invoices/generate'', generate_view)]"

text \<open>\<open>path("api/v1/", include(...))\<close>; the views implement \<open>post\<close> only.\<close>

definition route :: "'b framework \<Rightarrow> 'b handler" where
  "route fw request =
     (case map_of (map (\<lambda>(u, v). (''/api/v1/'' @ u, v)) urlpatterns) (req_path request) of
        Some view \<Rightarrow>
          if req_method request = ''POST''
          then catch (view fw request) (\<lambda>e. Return (fw_on_error fw e))
          else fw_other fw request
      | None \<Rightarrow> fw_other fw request)"

text \<open>Django's wrapper around every handler of the chain: an exception becomes a response.\<close>

definition converted :: "'b framework \<Rightarrow> 'b handler \<Rightarrow> 'b handler" where
  "converted fw h request = catch (h request) (\<lambda>e. Return (fw_on_error fw e))"

text \<open>\<open>MIDDLEWARE\<close>, outermost first; Django's own entries, all inside ours, are \<open>fw_inner\<close>.\<close>

definition MIDDLEWARE :: "'b framework \<Rightarrow> ('b handler \<Rightarrow> 'b handler) list" where
  "MIDDLEWARE fw = [rate_limit_middleware, concurrency_middleware, fw_inner fw]"

definition application :: "'b framework \<Rightarrow> 'b handler" where
  "application fw = foldr (\<lambda>mw h. converted fw (mw h)) (MIDDLEWARE fw) (converted fw (route fw))"

lemma application_layers:
  "application fw = converted fw (rate_limit_middleware (converted fw (concurrency_middleware
     (converted fw (fw_inner fw (converted fw (route fw)))))))"
  by (simp add: application_def MIDDLEWARE_def)

subsection \<open>What the framework is relied on for\<close>

text \<open>
  On the modelled parts of requests and responses Django's own middleware passes requests
  through; the other routes do not use this program's Redis client; a body that is accepted
  has given each declared field a value of the documented form (bodies whose numbers are
  not finite are left out); a \<open>ValidationError\<close> is answered with status 400.
\<close>

definition framework_ok :: "'b framework \<Rightarrow> bool" where
  "framework_ok fw \<longleftrightarrow>
     (\<forall>h r. fw_inner fw h r = h r) \<and>
     (\<forall>r. calls_in (\<lambda>_. False) (fw_other fw r)) \<and>
     (\<forall>fs b data. fw_fields fw fs b = Inr data \<longrightarrow> fields_ok fs data) \<and>
     (\<forall>d. resp_status (fw_on_error fw (ValidationError d)) = 400)"

text \<open>A framework for witnesses: bodies are dictionaries.\<close>

definition sample_framework :: "validated framework" where
  "sample_framework =
     \<lparr>fw_fields = sample_parse,
      fw_on_error = (\<lambda>e. \<lparr>resp_status = (case e of ValidationError _ \<Rightarrow> 400 | _ \<Rightarrow> 500),
        resp_content = (case e of ValidationError d \<Rightarrow> d | _ \<Rightarrow> JNull), retry_after = None\<rparr>),
      fw_inner = (\<lambda>h. h),
      fw_other = (\<lambda>r. Return \<lparr>resp_status = 404, resp_content = JNull, retry_after = None\<rparr>)\<rparr>"

lemma sample_framework_ok: "framework_ok sample_framework"
  by (simp add: framework_ok_def sample_framework_def sample_parse_ok)

lemma framework_fields: "framework_ok fw \<Longrightarrow> fw_fields fw fs b = Inr data \<Longrightarrow> fields_ok fs data"
  by (auto simp: framework_ok_def)

subsection \<open>Validated data are what the use cases expect\<close>

definition command_ok :: "IngestEventCommand \<Rightarrow> bool" where
  "command_ok c \<longleftrightarrow> ev_event_name c \<noteq> [] \<and> length (ev_event_name c) \<le> 128 \<and> ev_customer_id c \<noteq> [] \<and>
     ev_idempotency_key c \<noteq> [] \<and> 0 \<le> ev_value c"

lemma valid_event_command:
  assumes "fields_ok (declared_fields UsageEventSerializer) data"
  obtains c where "event_command t data = Inr c" and "command_ok c" and "ev_tenant_id c = t"
    and "map_of data ''idempotency_key'' = Some (PyStr (ev_idempotency_key c))"
proof -
  obtain n u ts i x d where "map_of data ''event_name'' = Some (PyStr n)" "map_of data ''customer_id'' = Some (PyStr u)"
    "map_of data ''timestamp'' = Some (PyDatetime ts)" "map_of data ''idempotency_key'' = Some (PyStr i)"
    "map_of data ''value'' = Some (PyFloat x)" "map_of data ''properties'' = Some (PyDict d)"
    and "n \<noteq> []" "length n \<le> 128" "u \<noteq> []" "i \<noteq> []" "0 \<le> x"
    using assms by (auto simp: UsageEventSerializer_def conforms_CharField conforms_others)
  then show ?thesis
    by (intro that [of "\<lparr>ev_tenant_id = t, ev_event_name = n, ev_customer_id = u, ev_timestamp = ts,
          ev_idempotency_key = i, ev_value = x, ev_properties = d\<rparr>"])
       (simp_all add: event_command_def value_or_one_def properties_or_empty_def dict_item_present command_ok_def)
qed

lemma valid_usage: "is_valid (fw_fields fw) UsageEventSerializer b = Inr data \<longleftrightarrow>
    fw_fields fw (declared_fields UsageEventSerializer) b = Inr data"
  by (auto simp: is_valid_def try_bind_Inr UsageEventSerializer_def)

lemma valid_invoice: "is_valid (fw_fields fw) InvoiceGenerateSerializer b = Inr data \<longleftrightarrow>
    fw_fields fw (declared_fields InvoiceGenerateSerializer) b = Inr data"
  by (auto simp: is_valid_def try_bind_Inr InvoiceGenerateSerializer_def)

lemma valid_invoice_data:
  assumes "fields_ok (declared_fields InvoiceGenerateSerializer) data"
  obtains i where "map_of data ''invoice_id'' = Some (PyStr i)" and "i \<noteq> []" and "length i \<le> 64"
  using assms by (auto simp: InvoiceGenerateSerializer_def conforms_CharField)

subsection \<open>The Redis calls of a request\<close>

text \<open>
  What a request of tenant \<open>t\<close> may ask of the server: slots of its own semaphore under its
  own cap, draws on its own bucket under its own plan, and commands on its own other keys.
\<close>

definition data_cmd :: "string \<Rightarrow> rcmd \<Rightarrow> bool" where
  "data_cmd t c = (case key_of c of None \<Rightarrow> True | Some k \<Rightarrow>
     k \<in> tenant_keys t \<and> k \<noteq> concurrency_key t \<and> k \<noteq> bucket_key t)"

inductive tenant_call :: "string \<Rightarrow> call \<Rightarrow> bool" for t where
  data: "call_cmds (data_cmd t) c \<Longrightarrow> tenant_call t c"
| takes: "tenant_call t (Eval (acquire_lua (concurrency_key t) (concurrency_cap t) now cutoff slot SLOT_TTL_SECONDS))"
| gives: "tenant_call t (Cmd (ZREM (concurrency_key t) slot))"
| draws: "0 \<le> x \<Longrightarrow>
    tenant_call t (Eval (token_bucket_lua (bucket_key t) (plan_capacity t) (plan_rate t) x BUCKET_TTL_SECONDS))"

lemma tenant_keys_last [simp]:
  "concurrency_key u \<in> tenant_keys t \<longleftrightarrow> u = t" "bucket_key u \<in> tenant_keys t \<longleftrightarrow> u = t"
  by (auto simp: tenant_keys_def)

lemma acquire_lua_cmds:
  "(\<And>c. key_of c = Some k \<Longrightarrow> P c) \<Longrightarrow> lua_cmds P (acquire_lua k cap now cutoff slot ttl)"
  by (auto simp: acquire_lua_def split: reply.split)

lemma acquire_lua_names:
  "lua_cmds P (acquire_lua k cap now cutoff slot ttl) \<Longrightarrow> \<exists>x. P x \<and> key_of x = Some k"
  by (auto simp: acquire_lua_def)

lemma bucket_lua_cmds:
  "P TIME \<Longrightarrow> (\<And>c. key_of c = Some k \<Longrightarrow> P c) \<Longrightarrow> lua_cmds P (token_bucket_lua k cap rate cost ttl)"
  by (auto simp: token_bucket_lua_def Let_def split: option.split)

lemma bucket_lua_names:
  assumes "lua_cmds P (token_bucket_lua k cap rate x ttl)"
  shows "P (HMGET k [''tokens'', ''last_refill''])"
  using assms [unfolded token_bucket_lua_def lua_cmds.simps, THEN conjunct2, THEN spec [of _ "RArray [RInt 0, RInt 0]"]]
  by (simp add: Let_def)

lemma tenant_call_semaphore:
  assumes "tenant_call t c"
  shows "semaphore_call (concurrency_key u) (concurrency_cap u) c"
  using assms
proof cases
  case data
  have free: "key_of x \<noteq> Some (concurrency_key u)" if "data_cmd t x" for x
    using that by (auto simp: data_cmd_def)
  show ?thesis by (rule semaphore_call.elsewhere [OF call_cmds_mono [OF data]]) (rule free)
next
  case (takes now cutoff slot)
  show ?thesis
  proof (cases "t = u")
    case True
    then show ?thesis by (simp only: takes True semaphore_call.takes)
  next
    case False
    then show ?thesis by (simp add: takes semaphore_call.elsewhere acquire_lua_cmds)
  qed
next
  case (gives slot)
  show ?thesis
  proof (cases "t = u")
    case True
    then show ?thesis by (simp only: gives True semaphore_call.gives)
  next
    case False
    then show ?thesis by (simp add: gives semaphore_call.elsewhere)
  qed
next
  case (draws x)
  show ?thesis unfolding draws(1) by (intro semaphore_call.elsewhere) (simp, rule bucket_lua_cmds, auto)
qed

lemma tenant_call_bucket:
  assumes "tenant_call t c"
  shows "bucket_call u c"
  using assms
proof cases
  case data
  have free: "key_of x \<noteq> Some (bucket_key u)" if "data_cmd t x" for x
    using that by (auto simp: data_cmd_def)
  show ?thesis by (rule bucket_call.elsewhere [OF call_cmds_mono [OF data]]) (rule free)
next
  case (takes now cutoff slot)
  then show ?thesis by (simp add: bucket_call.elsewhere acquire_lua_cmds)
next
  case (gives slot)
  then show ?thesis by (simp add: bucket_call.elsewhere)
next
  case (draws x)
  show ?thesis
  proof (cases "t = u")
    case True
    then show ?thesis using draws bucket_call.draws by simp
  next
    case False
    then show ?thesis unfolding draws(1) by (intro bucket_call.elsewhere) (simp, rule bucket_lua_cmds, auto)
  qed
qed

lemma tenant_call_keys:
  assumes "tenant_call t c"
  shows "call_cmds (\<lambda>x. key_of x \<in> insert None (Some ` tenant_keys t)) c"
  using assms
proof cases
  case data
  then show ?thesis by (rule call_cmds_mono) (auto simp: data_cmd_def split: option.splits)
qed (auto intro!: acquire_lua_cmds bucket_lua_cmds)

lemma calls_in_lift_exn [simp]: "calls_in P (lift_exn r)"
  by (simp add: lift_exn_def split: sum.split)

lemma data_cmd_simps [simp]:
  "data_cmd t (XLEN (stream_key t))" "data_cmd t (XADD (stream_key t) ps)"
  "data_cmd t (HGET (pricing_key t) f)" "data_cmd t (HSET (invoice_key t i) ps)"
  "data_cmd t (EXPIRE (invoice_key t i) n)" "data_cmd t (HGETALL (invoice_key t i))"
  "data_cmd t (SET_NX_EX (idempotency_key t j) b n)"
  by (simp_all add: data_cmd_def)

lemma check_and_consume_tenant: "calls_in (tenant_call t) (check_and_consume t e)"
proof -
  have "0 \<le> (of_int (cost_of e) :: rat)" using cost_of_bounds(1) [of e] by simp
  then show ?thesis
    unfolding check_and_consume_def consume_def Let_def
    by (auto simp: plan_for_limits intro!: calls_in_bnd calls_in_redis_py tenant_call.draws)
qed

lemma acquire_tenant: "calls_in (tenant_call t) (acquire (concurrency_key t) (concurrency_cap t))"
  unfolding acquire_def by (auto intro!: calls_in_bnd calls_in_redis_py tenant_call.takes)

lemma release_tenant: "calls_in (tenant_call t) (release (concurrency_key t) slot)"
  unfolding release_def by (auto intro!: calls_in_bnd calls_in_redis_py tenant_call.gives)

lemma data_call: "data_cmd t c \<Longrightarrow> tenant_call t (Cmd c)"
  by (rule tenant_call.data) simp

lemma ingest_tenant: "ev_tenant_id c = t \<Longrightarrow> calls_in (tenant_call t) (ingest_event c)"
  unfolding ingest_event_def record_event_def claim_idempotency_def Let_def
  by (auto intro!: calls_in_bnd calls_in_redis_py data_call)

lemma calculate_tenant: "calls_in (tenant_call t) (calculate_for t c a b)"
  unfolding calculate_for_def Let_def by (auto intro!: calls_in_bnd calls_in_redis_py data_call)

lemma generate_tenant: "calls_in (tenant_call t) (generate_for t i)"
  unfolding generate_for_def Let_def by (auto intro!: calls_in_bnd calls_in_redis_py data_call)

text \<open>A property of the calls holds of the application when it holds of the use cases.\<close>

lemma resolve_tenant_cases:
  obtains (none) d where "header_tenant r = []" and "resolve_tenant r = Inl (ValidationError d)"
    | (some) "header_tenant r \<noteq> []" and "resolve_tenant r = Inr (header_tenant r)"
  by (cases "header_tenant r = []") (auto simp: resolve_tenant_def Let_def)

lemma views_calls:
  assumes fw: "framework_ok fw"
    and "\<And>t c. t = header_tenant r \<Longrightarrow> ev_tenant_id c = t \<Longrightarrow> command_ok c \<Longrightarrow> t \<noteq> [] \<Longrightarrow> calls_in P (ingest_event c)"
    and "\<And>t c a b. t = header_tenant r \<Longrightarrow> t \<noteq> [] \<Longrightarrow> calls_in P (calculate_for t c a b)"
    and "\<And>t i. t = header_tenant r \<Longrightarrow> t \<noteq> [] \<Longrightarrow> calls_in P (generate_for t i)"
  shows "calls_in P (ingest_view fw r)" "calls_in P (calculate_view fw r)" "calls_in P (generate_view fw r)"
proof -
  let ?t = "header_tenant r"
  have "calls_in P (bnd (lift_exn (event_command ?t data)) (\<lambda>c. bnd (ingest_event c) (\<lambda>x. Return (ingest_response ?t x))))"
    if valid: "is_valid (fw_fields fw) UsageEventSerializer (req_body r) = Inr data" and ne: "?t \<noteq> []" for data
  proof -
    from valid have "fields_ok (declared_fields UsageEventSerializer) data"
      unfolding valid_usage by (rule framework_fields [OF fw])
    then obtain c where "event_command ?t data = Inr c" "command_ok c" "ev_tenant_id c = ?t"
      by (rule valid_event_command)
    with assms(2) [OF refl _ _ ne, of c] show ?thesis by (auto intro!: calls_in_bnd)
  qed
  then show "calls_in P (ingest_view fw r)"
    by (cases r rule: resolve_tenant_cases; cases "is_valid (fw_fields fw) UsageEventSerializer (req_body r)")
       (simp_all add: ingest_view_def)
  show "calls_in P (calculate_view fw r)"
    by (cases r rule: resolve_tenant_cases)
       (auto simp: calculate_view_def intro!: calls_in_bnd assms(3))
  show "calls_in P (generate_view fw r)"
    by (cases r rule: resolve_tenant_cases)
       (auto simp: generate_view_def intro!: calls_in_bnd calls_in_try_else assms(4) split: exn.split)
qed

lemma route_calls:
  assumes "framework_ok fw"
    and "calls_in P (ingest_view fw r)" "calls_in P (calculate_view fw r)" "calls_in P (generate_view fw r)"
  shows "calls_in P (route fw r)"
proof -
  from assms(1) have "calls_in (\<lambda>_. False) (fw_other fw r)" by (simp add: framework_ok_def)
  then have "calls_in P (fw_other fw r)" by (rule calls_in_mono) simp
  with assms(2-4) show ?thesis
    by (auto simp: route_def urlpatterns_def intro!: calls_in_catch split: option.split)
qed

lemma converted_calls: "calls_in P (h r) \<Longrightarrow> calls_in P (converted fw h r)"
  by (simp add: converted_def calls_in_catch)

lemma rate_limit_calls:
  assumes "calls_in P (h r)" and "header_tenant r \<noteq> [] \<Longrightarrow> calls_in P (check_and_consume (header_tenant r) (req_path r))"
  shows "calls_in P (rate_limit_middleware h r)"
  using assms by (auto simp: rate_limit_middleware_def reject_def Let_def intro!: calls_in_try_else calls_in_bnd)

lemma concurrency_calls:
  assumes "calls_in P (h r)"
    and "header_tenant r \<noteq> [] \<Longrightarrow> calls_in P (acquire (concurrency_key (header_tenant r)) (concurrency_cap (header_tenant r)))"
    and "\<And>slot. header_tenant r \<noteq> [] \<Longrightarrow> calls_in P (release (concurrency_key (header_tenant r)) slot)"
  shows "calls_in P (concurrency_middleware h r)"
proof (cases "req_path r \<notin> set HEAVY_ENDPOINTS \<or> header_tenant r = []")
  case True
  with assms(1) show ?thesis by (simp add: concurrency_passes)
next
  case False
  then have heavy: "req_path r \<in> set HEAVY_ENDPOINTS" "header_tenant r \<noteq> []" by simp_all
  show ?thesis unfolding concurrency_guarded [OF heavy]
    by (auto intro!: calls_in_try_else calls_in_finally calls_in_catch assms heavy(2))
qed

lemma application_transparent:
  assumes "framework_ok fw"
  shows "application fw = converted fw (rate_limit_middleware (converted fw (concurrency_middleware
     (converted fw (converted fw (route fw))))))"
proof -
  have "fw_inner fw h = h" for h using assms by (auto simp: framework_ok_def)
  then show ?thesis by (simp add: application_layers)
qed

lemma application_tenant_calls:
  assumes "framework_ok fw"
  shows "calls_in (tenant_call (header_tenant r)) (application fw r)"
  unfolding application_transparent [OF assms]
  by (intro converted_calls rate_limit_calls concurrency_calls route_calls [OF assms] views_calls [OF assms])
     (simp_all add: check_and_consume_tenant acquire_tenant release_tenant ingest_tenant
        calculate_tenant generate_tenant)


text \<open>The discipline of claiming first, for the application.\<close>

lemma harmless_simps [simp]:
  "harmless t idem TIME" "harmless t idem (HMGET (bucket_key u) fs)" "harmless t idem (HSET (bucket_key u) ps)"
  "harmless t idem (EXPIRE (bucket_key u) n)" "harmless t idem (ZREMRANGEBYSCORE (concurrency_key u) x)"
  "harmless t idem (ZCARD (concurrency_key u))" "harmless t idem (ZADD (concurrency_key u) x slot)"
  "harmless t idem (ZREM (concurrency_key u) slot)" "harmless t idem (EXPIRE (concurrency_key u) n)"
  "harmless t idem (XLEN (stream_key u))" "harmless t idem (HGET (pricing_key u) f)"
  "harmless t idem (HGETALL (invoice_key u i))" "harmless t idem (HSET (invoice_key u i) ps)"
  "harmless t idem (EXPIRE (invoice_key u i) n)"
  by (simp_all add: harmless_def)

lemma bucket_lua_harmless: "lua_cmds (harmless t idem) (token_bucket_lua (bucket_key u) cap rate cost ttl)"
  by (rule bucket_lua_cmds) (simp_all add: harmless_def)

lemma acquire_lua_harmless: "lua_cmds (harmless t idem) (acquire_lua (concurrency_key u) cap now cutoff slot ttl)"
  by (rule acquire_lua_cmds) (simp add: harmless_def)

lemma check_and_consume_harmless: "calls_in (call_cmds (harmless t idem)) (check_and_consume u e)"
  unfolding check_and_consume_def consume_def Let_def
  by (intro calls_in_bnd calls_in_redis_py) (auto simp: bucket_lua_harmless)

lemma acquire_harmless: "calls_in (call_cmds (harmless t idem)) (acquire (concurrency_key u) cap)"
  unfolding acquire_def by (auto intro!: calls_in_bnd calls_in_redis_py simp: acquire_lua_harmless)

lemma release_harmless: "calls_in (call_cmds (harmless t idem)) (release (concurrency_key u) slot)"
  unfolding release_def by (auto intro!: calls_in_bnd calls_in_redis_py)

lemma calculate_harmless: "calls_in (call_cmds (harmless t idem)) (calculate_for u c a b)"
  unfolding calculate_for_def Let_def by (auto intro!: calls_in_bnd calls_in_redis_py)

lemma generate_harmless: "calls_in (call_cmds (harmless t idem)) (generate_for u i)"
  unfolding generate_for_def Let_def by (auto intro!: calls_in_bnd calls_in_redis_py)

lemma claims_first_lift_exn [simp]: "claims_first t idem n (lift_exn r)"
  by (simp add: lift_exn_def split: sum.split)

lemma views_claim_first:
  "claims_first t idem 0 (ingest_view fw r)"
  "claims_first t idem 0 (calculate_view fw r)"
  "claims_first t idem 0 (generate_view fw r)"
proof -
  show "claims_first t idem 0 (ingest_view fw r)"
    unfolding ingest_view_def by (intro claims_first_bnd ingest_event_claims_first) simp_all
  show "claims_first t idem 0 (calculate_view fw r)"
    unfolding calculate_view_def
    by (intro claims_first_bnd claims_first_harmless [OF calculate_harmless]) simp_all
  show "claims_first t idem 0 (generate_view fw r)"
    unfolding generate_view_def
    by (intro claims_first_bnd claims_first_try_else claims_first_harmless [OF generate_harmless])
       (simp_all split: exn.split)
qed

lemma route_claims_first:
  assumes "framework_ok fw"
  shows "claims_first t idem 0 (route fw r)"
proof -
  from assms have "calls_in (\<lambda>_. False) (fw_other fw r)" by (simp add: framework_ok_def)
  then have "calls_in (call_cmds (harmless t idem)) (fw_other fw r)" by (rule calls_in_mono) simp
  then have "claims_first t idem 0 (fw_other fw r)" by (rule claims_first_harmless)
  then show ?thesis
    by (auto simp: route_def urlpatterns_def views_claim_first intro!: claims_first_catch split: option.split)
qed

lemma converted_claims_first: "claims_first t idem 0 (h r) \<Longrightarrow> claims_first t idem 0 (converted fw h r)"
  by (simp add: converted_def claims_first_catch)

lemma rate_limit_claims_first:
  assumes "claims_first t idem 0 (h r)"
  shows "claims_first t idem 0 (rate_limit_middleware h r)"
proof -
  have "claims_first t idem 0 (reject d)" for d
    unfolding reject_def Let_def by (intro claims_first_bnd) simp_all
  with assms show ?thesis
    by (auto simp: rate_limit_middleware_def Let_def
        intro!: claims_first_try_else claims_first_harmless [OF check_and_consume_harmless])
qed

lemma concurrency_claims_first:
  assumes "claims_first t idem 0 (h r)"
  shows "claims_first t idem 0 (concurrency_middleware h r)"
proof (cases "req_path r \<notin> set HEAVY_ENDPOINTS \<or> header_tenant r = []")
  case True
  with assms show ?thesis by (simp add: concurrency_passes)
next
  case False
  then have heavy: "req_path r \<in> set HEAVY_ENDPOINTS" "header_tenant r \<noteq> []" by simp_all
  show ?thesis unfolding concurrency_guarded [OF heavy]
    by (auto intro!: claims_first_try_else claims_first_finally claims_first_catch assms
        claims_first_harmless [OF acquire_harmless] claims_first_harmless [OF release_harmless])
qed

lemma application_claims_first:
  assumes "framework_ok fw"
  shows "claims_first t idem 0 (application fw r)"
  unfolding application_transparent [OF assms]
  by (intro converted_claims_first rate_limit_claims_first concurrency_claims_first route_claims_first [OF assms])

text \<open>A request without a tenant never talks to Redis.\<close>

lemma application_no_tenant:
  assumes "framework_ok fw" and none: "header_tenant r = []"
  shows "calls_in (\<lambda>_. False) (application fw r)"
  unfolding application_transparent [OF assms(1)]
  by (intro converted_calls rate_limit_calls concurrency_calls route_calls [OF assms(1)] views_calls [OF assms(1)])
     (simp_all add: none)


subsection \<open>Requests from end to end\<close>

lemma route_post:
  "req_method r = ''POST'' \<Longrightarrow> req_path r = ''/api/v1/events/ingest'' \<Longrightarrow>
     route fw r = catch (ingest_view fw r) (\<lambda>e. Return (fw_on_error fw e))"
  "req_method r = ''POST'' \<Longrightarrow> req_path r = ''/api/v1/billing/calculate'' \<Longrightarrow>
     route fw r = catch (calculate_view fw r) (\<lambda>e. Return (fw_on_error fw e))"
  "req_method r = ''POST'' \<Longrightarrow> req_path r = ''/api/v1/invoices/generate'' \<Longrightarrow>
     route fw r = catch (generate_view fw r) (\<lambda>e. Return (fw_on_error fw e))"
  by (simp_all add: route_def urlpatterns_def)

lemma guarded_paths:
  "req_path r = ''/api/v1/events/ingest'' \<Longrightarrow> should_guard r"
  "req_path r = ''/api/v1/billing/calculate'' \<Longrightarrow> should_guard r"
  "req_path r = ''/api/v1/invoices/generate'' \<Longrightarrow> should_guard r"
  by (simp_all add: should_guard_def API_PREFIX_def)

text \<open>A request the rate gate stops never gets to the semaphore or the view.\<close>

lemma run_converted_Done:
  "run ex (h r) tape s = (Done x, tape', s') \<Longrightarrow> run ex (converted fw h r) tape s = (Done x, tape', s')"
  by (simp add: converted_def run_catch)

context redis_server
begin

lemma application_rate_limited:
  assumes guarded: "should_guard r" "header_tenant r = t" "t \<noteq> []"
    and ok: "tenant_bucket_ok t (clock s) (view s (bucket_key t))"
    and low: "tenant_level t (view s (bucket_key t)) (clock s) < of_int (cost_of (req_path r))"
  obtains n b s' where "1 \<le> n"
    and "run exec (application fw r) (Deliver # tape) s = (Done (rate_limited_response t n), tape, s')"
    and "view s' = (view s)(bucket_key t := b)"
proof -
  let ?lvl = "tenant_level t (view s (bucket_key t)) (clock s)"
  let ?n = "max 1 \<lceil>(of_int (cost_of (req_path r)) - ?lvl) / plan_rate t\<rceil>"
  let ?h = "converted fw (concurrency_middleware (converted fw (fw_inner fw (converted fw (route fw)))))"
  obtain s' where "run exec (rate_limit_middleware ?h r) (Deliver # tape) s =
      (if of_int (cost_of (req_path r)) \<le> ?lvl then run exec (?h r) tape s'
       else (Done (rate_limited_response t ?n), tape, s'))"
    and v: "view s' = (view s)(bucket_key t := view s' (bucket_key t))"
    by (rule rate_limit_run [OF guarded ok refl])
  with low have "run exec (rate_limit_middleware ?h r) (Deliver # tape) s
      = (Done (rate_limited_response t ?n), tape, s')" by simp
  then have run: "run exec (application fw r) (Deliver # tape) s = (Done (rate_limited_response t ?n), tape, s')"
    unfolding application_layers by (rule run_converted_Done)
  show ?thesis by (rule that [OF _ run v]) simp
qed

lemma application_ingest:
  assumes fw: "framework_ok fw" and post: "req_method r = ''POST''" "req_path r = ''/api/v1/events/ingest''"
    and t: "header_tenant r = t" "t \<noteq> []" and body: "is_valid (fw_fields fw) UsageEventSerializer (req_body r) = Inr data"
    and cmd: "event_command t data = Inr c"
    and ok: "tenant_bucket_ok t (clock s) (view s (bucket_key t))"
    and token: "1 \<le> tenant_level t (view s (bucket_key t)) (clock s)"
    and free: "view s (idempotency_key t (ev_idempotency_key c)) = None"
    and es: "as_stream (view s (stream_key t)) = Some es"
  obtains i s' where "run exec (application fw r) (Deliver # Deliver # Deliver # tape) s
      = (Done (ingest_response t \<lparr>event_id = ev_idempotency_key c, duplicate = False\<rparr>), tape, s')"
    and "as_stream (view s' (stream_key t)) = Some (es @ [(i, serialize_event c)])"
    and "tenant_level t (view s' (bucket_key t)) (clock s')
           = tenant_level t (view s (bucket_key t)) (clock s) - 1"
proof -
  let ?lvl = "tenant_level t (view s (bucket_key t)) (clock s)"
  let ?h = "converted fw (concurrency_middleware (converted fw (converted fw (route fw))))"
  have cost: "cost_of (req_path r) = 1" by (simp add: post cost_of_def ENDPOINT_COSTS_def)
  obtain s1 where run1: "run exec (rate_limit_middleware ?h r) (Deliver # Deliver # Deliver # tape) s =
      (if of_int (cost_of (req_path r)) \<le> ?lvl then run exec (?h r) (Deliver # Deliver # tape) s1
       else (Done (rate_limited_response t (max 1 \<lceil>(of_int (cost_of (req_path r)) - ?lvl) / plan_rate t\<rceil>)), Deliver # Deliver # tape, s1))"
    and lvl1: "tenant_level t (view s1 (bucket_key t)) (clock s1)
       = (if of_int (cost_of (req_path r)) \<le> ?lvl then ?lvl - of_int (cost_of (req_path r)) else ?lvl)"
    and c1: "clock s1 = clock s" and v1: "view s1 = (view s)(bucket_key t := view s1 (bucket_key t))"
    by (rule rate_limit_run [OF guarded_paths(1) [OF post(2)] t ok refl])
  have keys: "ev_tenant_id c = t" by (rule event_command_tenant [OF cmd])
  have same: "view s1 k = view s k" if "k \<noteq> bucket_key t" for k
    using fun_cong [OF v1, of k] that by simp
  have free1: "view s1 (marker_key c) = None" and es1: "as_stream (view s1 (events_key c)) = Some es"
    using free es by (simp_all add: keys same)
  obtain i s2 where run2: "run exec (ingest_event c) (Deliver # Deliver # tape) s1
      = (Done \<lparr>event_id = ev_idempotency_key c, duplicate = False\<rparr>, tape, s2)"
    and v2: "view s2 = (view s1)(
           marker_key c := Some (RString (Text ''1''), Some (clock s1 + IDEMPOTENCY_TTL_SECONDS * usec)),
           events_key c := Some (RStream (es @ [(i, serialize_event c)]), deadline_of (view s1 (events_key c))))"
    and c2: "clock s2 = clock s1"
    by (rule ingest_fresh [OF free1 es1])
  have "header_tenant r \<noteq> []" using t by simp
  note resolve_tenant_header [OF this]
  then have "run exec (route fw r) (Deliver # Deliver # tape) s1
      = (Done (ingest_response t \<lparr>event_id = ev_idempotency_key c, duplicate = False\<rparr>), tape, s2)"
    using run2 t by (simp add: route_post(1) [OF post] ingest_view_def run_catch run_bnd body cmd)
  moreover have "req_path r \<notin> set HEAVY_ENDPOINTS" by (simp add: post HEAVY_ENDPOINTS_def)
  ultimately have "run exec (?h r) (Deliver # Deliver # tape) s1
      = (Done (ingest_response t \<lparr>event_id = ev_idempotency_key c, duplicate = False\<rparr>), tape, s2)"
    by (simp add: concurrency_passes run_converted_Done)
  with run1 token have "run exec (rate_limit_middleware ?h r) (Deliver # Deliver # Deliver # tape) s
      = (Done (ingest_response t \<lparr>event_id = ev_idempotency_key c, duplicate = False\<rparr>), tape, s2)"
    by (simp add: cost)
  then have run: "run exec (application fw r) (Deliver # Deliver # Deliver # tape) s
      = (Done (ingest_response t \<lparr>event_id = ev_idempotency_key c, duplicate = False\<rparr>), tape, s2)"
    unfolding application_transparent [OF fw] by (rule run_converted_Done)
  show ?thesis
    by (rule that [OF run]) (use lvl1 token in \<open>simp_all add: v2 keys c2 cost\<close>)
qed

end

lemma calls_other_tenant:
  assumes "framework_ok fw" and "plain_tenant t" and "plain_tenant (header_tenant r)" and "header_tenant r \<noteq> t"
    and k: "k \<in> tenant_keys t"
  shows "calls_in (call_cmds (\<lambda>x. key_of x \<noteq> Some k)) (application fw r)"
proof (rule calls_in_mono [OF application_tenant_calls [OF assms(1)]])
  fix c assume "tenant_call (header_tenant r) c"
  then have own: "call_cmds (\<lambda>x. key_of x \<in> insert None (Some ` tenant_keys (header_tenant r))) c"
    by (rule tenant_call_keys)
  have "k \<notin> tenant_keys (header_tenant r)"
    using tenant_keys_disjoint [OF assms(3,2,4)] k by blast
  then have "key_of x \<noteq> Some k" if "key_of x \<in> insert None (Some ` tenant_keys (header_tenant r))" for x
    using that by auto
  from call_cmds_mono [OF own this] show "call_cmds (\<lambda>x. key_of x \<noteq> Some k) c" .
qed

end
