(* ===== verification/Load_Runner.thy ===== *)
theory Load_Runner imports Application "HOL-Library.Multiset" begin

text \<open>
  \<open>scripts/simulate_incident.py\<close>: how the load runner posts a request and classifies the
  outcome, the two workloads, the sums and percentages it prints, and its verdict. What
  \<open>urlopen\<close> brings back is data (\<open>wire\<close>); the ranks in which the futures finish and the
  readings of the clocks are arguments (\<open>surroundings\<close>). Parsing the command line and the
  printed text are not modelled. The lemmas tie the classes to the answers of the two gates
  and the views, and the verdict to the printed line.
\<close>

subsection \<open>One request\<close>

text \<open>The bytes of a response body: none, a JSON text, other text, or no UTF-8.\<close>

datatype raw_body = Nothing | Encoded json | Other_text | Not_utf8

text \<open>
  What \<open>urlopen\<close> and reading the body come to: a response, an \<open>HTTPError\<close> with its body, a
  \<open>URLError\<close> or \<open>TimeoutError\<close> with its text, or another exception.
\<close>

datatype wire =
    Response int raw_body
  | HTTPError int raw_body
  | URLError string
  | Broken exn

record Outcome =
  out_status :: int
  out_kind :: string
  error_body :: "json option"

text \<open>\<open>bool(body)\<close>\<close>

fun json_truthy :: "json option \<Rightarrow> bool" where
  "json_truthy None = False"
| "json_truthy (Some JNull) = False"
| "json_truthy (Some (JBool b)) = b"
| "json_truthy (Some (JNum x)) = (x \<noteq> 0)"
| "json_truthy (Some (JStr s)) = (s \<noteq> [])"
| "json_truthy (Some (JText b)) = (b \<noteq> Text [])"
| "json_truthy (Some (JArr xs)) = (xs \<noteq> [])"
| "json_truthy (Some (JObj d)) = (d \<noteq> [])"

fun body_get :: "json option \<Rightarrow> string \<Rightarrow> json \<Rightarrow> exn + json" where
  "body_get (Some (JObj d)) k v = Inr (case map_of d k of None \<Rightarrow> v | Some x \<Rightarrow> x)"
| "body_get _ k v = Inl (OtherException ''AttributeError'')"

definition classify :: "int \<Rightarrow> json option \<Rightarrow> exn + string" where
  "classify status body =
     (if 200 \<le> status \<and> status < 300 then Inr ''success''
      else if status = 429 \<and> json_truthy body then
        try_bind (body_get body ''error'' (JStr '''')) (\<lambda>err.
          if err = JStr ''rate_limited'' then Inr ''rate_limited''
          else if err = JStr ''concurrency_limit'' then Inr ''concurrency_limit''
          else Inr ''error'')
      else Inr ''error'')"

text \<open>\<open>json.loads(raw.decode("utf-8")) if raw else None\<close>\<close>

fun parse_body :: "raw_body \<Rightarrow> exn + json option" where
  "parse_body Nothing = Inr None"
| "parse_body (Encoded j) = Inr (Some j)"
| "parse_body Other_text = Inl (OtherException ''JSONDecodeError'')"
| "parse_body Not_utf8 = Inl (OtherException ''UnicodeDecodeError'')"

definition parse_error_body :: "raw_body \<Rightarrow> exn + json option" where
  "parse_error_body raw =
     (case parse_body raw of Inl e \<Rightarrow> if e = OtherException ''JSONDecodeError'' then Inr None else Inl e | r \<Rightarrow> r)"

fun post :: "wire \<Rightarrow> exn + Outcome" where
  "post (Response st raw) =
     try_bind (parse_body raw) (\<lambda>parsed. try_bind (classify st parsed) (\<lambda>k.
       Inr \<lparr>out_status = st, out_kind = k, error_body = None\<rparr>))"
| "post (HTTPError st raw) =
     try_bind (parse_error_body raw) (\<lambda>parsed. try_bind (classify st parsed) (\<lambda>k.
       Inr \<lparr>out_status = st, out_kind = k, error_body = parsed\<rparr>))"
| "post (URLError msg) =
     Inr \<lparr>out_status = 0, out_kind = ''error'', error_body = Some (JObj [(''exception'', JStr msg)])\<rparr>"
| "post (Broken e) = Inl e"

subsection \<open>The workloads\<close>

record TenantStats =
  stats_tenant :: string
  stats_endpoint :: string
  outcomes :: "Outcome list"
  wall_clock_seconds :: rat

text \<open>
  Collecting \<open>f.result()\<close> as the futures complete; the first exception ends it.
  \<open>as_completed finish\<close> yields each future once, in the order of their finishing ranks. In
  \<open>thread_pool\<close> the futures are those submitted for \<open>range(n)\<close>.
\<close>

fun collect :: "(exn + 'a) list \<Rightarrow> exn + 'a list" where
  "collect [] = Inr []"
| "collect (r # rs) = try_bind r (\<lambda>x. try_bind (collect rs) (\<lambda>xs. Inr (x # xs)))"

definition as_completed :: "(nat \<Rightarrow> nat) \<Rightarrow> 'a list \<Rightarrow> 'a list" where
  "as_completed finish futures = map snd (sort_key (\<lambda>(i, _). finish i) (enumerate 0 futures))"

definition thread_pool :: "int \<Rightarrow> int \<Rightarrow> (nat \<Rightarrow> nat) \<Rightarrow> (nat \<Rightarrow> exn + Outcome) \<Rightarrow> exn + Outcome list" where
  "thread_pool max_workers n finish task =
     (if max_workers \<le> 0 then Inl ValueError
      else let futures = map task [0..<nat n] in collect (as_completed finish futures))"

definition heavy_body :: json where
  "heavy_body = JObj
    [(''customer_id'', JStr ''cust-1''),
     (''period_start'', JStr ''2026-04-01T00:00:00Z''),
     (''period_end'', JStr ''2026-05-01T00:00:00Z'')]"

text \<open>
  A request of the runner is its URL, tenant and body; \<open>net i\<close> is what comes back of the
  \<open>i\<close>th submitted one.
\<close>

definition flood_heavy_endpoint :: "(string \<Rightarrow> string \<Rightarrow> json \<Rightarrow> nat \<Rightarrow> wire) \<Rightarrow> string \<Rightarrow> string \<Rightarrow> string \<Rightarrow> int
    \<Rightarrow> int \<Rightarrow> (nat \<Rightarrow> nat) \<Rightarrow> rat \<Rightarrow> exn + TenantStats" where
  "flood_heavy_endpoint net base_url tenant endpoint n concurrency finish seconds =
     try_bind (thread_pool concurrency n finish (\<lambda>i. post (net (base_url @ endpoint) tenant heavy_body i))) (\<lambda>outs.
     Inr \<lparr>stats_tenant = tenant, stats_endpoint = endpoint, outcomes = outs, wall_clock_seconds = seconds\<rparr>)"

text \<open>\<open>str(n)\<close> of a number that is not negative.\<close>

fun str_nat :: "nat \<Rightarrow> string" where
  "str_nat n = (if n < 10 then [char_of (48 + n)] else str_nat (n div 10) @ [char_of (48 + n mod 10)])"

declare str_nat.simps [simp del]

definition sim_key :: "string \<Rightarrow> nat \<Rightarrow> nat \<Rightarrow> string" where
  "sim_key tenant i time_ns = ''sim-'' @ tenant @ ''-'' @ str_nat i @ ''-'' @ str_nat time_ns"

definition ingest_body :: "string \<Rightarrow> nat \<Rightarrow> nat \<Rightarrow> json" where
  "ingest_body tenant i time_ns = JObj
    [(''event_name'', JStr ''api_call''),
     (''customer_id'', JStr ''cust-1''),
     (''timestamp'', JStr ''2026-04-01T12:00:00Z''),
     (''idempotency_key'', JStr (sim_key tenant i time_ns)),
     (''value'', JNum 1)]"

definition stream_ingests :: "(string \<Rightarrow> string \<Rightarrow> json \<Rightarrow> nat \<Rightarrow> wire) \<Rightarrow> (nat \<Rightarrow> nat) \<Rightarrow> string \<Rightarrow> string \<Rightarrow> int
    \<Rightarrow> int \<Rightarrow> (nat \<Rightarrow> nat) \<Rightarrow> rat \<Rightarrow> exn + TenantStats" where
  "stream_ingests net time_ns base_url tenant n concurrency finish seconds =
     try_bind (thread_pool concurrency n finish
       (\<lambda>i. post (net (base_url @ ''/api/v1/events/ingest'') tenant (ingest_body tenant i (time_ns i)) i))) (\<lambda>outs.
     Inr \<lparr>stats_tenant = tenant, stats_endpoint = ''/api/v1/events/ingest'', outcomes = outs,
          wall_clock_seconds = seconds\<rparr>)"

subsection \<open>The report\<close>

text \<open>\<open>summary\<close>: the counts by kind, and under \<open>total\<close> the number of outcomes.\<close>

definition summary :: "string list \<Rightarrow> string \<Rightarrow> nat option" where
  "summary kinds =
     (\<lambda>k. if k \<in> set kinds then Some (count_list kinds k) else None)(''total'' \<mapsto> length kinds)"

text \<open>\<open>s.get(k, 0)\<close>\<close>

definition get0 :: "(string \<Rightarrow> nat option) \<Rightarrow> string \<Rightarrow> nat" where
  "get0 s k = (case s k of None \<Rightarrow> 0 | Some n \<Rightarrow> n)"

record stats_line =
  l_total :: nat
  l_success :: nat
  l_rate_limited :: nat
  l_concurrency_limit :: nat
  l_error :: nat
  l_percent :: rat

definition print_stats :: "TenantStats \<Rightarrow> stats_line" where
  "print_stats stats =
     (let s = summary (map out_kind (outcomes stats)); total = get0 s ''total''; success = get0 s ''success'' in
      \<lparr>l_total = total, l_success = success, l_rate_limited = get0 s ''rate_limited'',
       l_concurrency_limit = get0 s ''concurrency_limit'', l_error = get0 s ''error'',
       l_percent = (if total \<noteq> 0 then of_nat success / of_nat total * 100 else 0)\<rparr>)"

text \<open>The counts are far too small for the rounding of floats to change a comparison with 0.99.\<close>

definition quiet_success_rate :: "TenantStats \<Rightarrow> rat" where
  "quiet_success_rate stats =
     of_nat (length (filter (\<lambda>out. out_kind out = ''success'') (outcomes stats))) / of_nat (max 1 (length (outcomes stats)))"

subsection \<open>A run\<close>

text \<open>The arguments of \<open>main\<close> and their defaults.\<close>

record runner_args =
  arg_host :: string
  arg_noisy :: string
  arg_noisy_endpoint :: string
  arg_noisy_requests :: int
  arg_noisy_concurrency :: int
  arg_quiet :: string
  arg_quiet_requests :: int
  arg_quiet_concurrency :: int

definition default_args :: runner_args where
  "default_args =
     \<lparr>arg_host = ''http://127.0.0.1:8000'', arg_noisy = ''acme-corp'',
      arg_noisy_endpoint = ''/api/v1/billing/calculate'', arg_noisy_requests = 60, arg_noisy_concurrency = 15,
      arg_quiet = ''globex'', arg_quiet_requests = 30, arg_quiet_concurrency = 5\<rparr>"

text \<open>
  What a run meets: the answers of the network and the clock, and per workload the ranks in
  which its requests finish, with the seconds it took.
\<close>

record surroundings =
  network :: "string \<Rightarrow> string \<Rightarrow> json \<Rightarrow> nat \<Rightarrow> wire"
  clock_ns :: "nat \<Rightarrow> nat"
  noisy_finish :: "nat \<Rightarrow> nat"
  noisy_seconds :: rat
  quiet_finish :: "nat \<Rightarrow> nat"
  quiet_seconds :: rat

text \<open>\<open>main\<close>: both workloads, both lines, the verdict, the exit status.\<close>

definition runner_main :: "runner_args \<Rightarrow> surroundings \<Rightarrow> exn + stats_line \<times> stats_line \<times> bool \<times> int" where
  "runner_main args w =
     try_bind (flood_heavy_endpoint (network w) (arg_host args) (arg_noisy args) (arg_noisy_endpoint args)
         (arg_noisy_requests args) (arg_noisy_concurrency args) (noisy_finish w) (noisy_seconds w)) (\<lambda>noisy_stats.
     try_bind (stream_ingests (network w) (clock_ns w) (arg_host args) (arg_quiet args)
         (arg_quiet_requests args) (arg_quiet_concurrency args) (quiet_finish w) (quiet_seconds w)) (\<lambda>quiet_stats.
     Inr (print_stats noisy_stats, print_stats quiet_stats, 99 / 100 \<le> quiet_success_rate quiet_stats, 0)))"

subsection \<open>Classes and counts\<close>

abbreviation "kinds_of_outcome \<equiv> {''success'', ''rate_limited'', ''concurrency_limit'', ''error''}"

lemma classify_range: "classify st b = Inr k \<Longrightarrow> k \<in> kinds_of_outcome"
  by (auto simp: classify_def try_bind_Inr split: if_splits)

lemma post_range: "post w = Inr x \<Longrightarrow> out_kind x \<in> kinds_of_outcome"
  by (cases w) (auto simp: try_bind_Inr dest: classify_range)

lemma collect_Inr: "collect rs = Inr xs \<longleftrightarrow> rs = map Inr xs"
  by (induction rs arbitrary: xs) (auto simp: try_bind_Inr)

lemma as_completed_mset: "mset (as_completed finish xs) = mset xs"
proof -
  have "mset (as_completed finish xs) = image_mset snd (mset (enumerate 0 xs))"
    by (simp add: as_completed_def)
  also have "\<dots> = mset (map snd (enumerate 0 xs))" by (rule mset_map [symmetric])
  finally show ?thesis by simp
qed

lemma as_completed_length [simp]: "length (as_completed finish xs) = length xs"
  by (simp add: as_completed_def)

lemma as_completed_set [simp]: "set (as_completed finish xs) = set xs"
  using arg_cong [OF as_completed_mset [of finish xs], of set_mset] by simp

text \<open>The pool returns what its tasks, one for each number of \<open>range(n)\<close>, returned.\<close>

lemma thread_pool_outcomes:
  assumes "thread_pool m n finish task = Inr outs"
  shows "length outs = nat n" and "x \<in> set outs \<Longrightarrow> \<exists>i < nat n. task i = Inr x"
proof -
  have *: "as_completed finish (map task [0..<nat n]) = map Inr outs"
    using assms by (auto simp: thread_pool_def collect_Inr Let_def split: if_splits)
  show "length outs = nat n" using arg_cong [OF *, of length] by simp
  assume "x \<in> set outs"
  then have "Inr x \<in> set (as_completed finish (map task [0..<nat n]))" unfolding * by simp
  then have "Inr x \<in> task ` {..<nat n}" by (simp add: atLeast0LessThan)
  then show "\<exists>i < nat n. task i = Inr x" by (metis imageE lessThan_iff)
qed

lemma thread_pool_all:
  assumes "0 < m" and "\<forall>i < nat n. task i = Inr x"
  shows "thread_pool m n finish task = Inr (replicate (nat n) x)"
proof -
  let ?ys = "as_completed finish (map task [0..<nat n])"
  have "y = Inr x" if "y \<in> set ?ys" for y using that assms(2) by auto
  then have "?ys = replicate (length ?ys) (Inr x)"
    by (intro replicate_length_same [symmetric]) blast
  then have "?ys = map Inr (replicate (nat n) x)" by simp
  with assms(1) show ?thesis by (simp add: thread_pool_def collect_Inr Let_def)
qed

lemma get0_summary: "k \<noteq> ''total'' \<Longrightarrow> get0 (summary ks) k = count_list ks k"
  by (simp add: get0_def summary_def count_list_0_iff)

lemma get0_total: "get0 (summary ks) ''total'' = length ks"
  by (simp add: get0_def summary_def)

lemma counts_add_up:
  "set ks \<subseteq> {a, b, c, d} \<Longrightarrow> distinct [a, b, c, d] \<Longrightarrow>
     count_list ks a + count_list ks b + count_list ks c + count_list ks d = length ks"
  by (induction ks) auto

text \<open>The answer of the service on the wire.\<close>

definition answered :: "HttpResponse \<Rightarrow> wire" where
  "answered r =
     (if 200 \<le> resp_status r \<and> resp_status r < 300 then Response (resp_status r) (Encoded (resp_content r))
      else HTTPError (resp_status r) (Encoded (resp_content r)))"

definition kind_of :: "HttpResponse \<Rightarrow> exn + string" where
  "kind_of r = (case post (answered r) of Inl e \<Rightarrow> Inl e | Inr x \<Rightarrow> Inr (out_kind x))"

lemma answer_kinds:
  "kind_of (rate_limited_response t sec) = Inr ''rate_limited''"
  "kind_of (concurrency_limit_response t m cap) = Inr ''concurrency_limit''"
  "kind_of (ingest_response t e) = Inr ''success''"
  "kind_of (calculation_response t c) = Inr ''success''"
  "kind_of (issued_response t g) = Inr ''success''"
  "kind_of (not_found_response t i) = Inr ''error''"
  by (simp_all add: kind_of_def answered_def classify_def parse_error_body_def rate_limited_response_def
      concurrency_limit_response_def ingest_response_def calculation_response_def issued_response_def not_found_response_def)

subsection \<open>The printed lines\<close>

text \<open>A line of the report that accounts for \<open>n\<close> requests.\<close>

definition accounts_for :: "stats_line \<Rightarrow> nat \<Rightarrow> bool" where
  "accounts_for l n \<longleftrightarrow> l_total l = n
     \<and> l_success l + l_rate_limited l + l_concurrency_limit l + l_error l = n
     \<and> 0 \<le> l_percent l \<and> l_percent l \<le> 100"

lemma print_stats_accounts:
  assumes "\<forall>x \<in> set (outcomes stats). out_kind x \<in> kinds_of_outcome"
  shows "accounts_for (print_stats stats) (length (outcomes stats))"
proof -
  let ?ks = "map out_kind (outcomes stats)" and ?n = "length (outcomes stats)"
  from assms have "set ?ks \<subseteq> kinds_of_outcome" by auto
  from counts_add_up [OF this]
  have sum: "count_list ?ks ''success'' + count_list ?ks ''rate_limited'' + count_list ?ks ''concurrency_limit''
      + count_list ?ks ''error'' = ?n" by simp
  then have "count_list ?ks ''success'' \<le> ?n" by linarith
  then have "(of_nat (count_list ?ks ''success'') :: rat) \<le> of_nat ?n" by (simp only: of_nat_le_iff)
  with sum show ?thesis
    by (simp add: accounts_for_def print_stats_def Let_def get0_total get0_summary divide_le_eq)
qed

lemma posted_accounts:
  assumes "thread_pool m n finish (\<lambda>i. post (g i)) = Inr (outcomes stats)"
  shows "accounts_for (print_stats stats) (nat n)"
proof -
  have "out_kind x \<in> kinds_of_outcome" if "x \<in> set (outcomes stats)" for x
    using thread_pool_outcomes(2) [OF assms that] by (metis post_range)
  with print_stats_accounts [of stats] thread_pool_outcomes(1) [OF assms] show ?thesis by simp
qed

lemma l_success_filter:
  "l_success (print_stats stats) = length (filter (\<lambda>out. out_kind out = ''success'') (outcomes stats))"
  by (simp add: print_stats_def Let_def get0_summary count_list_eq_length_filter filter_map comp_def eq_commute)

lemma l_total_length: "l_total (print_stats stats) = length (outcomes stats)"
  by (simp add: print_stats_def Let_def get0_total)

text \<open>A run that gets to its report.\<close>

lemma runner_main_reports:
  assumes "runner_main args w = Inr (noisy, quiet, verdict, code)"
  obtains stats where "accounts_for noisy (nat (arg_noisy_requests args))"
    and "accounts_for quiet (nat (arg_quiet_requests args))"
    and "quiet = print_stats stats" and "verdict \<longleftrightarrow> 99 / 100 \<le> quiet_success_rate stats" and "code = 0"
proof -
  let ?heavy = "\<lambda>i. network w (arg_host args @ arg_noisy_endpoint args) (arg_noisy args) heavy_body i"
    and ?event = "\<lambda>i. network w (arg_host args @ ''/api/v1/events/ingest'') (arg_quiet args)
      (ingest_body (arg_quiet args) i (clock_ns w i)) i"
  from assms(1) obtain ns qs
    where run: "flood_heavy_endpoint (network w) (arg_host args) (arg_noisy args) (arg_noisy_endpoint args)
        (arg_noisy_requests args) (arg_noisy_concurrency args) (noisy_finish w) (noisy_seconds w) = Inr ns"
      "stream_ingests (network w) (clock_ns w) (arg_host args) (arg_quiet args)
        (arg_quiet_requests args) (arg_quiet_concurrency args) (quiet_finish w) (quiet_seconds w) = Inr qs"
      and out: "noisy = print_stats ns" "quiet = print_stats qs" "verdict \<longleftrightarrow> 99 / 100 \<le> quiet_success_rate qs" "code = 0"
    by (auto simp only: runner_main_def try_bind_Inr sum.inject prod.inject)
  from run have "thread_pool (arg_noisy_concurrency args) (arg_noisy_requests args) (noisy_finish w) (\<lambda>i. post (?heavy i)) = Inr (outcomes ns)"
    "thread_pool (arg_quiet_concurrency args) (arg_quiet_requests args) (quiet_finish w) (\<lambda>i. post (?event i)) = Inr (outcomes qs)"
    by (auto simp: flood_heavy_endpoint_def stream_ingests_def try_bind_Inr)
  from this [THEN posted_accounts] show ?thesis using out that [of qs] by simp
qed

text \<open>
  C35. The runner's report is sound: the answers of the two gates are counted as what they
  are and the views' answers as successes or errors; in a run that gets to its report each
  printed line accounts for every request asked for, its four counts adding up to its total
  and its percentage lying between 0 and 100, and the exit status is 0 whatever the verdict.
\<close>

theorem runner_report_is_sound:
  "kind_of (rate_limited_response t sec) = Inr ''rate_limited''
   \<and> kind_of (concurrency_limit_response t m cap) = Inr ''concurrency_limit''
   \<and> kind_of (ingest_response t e) = Inr ''success'' \<and> kind_of (calculation_response t c) = Inr ''success''
   \<and> kind_of (issued_response t g) = Inr ''success'' \<and> kind_of (not_found_response t i) = Inr ''error''
   \<and> (runner_main args w = Inr (noisy, quiet, verdict, code) \<longrightarrow>
       accounts_for noisy (nat (arg_noisy_requests args)) \<and> accounts_for quiet (nat (arg_quiet_requests args)) \<and> code = 0)"
  by (intro conjI answer_kinds impI; elim runner_main_reports)

text \<open>A small run against a service that rejects the flood and accepts the events.\<close>

definition sample_args :: runner_args where
  "sample_args = default_args\<lparr>arg_noisy_requests := 2, arg_quiet_requests := 1\<rparr>"

definition sample_surroundings :: surroundings where
  "sample_surroundings =
     \<lparr>network = (\<lambda>url tenant body i. if tenant = ''acme-corp'' then answered (rate_limited_response tenant 1)
        else answered (ingest_response tenant \<lparr>event_id = ''e'', duplicate = False\<rparr>)),
      clock_ns = (\<lambda>i. 0), noisy_finish = (\<lambda>i. 1 - i), noisy_seconds = 0, quiet_finish = (\<lambda>i. i), quiet_seconds = 0\<rparr>"

lemma sample_run:
  obtains noisy quiet verdict code where "runner_main sample_args sample_surroundings = Inr (noisy, quiet, verdict, code)"
    and "l_success quiet = 1"
proof -
  have *: "post (answered (rate_limited_response ''acme-corp'' 1)) = Inr \<lparr>out_status = 429, out_kind = ''rate_limited'',
      error_body = Some (resp_content (rate_limited_response ''acme-corp'' 1))\<rparr>"
    "post (answered (ingest_response ''globex'' r)) = Inr \<lparr>out_status = 202, out_kind = ''success'', error_body = None\<rparr>" for r
    by (simp_all add: answered_def rate_limited_response_def ingest_response_def parse_error_body_def classify_def)
  show ?thesis
  proof (rule that)
    let ?line = "\<lambda>k n. \<lparr>l_total = n, l_success = if k = ''success'' then n else 0,
      l_rate_limited = if k = ''rate_limited'' then n else 0, l_concurrency_limit = 0, l_error = 0,
      l_percent = if k = ''success'' then 100 else 0\<rparr>"
    show "runner_main sample_args sample_surroundings = Inr (?line ''rate_limited'' 2, ?line ''success'' 1, True, 0)"
      by (simp add: runner_main_def sample_args_def default_args_def sample_surroundings_def flood_heavy_endpoint_def
          stream_ingests_def thread_pool_def as_completed_def * numeral_2_eq_2 print_stats_def get0_def summary_def
          quiet_success_rate_def)
  qed simp
qed

theorem runner_report_is_sound_witness:
  "\<exists>noisy quiet verdict code. runner_main sample_args sample_surroundings = Inr (noisy, quiet, verdict, code)
     \<and> accounts_for noisy 2 \<and> accounts_for quiet 1"
proof -
  obtain noisy quiet verdict code where *: "runner_main sample_args sample_surroundings = Inr (noisy, quiet, verdict, code)"
    by (rule sample_run)
  with runner_report_is_sound [where args = sample_args and w = sample_surroundings and noisy = noisy and quiet = quiet
      and verdict = verdict and code = code]
  have "accounts_for noisy (nat (arg_noisy_requests sample_args)) \<and> accounts_for quiet (nat (arg_quiet_requests sample_args))"
    by blast
  with * show ?thesis by (auto simp: sample_args_def default_args_def)
qed

lemma verdict_by_counts:
  "99 / 100 \<le> quiet_success_rate stats \<longleftrightarrow> outcomes stats \<noteq> [] \<and>
     99 * length (outcomes stats) \<le> 100 * length (filter (\<lambda>out. out_kind out = ''success'') (outcomes stats))"
proof (cases "outcomes stats = []")
  case True
  then show ?thesis by (simp add: quiet_success_rate_def)
next
  case False
  let ?n = "length (outcomes stats)" and ?ok = "length (filter (\<lambda>out. out_kind out = ''success'') (outcomes stats))"
  from False have pos: "0 < (of_nat ?n :: rat)" and m: "max 1 ?n = ?n" by (simp_all add: Suc_leI)
  have "99 / 100 \<le> quiet_success_rate stats \<longleftrightarrow> (of_nat (99 * ?n) :: rat) \<le> of_nat (100 * ?ok)"
    using pos unfolding quiet_success_rate_def m by (simp add: le_divide_eq mult.commute)
  also have "\<dots> \<longleftrightarrow> 99 * ?n \<le> 100 * ?ok" by (rule of_nat_le_iff)
  finally show ?thesis using False by simp
qed

text \<open>
  C36. The runner's verdict agrees with the line it prints: a run that gets to its report
  declares isolation exactly when quiet requests were asked for and the printed successes
  are at least 99 in 100 of them. With less than a hundred quiet requests, as by default,
  that takes the success of every one, and a run without quiet requests is reported as a
  failure of the isolation.
\<close>

theorem runner_verdict_is_exact:
  assumes run: "runner_main args w = Inr (noisy, quiet, verdict, code)"
  shows "(verdict \<longleftrightarrow> 0 < arg_quiet_requests args \<and> 99 * arg_quiet_requests args \<le> 100 * int (l_success quiet))
    \<and> (arg_quiet_requests args < 100 \<longrightarrow>
        (verdict \<longleftrightarrow> 0 < arg_quiet_requests args \<and> int (l_success quiet) = arg_quiet_requests args))"
proof -
  obtain stats where q: "accounts_for quiet (nat (arg_quiet_requests args))" "quiet = print_stats stats"
    and v: "verdict \<longleftrightarrow> 99 / 100 \<le> quiet_success_rate stats"
    by (rule runner_main_reports [OF run])
  let ?n = "length (outcomes stats)"
  have n: "nat (arg_quiet_requests args) = ?n" and le: "l_success quiet \<le> ?n"
    using q by (auto simp: accounts_for_def l_total_length)
  have *: "verdict \<longleftrightarrow> 0 < ?n \<and> 99 * ?n \<le> 100 * l_success quiet"
    unfolding v verdict_by_counts q(2) l_success_filter by simp
  show ?thesis
  proof (cases "0 < arg_quiet_requests args")
    case True
    with n have e: "arg_quiet_requests args = int ?n" by simp
    from True have pos: "0 < ?n" unfolding e by simp
    have "99 * int ?n \<le> 100 * int (l_success quiet) \<longleftrightarrow> 99 * ?n \<le> 100 * l_success quiet" by linarith
    moreover have "99 * ?n \<le> 100 * l_success quiet \<longleftrightarrow> l_success quiet = ?n" if "?n < 100" using le that by linarith
    ultimately show ?thesis unfolding e * using pos by auto
  next
    case False
    with n * show ?thesis by simp
  qed
qed

theorem runner_verdict_is_exact_witness:
  "\<exists>noisy quiet code. runner_main sample_args sample_surroundings = Inr (noisy, quiet, True, code) \<and> l_success quiet = 1"
proof -
  obtain noisy quiet verdict code where *: "runner_main sample_args sample_surroundings = Inr (noisy, quiet, verdict, code)"
    "l_success quiet = 1"
    by (rule sample_run)
  from runner_verdict_is_exact [OF *(1)] *(2) have verdict by (simp add: sample_args_def default_args_def)
  with * show ?thesis by auto
qed

subsection \<open>The keys of the simulated events\<close>

lemma str_nat_digits: "c \<in> set (str_nat n) \<Longrightarrow> \<exists>k < 10. c = char_of (48 + k :: nat)"
proof (induction n rule: str_nat.induct)
  case (1 n)
  show ?case
  proof (cases "n < 10")
    case True
    with 1(2) have "c = char_of (48 + n)" by (simp add: str_nat.simps [of n])
    with True show ?thesis by blast
  next
    case False
    with 1(2) have "c \<in> set (str_nat (n div 10)) \<or> c = char_of (48 + n mod 10)"
      by (auto simp: str_nat.simps [of n] simp del: char_of_eq_iff)
    moreover have "n mod 10 < 10" by simp
    ultimately show ?thesis using 1(1) [OF False] by blast
  qed
qed

lemma str_nat_no_hyphen: "CHR ''-'' \<notin> set (str_nat n)"
proof
  assume "CHR ''-'' \<in> set (str_nat n)"
  then obtain k where "k < 10" and "CHR ''-'' = char_of (48 + k :: nat)" using str_nat_digits by blast
  from arg_cong [OF this(2), of "of_char :: char \<Rightarrow> nat"] this(1) show False by simp
qed

lemma digit_inject: "j < 10 \<Longrightarrow> k < 10 \<Longrightarrow> char_of (48 + j :: nat) = char_of (48 + k :: nat) \<longleftrightarrow> j = k"
  by (auto dest!: arg_cong [of _ _ "of_char :: char \<Rightarrow> nat"])

lemma str_nat_nonempty: "str_nat n \<noteq> []"
  by (subst str_nat.simps) simp

lemma str_nat_inject: "str_nat m = str_nat n \<longleftrightarrow> m = n"
proof
  show "str_nat m = str_nat n \<Longrightarrow> m = n"
  proof (induction m arbitrary: n rule: str_nat.induct)
    case (1 m)
    show ?case
    proof (cases "m < 10"; cases "n < 10")
      assume "m < 10" "n < 10"
      with 1(2) show ?thesis by (simp add: str_nat.simps [of m] str_nat.simps [of n] digit_inject)
    next
      assume "m < 10" "\<not> n < 10"
      with 1(2) show ?thesis
        by (simp add: str_nat.simps [of m] str_nat.simps [of n] str_nat_nonempty [symmetric])
    next
      assume "\<not> m < 10" "n < 10"
      with 1(2) show ?thesis by (simp add: str_nat.simps [of m] str_nat.simps [of n] str_nat_nonempty)
    next
      assume big: "\<not> m < 10" "\<not> n < 10"
      with 1(2) have "str_nat (m div 10) = str_nat (n div 10)" and "m mod 10 = n mod 10"
        by (simp_all add: str_nat.simps [of m] str_nat.simps [of n] digit_inject)
      with 1(1) [OF big(1)] show ?thesis by (metis div_mult_mod_eq)
    qed
  qed
qed simp

lemma sim_key_inject: "sim_key t i x = sim_key t j y \<longleftrightarrow> i = j \<and> x = y"
  using split_at_delimiter [of "str_nat i" "CHR ''-''" "str_nat x" "str_nat j" "str_nat y"]
  by (auto simp: sim_key_def str_nat_no_hyphen str_nat_inject)

text \<open>
  The quiet workload measures what it means to: whatever the clock shows to its
  workers, and even if it stands still, the markers its events claim are pairwise
  different, so none of its requests is absorbed as the duplicate of another, and none of a
  request of the same loop index at another instant.
\<close>

theorem simulated_keys_are_distinct:
  "distinct (map (\<lambda>i. idempotency_key tenant (sim_key tenant i (time_ns i))) [0..<n])
   \<and> (idempotency_key tenant (sim_key tenant i x) = idempotency_key tenant (sim_key tenant j y) \<longleftrightarrow> i = j \<and> x = y)"
  by (simp add: distinct_map inj_on_def sim_key_inject)

end
