(* ===== verification/Scenarios.thy ===== *)
theory Scenarios imports Application begin

text \<open>
  A request and its run against the server in memory, for the witnesses of theorems on the
  whole application: an ingest of \<open>globex\<close> that is accepted on an empty store.
\<close>

definition sample_usage :: validated where
  "sample_usage =
     [(''event_name'', PyStr ''api_call''), (''customer_id'', PyStr ''cust-1''),
      (''timestamp'', PyDatetime 1775044800000000), (''idempotency_key'', PyStr ''smoke-1'')]"

definition sample_command :: IngestEventCommand where
  "sample_command =
     \<lparr>ev_tenant_id = ''globex'', ev_event_name = ''api_call'', ev_customer_id = ''cust-1'',
      ev_timestamp = 1775044800000000, ev_idempotency_key = ''smoke-1'', ev_value = 1, ev_properties = []\<rparr>"

definition sample_ingest :: "validated HttpRequest" where
  "sample_ingest =
     \<lparr>req_method = ''POST'', req_path = ''/api/v1/events/ingest'', tenant_header = Some ''globex'',
      req_body = sample_usage\<rparr>"

abbreviation "sample_data \<equiv> filled (declared_fields UsageEventSerializer) sample_usage"

lemma sample_ingest_facts:
  "req_method sample_ingest = ''POST''" "req_path sample_ingest = ''/api/v1/events/ingest''"
  "header_tenant sample_ingest = ''globex''"
  "is_valid (fw_fields sample_framework) UsageEventSerializer (req_body sample_ingest) = Inr sample_data"
  "event_command ''globex'' sample_data = Inr sample_command"
  by (simp_all add: sample_ingest_def header_tenant_def py_strip_def py_isspace_def Let_def is_valid_def
      sample_framework_def sample_parse_def filled_def UsageEventSerializer_def sample_usage_def sample_command_def
      event_command_def dict_item_def value_or_one_def properties_or_empty_def)

lemma sample_bucket:
  "tenant_bucket_ok ''globex'' (mem_clock (mem_at 0)) (mem_data (mem_at 0) (bucket_key ''globex''))"
  "tenant_level ''globex'' (mem_data (mem_at 0) (bucket_key ''globex'')) (mem_clock (mem_at 0)) = 1000"
  by (simp_all add: tenant_bucket_ok_def tenant_level_def mem_at_def limits_of_def)

lemma sample_ingest_runs:
  obtains s resp where "run mem_exec (application sample_framework sample_ingest) [Deliver, Deliver, Deliver] (mem_at 0)
      = (Done resp, [], s)"
proof -
  have ne: "''globex'' \<noteq> []" by simp
  have lvl: "1 \<le> tenant_level ''globex'' (mem_data (mem_at 0) (bucket_key ''globex'')) (mem_clock (mem_at 0))"
    by (simp add: sample_bucket)
  have store: "mem_data (mem_at 0) (idempotency_key ''globex'' (ev_idempotency_key sample_command)) = None"
    "as_stream (mem_data (mem_at 0) (stream_key ''globex'')) = Some []"
    by (simp_all add: mem_at_def)
  obtain i s' where "run mem_exec (application sample_framework sample_ingest) [Deliver, Deliver, Deliver] (mem_at 0)
      = (Done (ingest_response ''globex'' \<lparr>event_id = ev_idempotency_key sample_command, duplicate = False\<rparr>), [], s')"
    by (rule mem.application_ingest [OF sample_framework_ok sample_ingest_facts(1,2,3) ne sample_ingest_facts(4,5)
        sample_bucket(1) lvl store])
  then show ?thesis by (rule that)
qed

lemma sample_reach:
  assumes "application sample_framework sample_ingest \<in> req"
  obtains s resp where "sys_reach mem_exec mem_elapse req (mem_at 0) 0 (s, [Return resp])"
proof -
  obtain s resp where "run mem_exec (application sample_framework sample_ingest) [Deliver, Deliver, Deliver] (mem_at 0)
      = (Done resp, [], s)" by (rule sample_ingest_runs)
  from run_alone_reaches [OF this assms] show ?thesis by (rule that)
qed

end
