(* ===== verification/Store_Types.thy ===== *)
theory Store_Types imports Scenarios begin

text \<open>
  The types of the stored values. Redis has no schema: each key family of the source has a
  type only because every process writes it that way. \<open>typed_store\<close> is that schema,
  \<open>typed_call\<close> the ten requests the application makes, and the lemmas are a type-soundness
  argument: each request keeps the schema and on a store that obeys it is never answered
  with an error.
\<close>

definition stream_typed :: "string \<Rightarrow> entry option \<Rightarrow> bool" where
  "stream_typed t e \<longleftrightarrow> (\<exists>es. as_stream e = Some es \<and>
     list_all (\<lambda>(i, ps). \<exists>c. command_ok c \<and> ev_tenant_id c = t \<and> ps = serialize_event c) es)"

definition marker_typed :: "entry option \<Rightarrow> bool" where
  "marker_typed e \<longleftrightarrow> e = None \<or> (\<exists>d. e = Some (RString (Text ''1''), d))"

definition typed_store :: "int \<Rightarrow> (string \<Rightarrow> entry option) \<Rightarrow> bool" where
  "typed_store now v \<longleftrightarrow> (\<forall>t.
     stream_typed t (v (stream_key t)) \<and>
     tenant_bucket_ok t now (v (bucket_key t)) \<and>
     as_zset (v (concurrency_key t)) \<noteq> None \<and>
     as_hash (v (pricing_key t)) \<noteq> None \<and>
     (\<forall>i. as_hash (v (invoice_key t i)) \<noteq> None) \<and>
     (\<forall>i. marker_typed (v (idempotency_key t i))))"

inductive typed_call :: "call \<Rightarrow> bool" where
  records: "command_ok c \<Longrightarrow> typed_call (Cmd (XADD (stream_key (ev_tenant_id c)) (serialize_event c)))"
| claims: "0 < n \<Longrightarrow> typed_call (Cmd (SET_NX_EX (idempotency_key t i) (Text ''1'') n))"
| counts: "typed_call (Cmd (XLEN (stream_key t)))"
| prices: "typed_call (Cmd (HGET (pricing_key t) f))"
| reads: "typed_call (Cmd (HGETALL (invoice_key t i)))"
| writes: "ps \<noteq> [] \<Longrightarrow> typed_call (Cmd (HSET (invoice_key t i) ps))"
| renews: "0 < n \<Longrightarrow> typed_call (Cmd (EXPIRE (invoice_key t i) n))"
| takes: "typed_call (Eval (acquire_lua (concurrency_key t) (concurrency_cap t) now cutoff slot SLOT_TTL_SECONDS))"
| gives: "typed_call (Cmd (ZREM (concurrency_key t) slot))"
| draws: "0 \<le> x \<Longrightarrow>
    typed_call (Eval (token_bucket_lua (bucket_key t) (plan_capacity t) (plan_rate t) x BUCKET_TTL_SECONDS))"

lemma typed_storeD:
  assumes "typed_store now v"
  shows "stream_typed t (v (stream_key t))" "tenant_bucket_ok t now (v (bucket_key t))"
    "\<exists>z. as_zset (v (concurrency_key t)) = Some z" "\<exists>h. as_hash (v (pricing_key t)) = Some h"
    "\<exists>h. as_hash (v (invoice_key t i)) = Some h"
    "marker_typed (v (idempotency_key t i))"
  using assms by (auto simp: typed_store_def)

text \<open>Writes that keep the schema.\<close>

lemma typed_store_write:
  assumes "typed_store now v"
  shows "stream_typed t e \<Longrightarrow> typed_store now (v(stream_key t := e))"
    and "tenant_bucket_ok t now e \<Longrightarrow> typed_store now (v(bucket_key t := e))"
    and "as_zset e = Some z \<Longrightarrow> typed_store now (v(concurrency_key t := e))"
    and "as_hash e = Some h \<Longrightarrow> typed_store now (v(invoice_key t i := e))"
    and "marker_typed e \<Longrightarrow> typed_store now (v(idempotency_key t i := e))"
  using assms unfolding typed_store_def fun_upd_apply by simp_all

context redis_server
begin

text \<open>Each request keeps the schema, and is not answered with an error.\<close>

lemma typed_records:
  assumes ty: "typed_store (clock s) (view s)" and c: "command_ok c"
    and run: "serve exec (Cmd (XADD (stream_key (ev_tenant_id c)) (serialize_event c))) s = (r, s')"
  shows "typed_store (clock s') (view s') \<and> (\<forall>e. r \<noteq> RError e)"
proof -
  from typed_storeD(1) [OF ty] obtain es where es: "as_stream (view s (stream_key (ev_tenant_id c))) = Some es"
    and all: "list_all (\<lambda>(i, ps). \<exists>x. command_ok x \<and> ev_tenant_id x = ev_tenant_id c \<and> ps = serialize_event x) es"
    by (auto simp: stream_typed_def)
  obtain i s1 where "exec (XADD (stream_key (ev_tenant_id c)) (serialize_event c)) s = (RBulk (Text i), s1)"
    and "view s1 = (view s)(stream_key (ev_tenant_id c) := Some (RStream (es @ [(i, serialize_event c)]),
           deadline_of (view s (stream_key (ev_tenant_id c)))))" and "clock s1 = clock s"
    by (rule xadd_view [OF es serialize_nonempty])
  moreover have "stream_typed (ev_tenant_id c) (Some (RStream (es @ [(i, serialize_event c)]), d))" for d
    using all c by (auto simp: stream_typed_def)
  ultimately show ?thesis using run by (auto intro: typed_store_write(1) [OF ty])
qed

lemma typed_claims:
  assumes ty: "typed_store (clock s) (view s)" and n: "0 < n"
    and run: "serve exec (Cmd (SET_NX_EX (idempotency_key t i) (Text ''1'') n)) s = (r, s')"
  shows "typed_store (clock s') (view s') \<and> (\<forall>e. r \<noteq> RError e)"
proof (cases "view s (idempotency_key t i) = None")
  case True
  obtain s1 where "exec (SET_NX_EX (idempotency_key t i) (Text ''1'') n) s = (RBulk (Text ''OK''), s1)"
    and "view s1 = (view s)(idempotency_key t i := Some (RString (Text ''1''), Some (clock s + n * usec)))"
    and "clock s1 = clock s"
    by (rule set_nx_view [OF True n])
  with run show ?thesis
    by (auto intro!: typed_store_write(5) [OF ty] simp: marker_typed_def)
next
  case False
  from set_nx_taken [OF this n, of "Text ''1''"] run ty show ?thesis by auto
qed

lemma typed_writes:
  assumes ty: "typed_store (clock s) (view s)" and ps: "ps \<noteq> []"
    and run: "serve exec (Cmd (HSET (invoice_key t i) ps)) s = (r, s')"
  shows "typed_store (clock s') (view s') \<and> (\<forall>e. r \<noteq> RError e)"
proof -
  from typed_storeD(5) [OF ty] obtain h where "as_hash (view s (invoice_key t i)) = Some h" by blast
  then obtain m s1 where "exec (HSET (invoice_key t i) ps) s = (RInt m, s1)"
    and "view s1 = (view s)(invoice_key t i := Some (RHash (update_fields h ps), deadline_of (view s (invoice_key t i))))"
    and "clock s1 = clock s"
    by (rule hset_view [OF _ ps])
  with run show ?thesis by (auto intro!: typed_store_write(4) [OF ty])
qed

lemma typed_renews:
  assumes ty: "typed_store (clock s) (view s)" and n: "0 < n"
    and run: "serve exec (Cmd (EXPIRE (invoice_key t i) n)) s = (r, s')"
  shows "typed_store (clock s') (view s') \<and> (\<forall>e. r \<noteq> RError e)"
proof -
  from typed_storeD(5) [OF ty] obtain h where h: "as_hash (view s (invoice_key t i)) = Some h" by blast
  obtain j s1 where "exec (EXPIRE (invoice_key t i) n) s = (RInt j, s1)"
    and "view s1 = (view s)(invoice_key t i := map_option (\<lambda>(v, _). (v, Some (clock s + n * usec))) (view s (invoice_key t i)))"
    and "clock s1 = clock s"
    by (rule expire_view [OF n])
  with run h show ?thesis by (auto intro!: typed_store_write(4) [OF ty])
qed

lemma typed_takes:
  assumes ty: "typed_store (clock s) (view s)"
    and run: "serve exec (Eval (acquire_lua (concurrency_key t) (concurrency_cap t) now cutoff slot SLOT_TTL_SECONDS)) s = (r, s')"
  shows "typed_store (clock s') (view s') \<and> (\<forall>e. r \<noteq> RError e)"
proof -
  from typed_storeD(3) [OF ty] obtain z where z: "as_zset (view s (concurrency_key t)) = Some z" by blast
  let ?live = "drop_scores cutoff z"
  obtain s1 where "run_lua exec (acquire_lua (concurrency_key t) (concurrency_cap t) now cutoff slot SLOT_TTL_SECONDS) s
      = (acquire_reply (concurrency_cap t) ?live, s1)"
    and "view s1 = (view s)(concurrency_key t := zset_entry (acquire_members (concurrency_cap t) now slot ?live)
           (Some (clock s + SLOT_TTL_SECONDS * usec)))" and "clock s1 = clock s"
    by (rule run_acquire_lua [OF z slot_ttl_pos refl])
  with run show ?thesis
    by (auto intro!: typed_store_write(3) [OF ty] simp: acquire_reply_no_error)
qed

lemma typed_gives:
  assumes ty: "typed_store (clock s) (view s)"
    and run: "serve exec (Cmd (ZREM (concurrency_key t) slot)) s = (r, s')"
  shows "typed_store (clock s') (view s') \<and> (\<forall>e. r \<noteq> RError e)"
proof -
  from typed_storeD(3) [OF ty] obtain z where z: "as_zset (view s (concurrency_key t)) = Some z" by blast
  obtain m s1 where "exec (ZREM (concurrency_key t) slot) s = (RInt m, s1)"
    and "view s1 = (view s)(concurrency_key t := zset_entry (AList.delete slot z) (deadline_of (view s (concurrency_key t))))"
    and "clock s1 = clock s"
    by (rule zrem_view [OF z])
  with run show ?thesis by (auto intro!: typed_store_write(3) [OF ty])
qed

lemma typed_draws:
  assumes ty: "typed_store (clock s) (view s)" and x: "0 \<le> x"
    and run: "serve exec (Eval (token_bucket_lua (bucket_key t) (plan_capacity t) (plan_rate t) x BUCKET_TTL_SECONDS)) s = (r, s')"
  shows "typed_store (clock s') (view s') \<and> (\<forall>e. r \<noteq> RError e)"
proof -
  obtain s1 where "run_lua exec (token_bucket_lua (bucket_key t) (plan_capacity t) (plan_rate t) x BUCKET_TTL_SECONDS) s
      = (bucket_reply (level (plan_capacity t) (plan_rate t) (view s (bucket_key t)) (clock s)) x (plan_rate t), s1)"
    and post: "bucket_ok (plan_capacity t) BUCKET_TTL_SECONDS (clock s1) (view s1 (bucket_key t))"
      "clock s1 = clock s" and v: "view s1 = (view s)(bucket_key t := view s1 (bucket_key t))"
    by (rule bucket_consume [OF typed_storeD(2) [OF ty, unfolded tenant_bucket_ok_def] bucket_ttl_pos
          order.strict_implies_order [OF plan_numbers(1) [of t]] plan_numbers(2) x])
  with run have r: "s' = s1" "r \<noteq> RError e" for e by (auto simp: bucket_reply_no_error)
  have "typed_store (clock s) ((view s)(bucket_key t := view s1 (bucket_key t)))"
    using post by (intro typed_store_write(2) [OF ty]) (simp add: tenant_bucket_ok_def)
  with v post(2) r show ?thesis by simp
qed

lemma typed_served:
  assumes "typed_call c" and ty: "typed_store (clock s) (view s)" and run: "serve exec c s = (r, s')"
  shows "typed_store (clock s') (view s') \<and> (\<forall>e. r \<noteq> RError e)"
  using assms(1)
proof cases
  case (records c)
  with typed_records [OF ty] run show ?thesis by blast
next
  case (claims n t i)
  with typed_claims [OF ty] run show ?thesis by blast
next
  case (counts t)
  from typed_storeD(1) [OF ty] obtain es where "as_stream (view s (stream_key t)) = Some es"
    by (auto simp: stream_typed_def)
  from xlen [OF this] run counts ty show ?thesis by auto
next
  case (prices t f)
  from typed_storeD(4) [OF ty] obtain h where "as_hash (view s (pricing_key t)) = Some h" by blast
  from hget [OF this] run prices ty show ?thesis by auto
next
  case (reads t i)
  from typed_storeD(5) [OF ty] obtain h where "as_hash (view s (invoice_key t i)) = Some h" by blast
  from hgetall [OF this] run reads ty show ?thesis by auto
next
  case (writes ps t i)
  with typed_writes [OF ty] run show ?thesis by blast
next
  case (renews n t i)
  with typed_renews [OF ty] run show ?thesis by blast
next
  case (takes t now cutoff slot)
  with typed_takes [OF ty] run show ?thesis by blast
next
  case (gives t slot)
  with typed_gives [OF ty] run show ?thesis by blast
next
  case (draws x t)
  with typed_draws [OF ty] run show ?thesis by blast
qed

lemma typed_elapse:
  assumes "typed_store (clock s) (view s)"
  shows "typed_store (clock (elapse d s)) (view (elapse d s))"
proof -
  have live: "view (elapse d s) k = None \<or> view (elapse d s) k = view s k" for k by (rule elapse_either)
  have "stream_typed t (view (elapse d s) (stream_key t))" for t
    using live [of "stream_key t"] typed_storeD(1) [OF assms, of t] by (auto simp: stream_typed_def)
  moreover have "tenant_bucket_ok t (clock (elapse d s)) (view (elapse d s) (bucket_key t))" for t
    by (rule tenant_bucket_elapse(1) [OF typed_storeD(2) [OF assms]])
  moreover have "as_zset (view (elapse d s) (concurrency_key t)) \<noteq> None" for t
    using live [of "concurrency_key t"] typed_storeD(3) [OF assms, of t] by auto
  moreover have "as_hash (view (elapse d s) (pricing_key t)) \<noteq> None" for t
    using live [of "pricing_key t"] typed_storeD(4) [OF assms, of t] by auto
  moreover have "as_hash (view (elapse d s) (invoice_key t i)) \<noteq> None" for t i
    using live [of "invoice_key t i"] typed_storeD(5) [OF assms, of t i] by auto
  moreover have "marker_typed (view (elapse d s) (idempotency_key t i))" for t i
    using live [of "idempotency_key t i"] typed_storeD(6) [OF assms, of t i] by (auto simp: marker_typed_def)
  ultimately show ?thesis by (simp add: typed_store_def)
qed

end

sublocale redis_server \<subseteq> typed: guarded_store exec elapse typed_call "\<lambda>s. typed_store (clock s) (view s)"
  by unfold_locales (use typed_served typed_elapse in blast)+

context redis_server
begin

lemma reach_typed:
  assumes "sys_reach exec elapse req s0 T (s, ps)" and "\<forall>p \<in> req. calls_in typed_call p"
    and "typed_store (clock s0) (view s0)"
  shows "typed_store (clock s) (view s)"
  using typed.reach_inv [OF assms] by simp

end

subsection \<open>The application makes typed requests only\<close>

lemma lift_typed: "typed_call c \<Longrightarrow> calls_in typed_call (redis_py c)"
  by (rule calls_in_redis_py)

lemma ingest_typed: "command_ok c \<Longrightarrow> calls_in typed_call (ingest_event c)"
  unfolding ingest_event_def record_event_def claim_idempotency_def Let_def
  by (auto intro!: calls_in_bnd lift_typed typed_call.records typed_call.claims simp: idempotency_ttl_pos)

lemma calculate_typed: "calls_in typed_call (calculate_for t c a b)"
  unfolding calculate_for_def Let_def
  by (auto intro!: calls_in_bnd lift_typed typed_call.counts typed_call.prices typed_call.writes typed_call.renews
      simp: invoice_ttl_pos)

lemma generate_typed: "calls_in typed_call (generate_for t i)"
  unfolding generate_for_def Let_def
  by (auto intro!: calls_in_bnd lift_typed typed_call.reads typed_call.writes typed_call.renews)

lemma check_and_consume_typed: "calls_in typed_call (check_and_consume t e)"
proof -
  have "0 \<le> (of_int (cost_of e) :: rat)" using cost_of_bounds(1) [of e] by simp
  then show ?thesis
    unfolding check_and_consume_def consume_def Let_def
    by (auto simp: plan_for_limits intro!: calls_in_bnd lift_typed typed_call.draws)
qed

lemma semaphore_typed:
  "calls_in typed_call (acquire (concurrency_key t) (concurrency_cap t))"
  "calls_in typed_call (release (concurrency_key t) slot)"
  unfolding acquire_def release_def
  by (auto intro!: calls_in_bnd lift_typed typed_call.takes typed_call.gives)

lemma application_typed:
  assumes "framework_ok fw"
  shows "calls_in typed_call (application fw r)"
  unfolding application_transparent [OF assms]
  by (intro converted_calls rate_limit_calls concurrency_calls route_calls [OF assms] views_calls [OF assms])
     (simp_all add: check_and_consume_typed semaphore_typed ingest_typed calculate_typed generate_typed)

text \<open>
  C9. The store keeps its schema, and no request goes wrong: whatever requests of whatever
  tenants arrive, interleave and fail, every key family keeps its Redis type, each stream
  of a tenant holds only well-formed events of that tenant (named, with a key, with a value
  that is not negative), and no call that any process is about to make would be answered by
  the server with an error. So a Redis error a request meets is always one of the network.
\<close>

theorem store_stays_typed:
  assumes srv: "redis_server exec view clock elapse" and fw: "framework_ok fw"
    and reach: "sys_reach exec elapse (range (application fw)) s0 T (s, ps)"
    and start: "typed_store (clock s0) (view s0)"
  shows "typed_store (clock s) (view s) \<and>
    (\<forall>i c k. i < length ps \<and> ps ! i = Call c k \<longrightarrow> (\<forall>e. fst (serve exec c s) \<noteq> RError e))"
proof -
  have all: "\<forall>p \<in> range (application fw). calls_in typed_call p" using application_typed [OF fw] by blast
  have ty: "typed_store (clock s) (view s)"
    using redis_server.reach_typed [OF srv reach all start] .
  have "\<forall>e. fst (serve exec c s) \<noteq> RError e" if "i < length ps" and "ps ! i = Call c k" for i c k
  proof -
    have "\<forall>p \<in> set ps. calls_in typed_call p"
      using sys_reach_threads [OF reach step_closed_calls_in all] by simp
    with that have "calls_in typed_call (Call c k)" by (metis nth_mem)
    then have "typed_call c" by simp
    from redis_server.typed_served [OF srv this ty, of "fst (serve exec c s)" "snd (serve exec c s)"]
    show ?thesis by simp
  qed
  with ty show ?thesis by blast
qed

theorem store_stays_typed_witness:
  "\<exists>s resp. sys_reach mem_exec mem_elapse (range (application sample_framework)) (mem_at 0) 0 (s, [Return resp])
     \<and> typed_store (mem_clock s) (mem_data s)"
proof -
  obtain s resp where r: "sys_reach mem_exec mem_elapse (range (application sample_framework)) (mem_at 0) 0 (s, [Return resp])"
    by (rule sample_reach [of "range (application sample_framework)"]) simp_all
  have "typed_store (mem_clock (mem_at 0)) (mem_data (mem_at 0))"
    by (simp add: typed_store_def stream_typed_def tenant_bucket_ok_def marker_typed_def mem_at_def)
  from store_stays_typed [OF mem.redis_server_axioms, OF sample_framework_ok r this] r show ?thesis by blast
qed

end
