(* ===== verification/Slot_Discipline.thy ===== *)
theory Slot_Discipline imports Application begin

text \<open>
  How a request uses its slot of the semaphore, as a property of programs. \<open>slot_ok\<close> follows
  what a thread has drawn, read and taken: it asks for a slot under an identifier it drew
  and with times it read, it gives back only the slot it holds, and it touches the
  semaphore's key in no other way. \<open>must_release\<close> holds of a program every path of which
  sends the release: this is what it means to be in flight. The lemmas show that the
  application obeys the discipline for every tenant.
\<close>

primrec must_release :: "string \<Rightarrow> string \<Rightarrow> 'a prog \<Rightarrow> bool" where
  "must_release k x (Return y) = False"
| "must_release k x (Raise e) = False"
| "must_release k x (Call c f) = (c = Cmd (ZREM k x) \<or> (\<forall>r. must_release k x (f r)))"
| "must_release k x (Now f) = (\<forall>t. must_release k x (f t))"
| "must_release k x (Uuid4 f) = (\<forall>u. must_release k x (f u))"

definition holds_slot :: "string \<Rightarrow> 'a prog \<Rightarrow> bool" where
  "holds_slot k p \<longleftrightarrow> (\<exists>x. must_release k x p)"

datatype slot_state = Free | Held string

abbreviation quiet :: "string \<Rightarrow> 'a prog \<Rightarrow> bool" where
  "quiet k \<equiv> calls_in (call_cmds (\<lambda>x. key_of x \<noteq> Some k))"

definition asks_slot :: "string \<Rightarrow> int \<Rightarrow> rat set \<Rightarrow> string \<Rightarrow> call \<Rightarrow> bool" where
  "asks_slot k cap R x c \<longleftrightarrow> (\<exists>\<tau> \<in> R. \<exists>\<tau>' \<in> R. c =
     Eval (acquire_lua k cap (fmt6 \<tau>) (fmt6 (\<tau>' - of_int SLOT_TTL_SECONDS)) x SLOT_TTL_SECONDS))"

definition answer_state :: "string \<Rightarrow> reply \<Rightarrow> slot_state" where
  "answer_state x r = (if \<exists>n. r = RArray [RInt 1, RInt n] then Held x else Free)"

text \<open>
  The moves of a thread with the semaphore: from a state and a set of unused identifiers to
  the state each reply leads to, and the identifiers left.
\<close>

inductive slot_move :: "string \<Rightarrow> int \<Rightarrow> rat set \<Rightarrow> call \<Rightarrow> slot_state \<Rightarrow> string set
    \<Rightarrow> (reply \<Rightarrow> slot_state) \<Rightarrow> string set \<Rightarrow> bool" for k cap R where
  asks: "x \<in> D \<Longrightarrow> asks_slot k cap R x c \<Longrightarrow> slot_move k cap R c Free D (answer_state x) (D - {x})"
| gives: "slot_move k cap R (Cmd (ZREM k x)) (Held x) D (\<lambda>_. Free) D"
| other: "call_cmds (\<lambda>x. key_of x \<noteq> Some k) c \<Longrightarrow> slot_move k cap R c st D (\<lambda>_. st) D"

primrec slot_ok :: "string \<Rightarrow> int \<Rightarrow> 'a prog \<Rightarrow> slot_state \<Rightarrow> string set \<Rightarrow> rat set \<Rightarrow> bool" where
  "slot_ok k cap (Return y) st D R = True"
| "slot_ok k cap (Raise e) st D R = True"
| "slot_ok k cap (Now f) st D R = (\<forall>t. slot_ok k cap (f t) st D (insert t R))"
| "slot_ok k cap (Uuid4 f) st D R = (\<forall>u. slot_ok k cap (f u) st (insert u D) R)"
| "slot_ok k cap (Call c f) st D R =
     (\<exists>nx D'. slot_move k cap R c st D nx D' \<and> (\<forall>r. slot_ok k cap (f r) (nx r) D' R))"

lemma slot_move_mono:
  assumes "slot_move k cap R c st D nx D1" and "D \<subseteq> E" and "R \<subseteq> R'"
  obtains E1 where "slot_move k cap R' c st E nx E1" and "D1 \<subseteq> E1"
  using assms(1)
proof cases
  case (asks x)
  have "asks_slot k cap R' x c" using asks(5) assms(3) by (auto simp: asks_slot_def)
  with asks assms(2) show ?thesis by (intro that [of "E - {x}"]) (auto intro: slot_move.asks)
next
  case (gives x)
  with assms(2) show ?thesis by (intro that [of E]) (auto intro: slot_move.gives)
next
  case other
  with assms(2) show ?thesis by (intro that [of E]) (auto intro: slot_move.other)
qed

text \<open>What a thread may owe.\<close>

lemma free_owes_nothing: "slot_ok k cap p Free D R \<Longrightarrow> \<not> must_release k y p"
proof (induction p arbitrary: D R)
  case (Call c f)
  then obtain nx D' where m: "slot_move k cap R c Free D nx D'" and ok: "\<And>r. slot_ok k cap (f r) (nx r) D' R"
    by auto
  from m have "nx RNil = Free" and "c \<noteq> Cmd (ZREM k y)"
    by (cases; simp add: answer_state_def asks_slot_def; auto)+
  moreover from this(1) ok [of RNil] have "slot_ok k cap (f RNil) Free D' R" by simp
  from Call.IH [OF rangeI this] have "\<not> must_release k y (f RNil)" .
  ultimately show ?case by auto
next
  case (Now f)
  from Now.prems have "slot_ok k cap (f 0) Free D (insert 0 R)" by simp
  from Now.IH [OF rangeI this] show ?case by auto
next
  case (Uuid4 f)
  from Uuid4.prems have "slot_ok k cap (f []) Free (insert [] D) R" by simp
  from Uuid4.IH [OF rangeI this] show ?case by auto
qed simp_all

lemma owes_what_it_holds: "slot_ok k cap p st D R \<Longrightarrow> must_release k y p \<Longrightarrow> st = Held y"
proof (induction p arbitrary: D R)
  case (Call c f)
  have "st \<noteq> Free"
  proof
    assume "st = Free"
    with Call.prems(1) have "slot_ok k cap (Call c f) Free D R" by simp
    from free_owes_nothing [OF this] Call.prems(2) show False by blast
  qed
  from Call.prems(1) obtain nx D' where m: "slot_move k cap R c st D nx D'"
    and ok: "\<And>r. slot_ok k cap (f r) (nx r) D' R" by auto
  from m show ?case
  proof cases
    case (gives x)
    then have "\<not> must_release k y (f RNil)" using free_owes_nothing ok [of RNil] by fastforce
    with Call.prems(2) gives show ?thesis by auto
  next
    case other
    with Call.prems(2) have "must_release k y (f RNil)" by auto
    moreover from other ok [of RNil] have "slot_ok k cap (f RNil) st D R" by simp
    ultimately show ?thesis using Call.IH [OF rangeI] by blast
  qed (use \<open>st \<noteq> Free\<close> in simp)
next
  case (Now f)
  from Now.prems have "slot_ok k cap (f 0) st D (insert 0 R)" "must_release k y (f 0)" by simp_all
  from Now.IH [OF rangeI this] show ?case .
next
  case (Uuid4 f)
  from Uuid4.prems have "slot_ok k cap (f []) st (insert [] D) R" "must_release k y (f [])" by simp_all
  from Uuid4.IH [OF rangeI this] show ?case .
qed simp_all

subsection \<open>The discipline and the program constructors\<close>

lemma slot_ok_mono: "slot_ok k cap p st D R \<Longrightarrow> D \<subseteq> E \<Longrightarrow> R \<subseteq> R' \<Longrightarrow> slot_ok k cap p st E R'"
proof (induction p arbitrary: st D R E R')
  case (Call c f)
  from Call.prems(1) obtain nx D1 where m: "slot_move k cap R c st D nx D1"
    and ok: "\<And>r. slot_ok k cap (f r) (nx r) D1 R" by auto
  from m Call.prems(2,3) obtain E1 where "slot_move k cap R' c st E nx E1" and "D1 \<subseteq> E1"
    by (rule slot_move_mono)
  moreover have "slot_ok k cap (f r) (nx r) E1 R'" for r
    by (rule Call.IH [OF rangeI ok \<open>D1 \<subseteq> E1\<close> Call.prems(3)])
  ultimately show ?case by auto
next
  case (Now f)
  have "slot_ok k cap (f t) st E (insert t R')" for t
    by (rule Now.IH [OF rangeI, of t st D "insert t R"]) (use Now.prems in auto)
  then show ?case by simp
next
  case (Uuid4 f)
  have "slot_ok k cap (f u) st (insert u E) R'" for u
    by (rule Uuid4.IH [OF rangeI, of u st "insert u D" R]) (use Uuid4.prems in auto)
  then show ?case by simp
qed simp_all

lemma slot_ok_elsewhere:
  "call_cmds (\<lambda>x. key_of x \<noteq> Some k) c \<Longrightarrow> (\<And>r. slot_ok k cap (f r) st D R) \<Longrightarrow> slot_ok k cap (Call c f) st D R"
  by (auto intro!: exI slot_move.other)

lemma slot_ok_quiet: "quiet k p \<Longrightarrow> slot_ok k cap p st D R"
proof (induction p arbitrary: D R)
  case (Call c f)
  then show ?case by (intro slot_ok_elsewhere) auto
qed auto

lemma slot_ok_catch:
  "slot_ok k cap p st D R \<Longrightarrow> (\<And>e st D R. slot_ok k cap (h e) st D R) \<Longrightarrow> slot_ok k cap (catch p h) st D R"
proof (induction p arbitrary: st D R)
  case (Call c f)
  from Call.prems(1) obtain nx D1 where "slot_move k cap R c st D nx D1"
    and ok: "\<And>r. slot_ok k cap (f r) (nx r) D1 R" by auto
  moreover have "slot_ok k cap (catch (f r) h) (nx r) D1 R" for r
    by (rule Call.IH [OF rangeI ok Call.prems(2)])
  ultimately show ?case by auto
qed auto

lemma slot_ok_try_else:
  assumes "quiet k p" and "\<And>e D R. slot_ok k cap (h e) st D R" and "\<And>x D R. slot_ok k cap (f x) st D R"
  shows "slot_ok k cap (try_else p h f) st D R"
  using assms(1)
proof (induction p arbitrary: D R)
  case (Call c g)
  then show ?case unfolding try_else.simps by (intro slot_ok_elsewhere) auto
qed (auto simp: assms(2,3))

text \<open>The section behind the semaphore: whatever runs in it, the slot is given back.\<close>

lemma release_program:
  "bnd (catch (release k x) (\<lambda>e. Return ())) (\<lambda>_. q) = Call (Cmd (ZREM k x)) (\<lambda>_. q)"
proof -
  have "catch (bnd (case r of RError e \<Rightarrow> Raise (RedisError e) | _ \<Rightarrow> Return r) (\<lambda>_. Return ())) (\<lambda>e. Return ()) = Return ()" for r
    by (simp split: reply.split)
  then show ?thesis by (simp add: release_def redis_py_def)
qed

lemma guarded_section:
  assumes "quiet k p"
  shows "slot_ok k cap (finally_do p (catch (release k x) (\<lambda>e. Return ()))) (Held x) D R"
    and "must_release k x (finally_do p (catch (release k x) (\<lambda>e. Return ())))"
proof -
  let ?rel = "catch (release k x) (\<lambda>e. Return ())"
  note rel = release_program [of k x]
  have last: "slot_ok k cap (bnd ?rel (\<lambda>_. q)) (Held x) D R" if "\<And>D R. slot_ok k cap q Free D R"
    for q :: "'a prog" and D R
    unfolding rel slot_ok.simps using slot_move.gives that by blast
  show "slot_ok k cap (finally_do p ?rel) (Held x) D R"
    using assms
  proof (induction p arbitrary: D R)
    case (Call c f)
    then show ?case unfolding finally_do.simps by (intro slot_ok_elsewhere) auto
  qed (use last in auto)
  show "must_release k x (finally_do p ?rel)"
  proof (induction p)
    case (Return y)
    show ?case by (simp only: finally_do.simps rel must_release.simps simp_thms)
  next
    case (Raise e)
    show ?case by (simp only: finally_do.simps rel must_release.simps simp_thms)
  qed simp_all
qed

subsection \<open>The application\<close>

lemma use_cases_quiet:
  "quiet (concurrency_key t) (ingest_event c)" "quiet (concurrency_key t) (calculate_for u x a b)"
  "quiet (concurrency_key t) (generate_for u i)" "quiet (concurrency_key t) (check_and_consume u e)"
  unfolding ingest_event_def record_event_def claim_idempotency_def calculate_for_def generate_for_def
    check_and_consume_def consume_def Let_def
  by (auto intro!: calls_in_bnd calls_in_redis_py bucket_lua_cmds)

lemma route_quiet:
  assumes "framework_ok fw"
  shows "quiet (concurrency_key t) (route fw r)"
  by (intro route_calls [OF assms] views_calls [OF assms]) (simp_all add: use_cases_quiet)

lemma other_tenant_quiet:
  assumes "framework_ok fw" and "header_tenant r \<noteq> t"
  shows "quiet (concurrency_key t) (application fw r)"
proof (rule calls_in_mono [OF application_tenant_calls [OF assms(1)]])
  fix c assume "tenant_call (header_tenant r) c"
  from tenant_call_keys [OF this]
  show "call_cmds (\<lambda>x. key_of x \<noteq> Some (concurrency_key t)) c"
    by (rule call_cmds_mono) (use assms(2) in auto)
qed

lemma slot_ok_converted: "slot_ok k cap (h r) st D R \<Longrightarrow> slot_ok k cap (converted fw h r) st D R"
  unfolding converted_def by (rule slot_ok_catch) simp_all

text \<open>What the answer to the request for a slot leads to.\<close>

lemma acquire_program:
  "try_else (acquire k cap) h f = Now (\<lambda>t. Uuid4 (\<lambda>x. Call
     (Eval (acquire_lua k cap (fmt6 t) (fmt6 (t - of_int SLOT_TTL_SECONDS)) x SLOT_TTL_SECONDS))
     (\<lambda>r. case r of RError e \<Rightarrow> h (RedisError e)
        | _ \<Rightarrow> (case slot_handle x r of Inl e \<Rightarrow> h e | Inr sh \<Rightarrow> f sh))))"
  by (auto simp: acquire_def redis_py_def lift_exn_def fun_eq_iff split: reply.split sum.split)

lemma slot_handle_admitted:
  "slot_handle x r = Inr sh \<Longrightarrow> admitted sh \<Longrightarrow> slot_id sh = x \<and> answer_state x r = Held x"
  by (cases "(x, r)" rule: slot_handle.cases) (auto simp: answer_state_def)

lemma slot_handle_rejected:
  "slot_handle x r = Inr sh \<Longrightarrow> \<not> admitted sh \<Longrightarrow> answer_state x r = Free"
  by (cases "(x, r)" rule: slot_handle.cases) (auto simp: answer_state_def)

lemma gate_slot_ok:
  assumes q: "quiet (concurrency_key t) (h r)" and t: "header_tenant r = t"
  shows "slot_ok (concurrency_key t) (concurrency_cap t) (concurrency_middleware h r) Free D R"
proof (cases "req_path r \<notin> set HEAVY_ENDPOINTS \<or> header_tenant r = []")
  case True
  with q show ?thesis by (simp add: concurrency_passes slot_ok_quiet)
next
  case False
  then have heavy: "req_path r \<in> set HEAVY_ENDPOINTS" "header_tenant r \<noteq> []" by simp_all
  let ?k = "concurrency_key t" and ?cap = "concurrency_cap t"
  let ?f = "\<lambda>sh. if \<not> admitted sh then Return (concurrency_limit_response t (in_flight sh) ?cap)
        else finally_do (h r) (catch (release ?k (slot_id sh)) (\<lambda>e. Return ()))"
  have served: "slot_ok ?k ?cap (case r' of RError e \<Rightarrow> h r
        | _ \<Rightarrow> (case slot_handle x r' of Inl e \<Rightarrow> h r | Inr sh \<Rightarrow> ?f sh)) (answer_state x r') D' R'" for r' x D' R'
  proof (cases "slot_handle x r'")
    case (Inl e)
    then show ?thesis by (auto simp: slot_ok_quiet [OF q] split: reply.split)
  next
    case (Inr sh)
    show ?thesis
    proof (cases "admitted sh")
      case True
      from slot_handle_admitted [OF Inr True] Inr True show ?thesis
        by (auto simp: slot_ok_quiet [OF q] guarded_section(1) [OF q] split: reply.split)
    next
      case False
      with Inr show ?thesis by (auto simp: slot_ok_quiet [OF q] split: reply.split)
    qed
  qed
  have "slot_ok ?k ?cap (try_else (acquire ?k ?cap) (\<lambda>e. h r) ?f) Free D R"
    unfolding acquire_program slot_ok.simps
  proof (intro allI exI conjI)
    fix \<tau> x r'
    show "slot_move ?k ?cap (insert \<tau> R) (Eval (acquire_lua ?k ?cap (fmt6 \<tau>) (fmt6 (\<tau> - of_int SLOT_TTL_SECONDS)) x SLOT_TTL_SECONDS))
        Free (insert x D) (answer_state x) (insert x D - {x})"
      by (rule slot_move.asks) (auto simp: asks_slot_def)
    show "slot_ok ?k ?cap (case r' of RError e \<Rightarrow> h r
        | _ \<Rightarrow> (case slot_handle x r' of Inl e \<Rightarrow> h r | Inr sh \<Rightarrow> ?f sh)) (answer_state x r') (insert x D - {x}) (insert \<tau> R)"
      by (rule served)
  qed
  then show ?thesis unfolding concurrency_guarded [OF heavy] t .
qed

lemma application_slot_ok:
  assumes fw: "framework_ok fw"
  shows "slot_ok (concurrency_key t) (concurrency_cap t) (application fw r) Free {} {}"
proof (cases "header_tenant r = t")
  case False
  then show ?thesis by (intro slot_ok_quiet other_tenant_quiet [OF fw])
next
  case True
  let ?k = "concurrency_key t" and ?cap = "concurrency_cap t"
  let ?inner = "converted fw (concurrency_middleware (converted fw (converted fw (route fw))))"
  have q: "quiet ?k (converted fw (converted fw (route fw)) r)"
    by (intro converted_calls route_quiet [OF fw])
  have inner: "slot_ok ?k ?cap (?inner r) Free D R" for D R
    using gate_slot_ok [where h = "converted fw (converted fw (route fw))", OF q True] by (rule slot_ok_converted)
  have "quiet ?k (reject d)" for d
    unfolding reject_def Let_def by (intro calls_in_bnd) simp_all
  then have "slot_ok ?k ?cap (if rl_allowed d then ?inner r else reject d) Free D R" for d D R
    by (simp add: inner slot_ok_quiet)
  then have "slot_ok ?k ?cap (rate_limit_middleware ?inner r) Free {} {}"
    unfolding rate_limit_middleware_def Let_def
    using inner by (auto intro!: slot_ok_try_else use_cases_quiet)
  then show ?thesis unfolding application_transparent [OF fw] by (rule slot_ok_converted)
qed

end
