(* ===== verification/In_Flight.thy ===== *)
theory In_Flight imports Slot_Discipline Scenarios begin

text \<open>
  How many heavy requests of a tenant are between admission and release, under every
  interleaving. \<open>Programs.sys_step\<close> leaves clocks, identifiers and the life of a process
  free; here each move is labelled, each thread carries the server time of its arrival, and
  \<open>prompt\<close> says which moves a well-run deployment makes: a clock reading is within \<open>skew\<close> of
  the server's clock, an identifier is new, and a request is over, one way or another,
  within \<open>dur\<close> microseconds. Requests and replies are lost and processes die as before.
  With that at most the plan's cap of threads hold a slot.
\<close>

subsection \<open>The system with clocks\<close>

datatype move = Delivers | Unsends | Loses | Read rat | Draw string | Dies | Arrive | Passes nat

type_synonym ('s, 'a) watched = "'s \<times> string set \<times> (int \<times> 'a prog) list"

fun ended :: "'a prog \<Rightarrow> bool" where
  "ended (Return x) = True"
| "ended (Raise e) = True"
| "ended _ = False"

inductive watch_step :: "'s exec \<Rightarrow> (nat \<Rightarrow> 's \<Rightarrow> 's) \<Rightarrow> ('s \<Rightarrow> int) \<Rightarrow> 'a prog set
    \<Rightarrow> ('s, 'a) watched \<Rightarrow> move \<Rightarrow> ('s, 'a) watched \<Rightarrow> bool"
  for ex elapse clock req where
  delivered: "i < length ps \<Longrightarrow> ps ! i = (a, Call c f) \<Longrightarrow> serve ex c s = (r, s') \<Longrightarrow>
     watch_step ex elapse clock req (s, U, ps) Delivers (s', U, ps[i := (a, f r)])"
| unsent: "i < length ps \<Longrightarrow> ps ! i = (a, Call c f) \<Longrightarrow>
     watch_step ex elapse clock req (s, U, ps) Unsends (s, U, ps[i := (a, f (RError e))])"
| lost: "i < length ps \<Longrightarrow> ps ! i = (a, Call c f) \<Longrightarrow> serve ex c s = (r, s') \<Longrightarrow>
     watch_step ex elapse clock req (s, U, ps) Loses (s', U, ps[i := (a, f (RError e))])"
| reads_clock: "i < length ps \<Longrightarrow> ps ! i = (a, Now f) \<Longrightarrow>
     watch_step ex elapse clock req (s, U, ps) (Read t) (s, U, ps[i := (a, f t)])"
| draws_uuid: "i < length ps \<Longrightarrow> ps ! i = (a, Uuid4 f) \<Longrightarrow>
     watch_step ex elapse clock req (s, U, ps) (Draw u) (s, insert u U, ps[i := (a, f u)])"
| dies: "i < length ps \<Longrightarrow> ps ! i = (a, p) \<Longrightarrow>
     watch_step ex elapse clock req (s, U, ps) Dies (s, U, ps[i := (a, Raise e)])"
| arrives: "p \<in> req \<Longrightarrow> watch_step ex elapse clock req (s, U, ps) Arrive (s, U, ps @ [(clock s, p)])"
| passes: "watch_step ex elapse clock req (s, U, ps) (Passes d) (elapse d s, U, ps)"

inductive watch_reach :: "(('s, 'a) watched \<Rightarrow> move \<Rightarrow> bool) \<Rightarrow> 's exec \<Rightarrow> (nat \<Rightarrow> 's \<Rightarrow> 's)
    \<Rightarrow> ('s \<Rightarrow> int) \<Rightarrow> 'a prog set \<Rightarrow> 's \<Rightarrow> ('s, 'a) watched \<Rightarrow> bool"
  for ok ex elapse clock req s0 where
  start: "watch_reach ok ex elapse clock req s0 (s0, {}, [])"
| step: "watch_reach ok ex elapse clock req s0 cf \<Longrightarrow> ok cf m \<Longrightarrow>
     watch_step ex elapse clock req cf m cf' \<Longrightarrow> watch_reach ok ex elapse clock req s0 cf'"

fun prompt :: "('s \<Rightarrow> int) \<Rightarrow> int \<Rightarrow> rat \<Rightarrow> ('s, 'a) watched \<Rightarrow> move \<Rightarrow> bool" where
  "prompt clock dur skew (s, U, ps) (Read t) = (\<bar>t - secs (clock s)\<bar> \<le> skew)"
| "prompt clock dur skew (s, U, ps) (Draw u) = (u \<notin> U)"
| "prompt clock dur skew (s, U, ps) (Passes d) = (\<forall>(a, p) \<in> set ps. ended p \<or> clock s + int d < a + dur)"
| "prompt clock dur skew _ _ = True"

subsection \<open>What a thread knows\<close>

text \<open>
  A ghost per thread: its state, the identifiers it has drawn and not used, and the times
  it has read. \<open>held_in\<close>: the slot \<open>x\<close> of a thread that arrived at \<open>a\<close> is recorded, with a
  score no older than its arrival, in an entry that outlives its minute.
\<close>

type_synonym ghost = "slot_state \<times> string set \<times> rat set"

fun owned :: "ghost \<Rightarrow> string set" where
  "owned (Free, D, R) = D"
| "owned (Held x, D, R) = insert x D"

definition held_in :: "rat \<Rightarrow> entry option \<Rightarrow> int \<Rightarrow> string \<Rightarrow> bool" where
  "held_in skew e a x \<longleftrightarrow>
     (\<exists>z \<sigma>. as_zset e = Some z \<and> map_of z x = Some \<sigma> \<and> fmt6 (secs a - skew) \<le> \<sigma>) \<and>
     (\<forall>dl. deadline_of e = Some dl \<longrightarrow> a + SLOT_TTL_SECONDS * usec \<le> dl)"

definition unrecorded :: "string set \<Rightarrow> entry option \<Rightarrow> bool" where
  "unrecorded D e \<longleftrightarrow> (\<forall>z. as_zset e = Some z \<longrightarrow> D \<inter> fst ` set z = {})"

fun ghost_ok :: "int \<Rightarrow> rat \<Rightarrow> int \<Rightarrow> entry option \<Rightarrow> string set \<Rightarrow> int \<Rightarrow> ghost \<Rightarrow> bool" where
  "ghost_ok dur skew now e U a (st, D, R) \<longleftrightarrow>
     a \<le> now \<and> now < a + dur \<and> (\<forall>\<tau> \<in> R. secs a - skew \<le> \<tau> \<and> \<tau> \<le> secs now + skew) \<and>
     owned (st, D, R) \<subseteq> U \<and> unrecorded D e \<and> (\<forall>x. st = Held x \<longrightarrow> x \<notin> D \<and> held_in skew e a x)"

fun disciplined :: "string \<Rightarrow> int \<Rightarrow> 'a prog \<Rightarrow> ghost \<Rightarrow> bool" where
  "disciplined k cap p (st, D, R) = slot_ok k cap p st D R"

definition thread_ok :: "string \<Rightarrow> int \<Rightarrow> int \<Rightarrow> rat \<Rightarrow> int \<Rightarrow> entry option \<Rightarrow> string set
    \<Rightarrow> int \<times> 'a prog \<Rightarrow> ghost \<Rightarrow> bool" where
  "thread_ok k cap dur skew now e U ap g =
     (if ended (snd ap) then owned g = {}
      else disciplined k cap (snd ap) g \<and> ghost_ok dur skew now e U (fst ap) g)"

definition store_ok :: "int \<Rightarrow> string set \<Rightarrow> entry option \<Rightarrow> bool" where
  "store_ok cap U e \<longleftrightarrow> (\<exists>z. as_zset e = Some z \<and> int (length z) \<le> cap \<and> fst ` set z \<subseteq> U)"

definition apart :: "ghost list \<Rightarrow> bool" where
  "apart gs \<longleftrightarrow> (\<forall>i j. i < length gs \<and> j < length gs \<and> i \<noteq> j \<longrightarrow> owned (gs ! i) \<inter> owned (gs ! j) = {})"

lemma unrecorded_grow:
  assumes "unrecorded E e" and "as_zset e = Some z" and "as_zset e' = Some z'"
    and "fst ` set z' \<subseteq> X \<union> fst ` set z" and "E \<inter> X = {}"
  shows "unrecorded E e'"
  using assms by (simp add: unrecorded_def) blast

lemma unrecorded_less: "unrecorded D e \<Longrightarrow> E \<subseteq> D \<Longrightarrow> unrecorded E e"
  by (auto simp: unrecorded_def dest: subsetD)

definition system_ok :: "string \<Rightarrow> int \<Rightarrow> int \<Rightarrow> rat \<Rightarrow> int \<Rightarrow> entry option \<Rightarrow> string set
    \<Rightarrow> (int \<times> 'a prog) list \<Rightarrow> bool" where
  "system_ok k cap dur skew now e U ps \<longleftrightarrow> store_ok cap U e \<and>
     (\<exists>gs. list_all2 (thread_ok k cap dur skew now e U) ps gs \<and> apart gs)"

definition settle :: "'a prog \<Rightarrow> ghost \<Rightarrow> ghost" where
  "settle p g = (if ended p then (Free, {}, {}) else g)"

lemma owned_settle: "owned (settle p g) \<subseteq> owned g"
  by (simp add: settle_def)

lemma thread_settle:
  "disciplined k cap p g \<Longrightarrow> (\<not> ended p \<Longrightarrow> ghost_ok dur skew now e U a g) \<Longrightarrow>
     thread_ok k cap dur skew now e U (a, p) (settle p g)"
  by (simp add: thread_ok_def settle_def)

text \<open>A change of the entry by one thread that does the others no harm.\<close>

definition benign :: "int \<Rightarrow> rat \<Rightarrow> int \<Rightarrow> string set \<Rightarrow> entry option \<Rightarrow> entry option \<Rightarrow> bool" where
  "benign dur skew now X e e' \<longleftrightarrow>
     (\<forall>D. unrecorded D e \<and> D \<inter> X = {} \<longrightarrow> unrecorded D e') \<and>
     (\<forall>a x. held_in skew e a x \<and> x \<notin> X \<and> a \<le> now \<and> now < a + dur \<longrightarrow> held_in skew e' a x)"

lemma benign_refl [simp]: "benign dur skew now X e e"
  by (simp add: benign_def)

lemma ghost_benign:
  assumes "ghost_ok dur skew now e U a g" and "benign dur skew now X e e'" and "owned g \<inter> X = {}" and "U \<subseteq> U'"
  shows "ghost_ok dur skew now e' U' a g"
proof -
  obtain st D R where g: "g = (st, D, R)" by (cases g)
  have "D \<inter> X = {}" and "st = Held x \<Longrightarrow> x \<notin> X" for x using assms(3) g by (cases st; auto)+
  with assms g show ?thesis by (auto simp: benign_def)
qed

lemma thread_benign:
  assumes "thread_ok k cap dur skew now e U ap g" and "benign dur skew now X e e'" and "owned g \<inter> X = {}" and "U \<subseteq> U'"
  shows "thread_ok k cap dur skew now e' U' ap g"
  using assms(1) ghost_benign [OF _ assms(2-4)] by (simp add: thread_ok_def split: if_splits)

text \<open>One thread moves.\<close>

lemma system_step:
  assumes ths: "list_all2 (thread_ok k cap dur skew now e U) ps gs" and ap: "apart gs"
    and j: "j < length ps"
    and ben: "benign dur skew now (owned (gs ! j)) e e'" and st: "store_ok cap U' e'" and U: "U \<subseteq> U'"
    and own: "owned g \<subseteq> owned (gs ! j) \<union> (U' - U)"
    and th: "thread_ok k cap dur skew now e' U' q g"
  shows "system_ok k cap dur skew now e' U' (ps[j := q])"
  unfolding system_ok_def
proof (intro conjI exI)
  have len: "length ps = length gs" using ths by (rule list_all2_lengthD)
  have old: "thread_ok k cap dur skew now e U (ps ! i) (gs ! i)" if "i < length ps" for i
    using ths that by (rule list_all2_nthD)
  have within: "owned (gs ! i) \<subseteq> U" if "i < length ps" for i
    using old [OF that] by (cases "gs ! i") (auto simp: thread_ok_def split: if_splits)
  have sep: "owned (gs ! i) \<inter> owned (gs ! j) = {}" if "i < length ps" and "i \<noteq> j" for i
    using ap that j by (simp add: apart_def len)
  show "list_all2 (thread_ok k cap dur skew now e' U') (ps[j := q]) (gs[j := g])"
    unfolding list_all2_conv_all_nth length_list_update
  proof (intro conjI allI impI)
    fix i assume "i < length ps"
    with len th thread_benign [OF old ben sep U]
    show "thread_ok k cap dur skew now e' U' (ps[j := q] ! i) (gs[j := g] ! i)"
      by (cases "i = j") simp_all
  qed (rule len)
  have new: "owned (gs ! i) \<inter> owned g = {}" if "i < length ps" and "i \<noteq> j" for i
    using sep [OF that] within [OF that(1)] own by blast
  show "apart (gs[j := g])"
    unfolding apart_def length_list_update
  proof (intro allI impI)
    fix i l assume il: "i < length gs \<and> l < length gs \<and> i \<noteq> l"
    with ap have "owned (gs ! i) \<inter> owned (gs ! l) = {}" by (simp add: apart_def)
    with il new [of i] new [of l] j len show "owned (gs[j := g] ! i) \<inter> owned (gs[j := g] ! l) = {}"
      by (cases "i = j"; cases "l = j") (simp_all add: Int_commute)
  qed
qed (rule st)

subsection \<open>What the server does to the slots\<close>

text \<open>A second of margin below the slot's minute covers the rounding of the scores.\<close>

lemma fmt6_less: "y + 1 \<le> y' \<Longrightarrow> fmt6 y < fmt6 y'"
proof -
  assume "y + 1 \<le> y'"
  moreover have "\<bar>fmt6 v - v\<bar> \<le> 1 / 4" for v
    using py_round_error [of v 6] by (simp add: fmt6_def)
  from this [of y] this [of y'] have "fmt6 y \<le> y + 1 / 4" and "y' - 1 / 4 \<le> fmt6 y'" by linarith+
  ultimately show ?thesis by linarith
qed

lemma fmt6_mono: "y \<le> y' \<Longrightarrow> fmt6 y \<le> fmt6 y'"
  by (simp add: fmt6_def py_round_mono)

lemma still_young:
  assumes "a \<le> now" and "now < a + dur" and "secs dur + 2 * skew \<le> 59" and "\<tau> \<le> secs now + skew"
  shows "fmt6 (\<tau> - of_int SLOT_TTL_SECONDS) < fmt6 (secs a - skew)"
proof (rule fmt6_less)
  have "secs now \<le> secs (a + dur)" using assms(2) by (intro secs_mono) simp
  then have "secs now \<le> secs a + secs dur" by (simp add: secs_add)
  with assms(3,4) show "\<tau> - of_int SLOT_TTL_SECONDS + 1 \<le> secs a - skew"
    by (simp add: SLOT_TTL_SECONDS_def)
qed

lemma held_kept:
  assumes "held_in skew e a x" and e: "as_zset e = Some z"
    and kept: "\<And>\<sigma>. map_of z x = Some \<sigma> \<Longrightarrow> fmt6 (secs a - skew) \<le> \<sigma> \<Longrightarrow> map_of z' x = Some \<sigma>"
    and e': "as_zset e' = Some z'"
    and dl: "\<And>dl. deadline_of e' = Some dl \<Longrightarrow> a + SLOT_TTL_SECONDS * usec \<le> dl \<or> deadline_of e = Some dl"
  shows "held_in skew e' a x"
proof -
  from assms(1) e obtain \<sigma> where "map_of z x = Some \<sigma>" and \<sigma>: "fmt6 (secs a - skew) \<le> \<sigma>"
    and old: "\<And>dl. deadline_of e = Some dl \<Longrightarrow> a + SLOT_TTL_SECONDS * usec \<le> dl"
    by (auto simp: held_in_def)
  from kept [OF this(1) \<sigma>] \<sigma> e' dl old show ?thesis unfolding held_in_def by blast
qed

text \<open>What a served call does to the entry, and what each reply leaves the caller with.\<close>

definition served_well :: "int \<Rightarrow> int \<Rightarrow> rat \<Rightarrow> int \<Rightarrow> string set \<Rightarrow> int \<Rightarrow> ghost \<Rightarrow> (reply \<Rightarrow> slot_state)
    \<Rightarrow> string set \<Rightarrow> reply \<Rightarrow> entry option \<Rightarrow> entry option \<Rightarrow> bool" where
  "served_well cap dur skew now U a g nx D' r e e' \<longleftrightarrow>
     benign dur skew now (owned g) e e' \<and> store_ok cap U e' \<and>
     (\<forall>rr. rr = r \<or> (\<exists>x. rr = RError x) \<longrightarrow> owned (nx rr, D', snd (snd g)) \<subseteq> owned g \<and>
        ghost_ok dur skew now e' U a (nx rr, D', snd (snd g)))"

context redis_server
begin

text \<open>What a served acquisition leaves of the slots.\<close>

lemma taken_entry:
  assumes z: "as_zset (view s k) = Some z" "int (length z) \<le> cap" and live: "live = drop_scores old z"
    and run: "serve exec (Eval (acquire_lua k cap sc old x SLOT_TTL_SECONDS)) s = (r, s')"
  obtains z' where "z' = acquire_members cap sc x live" and "as_zset (view s' k) = Some z'"
    and "r = acquire_reply cap live" and "int (length z') \<le> cap" and "fst ` set z' \<subseteq> insert x (fst ` set z)"
    and "\<forall>d. deadline_of (view s' k) = Some d \<longrightarrow> d = clock s + SLOT_TTL_SECONDS * usec"
proof -
  define z' where "z' = acquire_members cap sc x live"
  obtain s1 where "run_lua exec (acquire_lua k cap sc old x SLOT_TTL_SECONDS) s = (acquire_reply cap live, s1)"
    and "view s1 = (view s)(k := zset_entry z' (Some (clock s + SLOT_TTL_SECONDS * usec)))"
    unfolding z'_def by (rule run_acquire_lua [OF z(1) slot_ttl_pos live])
  with run have r: "r = acquire_reply cap live"
    and e': "view s' k = zset_entry z' (Some (clock s + SLOT_TTL_SECONDS * usec))" by simp_all
  have "int (length z') \<le> cap"
    using z(2) acquire_members_length [of cap sc x live] drop_scores_length [of old z] unfolding z'_def live by linarith
  moreover have "fst ` set z' \<subseteq> insert x (fst ` set z)"
    by (auto simp: z'_def acquire_members_def live drop_scores_def dom_update split: if_splits)
  ultimately show ?thesis
    using r by (intro that [OF z'_def]) (auto simp: e' zset_entry_def split: if_splits)
qed

text \<open>Another's slot of a request that is not over is young, so it is kept.\<close>

lemma young_kept:
  assumes h: "held_in skew e b y" and z: "as_zset e = Some z" and y: "y \<noteq> x"
    and b: "b \<le> now" "now < b + dur" and margin: "secs dur + 2 * skew \<le> 59" and \<tau>: "\<tau> \<le> secs now + skew"
    and z': "as_zset e' = Some (acquire_members cap sc x (drop_scores (fmt6 (\<tau> - of_int SLOT_TTL_SECONDS)) z))"
    and dl: "\<forall>d. deadline_of e' = Some d \<longrightarrow> d = now + SLOT_TTL_SECONDS * usec"
  shows "held_in skew e' b y"
proof (rule held_kept [OF h z _ z'])
  fix \<sigma> assume "map_of z y = Some \<sigma>" and "fmt6 (secs b - skew) \<le> \<sigma>"
  moreover note still_young [OF b margin \<tau>]
  ultimately have "map_of (drop_scores (fmt6 (\<tau> - of_int SLOT_TTL_SECONDS)) z) y = Some \<sigma>"
    unfolding drop_scores_def by (intro map_of_filter_kept) auto
  then show "map_of (acquire_members cap sc x (drop_scores (fmt6 (\<tau> - of_int SLOT_TTL_SECONDS)) z)) y = Some \<sigma>"
    using y by (simp add: acquire_members_def update_conv')
next
  fix d assume "deadline_of e' = Some d"
  with dl b(1) show "b + SLOT_TTL_SECONDS * usec \<le> d \<or> deadline_of e = Some d" by simp
qed

lemma asks_served:
  assumes gh: "ghost_ok dur skew (clock s) (view s k) U a (Free, D, R)"
    and x: "x \<in> D" and asks: "asks_slot k cap R x c"
    and st: "store_ok cap U (view s k)" and run: "serve exec c s = (r, s')"
    and margin: "secs dur + 2 * skew \<le> 59"
  shows "served_well cap dur skew (clock s) U a (Free, D, R) (answer_state x) (D - {x}) r (view s k) (view s' k)"
proof -
  from st obtain z where z: "as_zset (view s k) = Some z" "int (length z) \<le> cap" "fst ` set z \<subseteq> U"
    by (auto simp: store_ok_def)
  from asks obtain \<tau> \<tau>' where c: "c = Eval (acquire_lua k cap (fmt6 \<tau>) (fmt6 (\<tau>' - of_int SLOT_TTL_SECONDS)) x SLOT_TTL_SECONDS)"
    and \<tau>: "secs a - skew \<le> \<tau>" and \<tau>': "\<tau>' \<le> secs (clock s) + skew" using gh by (auto simp: asks_slot_def)
  define live where "live = drop_scores (fmt6 (\<tau>' - of_int SLOT_TTL_SECONDS)) z"
  obtain z' where z'_def: "z' = acquire_members cap (fmt6 \<tau>) x live" and z': "as_zset (view s' k) = Some z'"
    and r: "r = acquire_reply cap live" and len: "int (length z') \<le> cap" and keys: "fst ` set z' \<subseteq> insert x (fst ` set z)"
    and dl: "\<forall>d. deadline_of (view s' k) = Some d \<longrightarrow> d = clock s + SLOT_TTL_SECONDS * usec"
    by (rule taken_entry [OF z(1,2) live_def run [unfolded c]])
  have fresh: "unrecorded E (view s' k)" if "unrecorded E (view s k)" and "x \<notin> E" for E
    using that(1) z(1) z' by (rule unrecorded_grow [where X = "{x}"]) (use keys that(2) in auto)
  note held = young_kept [OF _ z(1) _ _ _ margin \<tau>' z' [unfolded z'_def live_def] dl]
  have own: "held_in skew (view s' k) a x" if "answer_state x r = Held x"
  proof -
    from that have "int (length live) < cap"
      by (auto simp: r answer_state_def acquire_reply_def split: if_splits)
    then have "map_of z' x = Some (fmt6 \<tau>)" by (simp add: z'_def acquire_members_def update_conv')
    with z' dl fmt6_mono [OF \<tau>] gh show ?thesis by (auto simp: held_in_def)
  qed
  have "unrecorded (D - {x}) (view s k)" using gh by (auto intro: unrecorded_less)
  note left = fresh [OF this]
  have "benign dur skew (clock s) D (view s k) (view s' k)"
    using fresh held x by (auto simp: benign_def)
  moreover have "x \<in> U" using x gh by auto
  with keys z(3) have "fst ` set z' \<subseteq> U" by blast
  with z' len have "store_ok cap U (view s' k)" by (simp add: store_ok_def)
  moreover have "owned (answer_state x rr, D - {x}, R) \<subseteq> D" for rr
    using x by (auto simp: answer_state_def)
  moreover have "ghost_ok dur skew (clock s) (view s' k) U a (answer_state x rr, D - {x}, R)"
    if "rr = r \<or> (\<exists>x. rr = RError x)" for rr
  proof -
    have "answer_state x rr = Held y \<Longrightarrow> y = x \<and> answer_state x r = Held x" for y
      using that by (auto simp: answer_state_def split: if_splits)
    moreover have "owned (answer_state x rr, D - {x}, R) \<subseteq> U" using gh x by (auto simp: answer_state_def)
    ultimately show ?thesis using gh left own by auto
  qed
  ultimately show ?thesis unfolding served_well_def by simp
qed

lemma gives_served:
  assumes gh: "ghost_ok dur skew (clock s) (view s k) U a (Held x, D, R)"
    and st: "store_ok cap U (view s k)" and run: "serve exec (Cmd (ZREM k x)) s = (r, s')"
  shows "served_well cap dur skew (clock s) U a (Held x, D, R) (\<lambda>_. Free) D r (view s k) (view s' k)"
proof -
  from st obtain z where z: "as_zset (view s k) = Some z" "int (length z) \<le> cap" "fst ` set z \<subseteq> U"
    by (auto simp: store_ok_def)
  obtain n s1 where "exec (ZREM k x) s = (RInt n, s1)"
    and "view s1 = (view s)(k := zset_entry (AList.delete x z) (deadline_of (view s k)))"
    by (rule run_release_cmd [OF z(1)])
  with run have e': "view s' k = zset_entry (AList.delete x z) (deadline_of (view s k))" by simp
  then have z': "as_zset (view s' k) = Some (AList.delete x z)" by simp
  have keys: "fst ` set (AList.delete x z) \<subseteq> fst ` set z" by (auto simp: AList.delete_eq)
  have fresh: "unrecorded E (view s' k)" if "unrecorded E (view s k)" for E
    using that z(1) z' by (rule unrecorded_grow [where X = "{}"]) (use keys in auto)
  have held: "held_in skew (view s' k) b y" if h: "held_in skew (view s k) b y" and y: "y \<noteq> x" for b y
    by (rule held_kept [OF h z(1) _ z']) (use y in \<open>auto simp: delete_conv' e' zset_entry_def split: if_splits\<close>)
  have "benign dur skew (clock s) (insert x D) (view s k) (view s' k)"
    using fresh held by (auto simp: benign_def)
  moreover have "store_ok cap U (view s' k)"
    using z z' keys length_delete_alist_le [of x z] by (auto simp: store_ok_def)
  ultimately show ?thesis using gh fresh by (auto simp: served_well_def)
qed

lemma move_served:
  assumes mv: "slot_move k cap R c st D nx D'" and gh: "ghost_ok dur skew (clock s) (view s k) U a (st, D, R)"
    and st: "store_ok cap U (view s k)" and run: "serve exec c s = (r, s')"
    and margin: "secs dur + 2 * skew \<le> 59"
  shows "served_well cap dur skew (clock s) U a (st, D, R) nx D' r (view s k) (view s' k)"
  using mv
proof cases
  case (asks x)
  with gh show ?thesis using asks_served [OF _ asks(4,5) st run margin] by simp
next
  case (gives x)
  with gh run show ?thesis using gives_served [OF _ st, of dur skew a x D R r s'] by simp
next
  case other
  then have "view s' k = view s k" using serve_frame [OF _ run] by blast
  with other gh st show ?thesis by (simp add: served_well_def)
qed

text \<open>A call that never arrives changes nothing.\<close>

lemma move_unsent:
  assumes "slot_move k cap R c st D nx D'" and "ghost_ok dur skew now e U a (st, D, R)"
  shows "owned (nx (RError x), D', R) \<subseteq> owned (st, D, R) \<and> ghost_ok dur skew now e U a (nx (RError x), D', R)"
  using assms by cases (auto simp: answer_state_def intro: unrecorded_less)

lemma ghost_passes:
  assumes gh: "ghost_ok dur skew (clock s) (view s k) U a g" and soon: "clock s + int d < a + dur"
    and dur: "dur \<le> SLOT_TTL_SECONDS * usec"
  shows "ghost_ok dur skew (clock (elapse d s)) (view (elapse d s) k) U a g"
proof -
  obtain st D R where g: "g = (st, D, R)" by (cases g)
  have same: "view (elapse d s) k = view s k" if "st = Held x" for x
  proof (rule elapse_live)
    fix dl assume "deadline_of (view s k) = Some dl"
    with gh that g have "a + SLOT_TTL_SECONDS * usec \<le> dl" by (simp add: held_in_def)
    with soon dur show "clock s + int d < dl" by simp
  qed
  have "unrecorded D (view s k)" using gh g by simp
  with elapse_either [of d s k] have "unrecorded D (view (elapse d s) k)"
    by (elim disjE) (simp_all add: unrecorded_def)
  moreover have "secs (clock s) \<le> secs (clock s + int d)" by (rule secs_mono) simp
  ultimately show ?thesis using gh g soon same by (fastforce simp: clock_elapse)
qed

text \<open>One thread that is not over makes a move; the ghost follows.\<close>

definition moves_to :: "string \<Rightarrow> int \<Rightarrow> int \<Rightarrow> rat \<Rightarrow> int \<Rightarrow> string set \<Rightarrow> string set \<Rightarrow> int
    \<Rightarrow> entry option \<Rightarrow> entry option \<Rightarrow> ghost \<Rightarrow> 'a prog \<Rightarrow> ghost \<Rightarrow> bool" where
  "moves_to k cap dur skew now U U' a e e' g q g' \<longleftrightarrow>
     disciplined k cap q g' \<and> ghost_ok dur skew now e' U' a g' \<and> owned g' \<subseteq> owned g \<union> (U' - U) \<and>
     benign dur skew now (owned g) e e' \<and> store_ok cap U' e' \<and> U \<subseteq> U'"

lemma open_ok:
  assumes sys: "system_ok k cap dur skew now e U ps" and i: "i < length ps" "ps ! i = (a, p)" and live: "\<not> ended p"
    and mv: "\<And>g. disciplined k cap p g \<Longrightarrow> ghost_ok dur skew now e U a g \<Longrightarrow> store_ok cap U e \<Longrightarrow>
      \<exists>g'. moves_to k cap dur skew now U U' a e e' g q g'"
  shows "system_ok k cap dur skew now e' U' (ps[i := (a, q)])"
proof -
  from sys obtain gs where st: "store_ok cap U e" and ap: "apart gs"
    and ths: "list_all2 (thread_ok k cap dur skew now e U) ps gs"
    unfolding system_ok_def by blast
  from list_all2_nthD [OF ths i(1)] i(2) live
  have "disciplined k cap p (gs ! i)" "ghost_ok dur skew now e U a (gs ! i)"
    by (simp_all add: thread_ok_def)
  from mv [OF this st] obtain g' where d: "disciplined k cap q g'" and gh: "ghost_ok dur skew now e' U' a g'"
    and own: "owned g' \<subseteq> owned (gs ! i) \<union> (U' - U)" and ben: "benign dur skew now (owned (gs ! i)) e e'"
    and st': "store_ok cap U' e'" and U: "U \<subseteq> U'" unfolding moves_to_def by blast
  have "owned (settle q g') \<subseteq> owned (gs ! i) \<union> (U' - U)" using owned_settle [of q g'] own by blast
  from system_step [OF ths ap i(1) ben st' U this thread_settle [OF d gh]] show ?thesis .
qed

lemma served_ok:
  assumes sys: "system_ok k cap dur skew (clock s) (view s k) U ps" and i: "i < length ps" "ps ! i = (a, Call c f)"
    and run: "serve exec c s = (r, s')" and rr: "rr = r \<or> (\<exists>x. rr = RError x)"
    and margin: "secs dur + 2 * skew \<le> 59"
  shows "system_ok k cap dur skew (clock s') (view s' k) U (ps[i := (a, f rr)])"
  unfolding serve_clock [OF run]
proof (rule open_ok [OF sys i])
  fix g assume "disciplined k cap (Call c f) g" and gh: "ghost_ok dur skew (clock s) (view s k) U a g"
    and st: "store_ok cap U (view s k)"
  then obtain sl D R nx D' where g: "g = (sl, D, R)" and mv: "slot_move k cap R c sl D nx D'"
    and ok: "\<And>r. slot_ok k cap (f r) (nx r) D' R" by (cases g) auto
  from move_served [OF mv gh [unfolded g] st run margin] rr
  show "\<exists>g'. moves_to k cap dur skew (clock s) U U a (view s k) (view s' k) g (f rr) g'"
    unfolding served_well_def moves_to_def g by (intro exI [of _ "(nx rr, D', R)"]) (auto simp: ok)
qed simp

lemma unsent_ok:
  assumes sys: "system_ok k cap dur skew now e U ps" and i: "i < length ps" "ps ! i = (a, Call c f)"
  shows "system_ok k cap dur skew now e U (ps[i := (a, f (RError x))])"
proof (rule open_ok [OF sys i])
  fix g assume "disciplined k cap (Call c f) g" and gh: "ghost_ok dur skew now e U a g" and st: "store_ok cap U e"
  then obtain sl D R nx D' where g: "g = (sl, D, R)" and mv: "slot_move k cap R c sl D nx D'"
    and ok: "\<And>r. slot_ok k cap (f r) (nx r) D' R" by (cases g) auto
  from move_unsent [OF mv gh [unfolded g], of x] st
  show "\<exists>g'. moves_to k cap dur skew now U U a e e g (f (RError x)) g'"
    unfolding moves_to_def g by (intro exI [of _ "(nx (RError x), D', R)"]) (auto simp: ok)
qed simp

lemma reads_ok:
  assumes sys: "system_ok k cap dur skew now e U ps" and i: "i < length ps" "ps ! i = (a, Now f)"
    and t: "\<bar>t - secs now\<bar> \<le> skew"
  shows "system_ok k cap dur skew now e U (ps[i := (a, f t)])"
proof (rule open_ok [OF sys i])
  fix g assume "disciplined k cap (Now f) g" and gh: "ghost_ok dur skew now e U a g" and st: "store_ok cap U e"
  then obtain sl D R where g: "g = (sl, D, R)" and ok: "slot_ok k cap (f t) sl D (insert t R)" by (cases g) auto
  from gh g have "secs a \<le> secs now" by (intro secs_mono) simp
  with t have "secs a - skew \<le> t" and "t \<le> secs now + skew" by linarith+
  moreover have "owned (sl, D, insert t R) = owned (sl, D, R)" by (cases sl) simp_all
  ultimately show "\<exists>g'. moves_to k cap dur skew now U U a e e g (f t) g'"
    using gh ok st unfolding moves_to_def g by (intro exI [of _ "(sl, D, insert t R)"]) auto
qed simp

lemma draws_ok:
  assumes sys: "system_ok k cap dur skew now e U ps" and i: "i < length ps" "ps ! i = (a, Uuid4 f)" and u: "u \<notin> U"
  shows "system_ok k cap dur skew now e (insert u U) (ps[i := (a, f u)])"
proof (rule open_ok [OF sys i])
  fix g assume "disciplined k cap (Uuid4 f) g" and gh: "ghost_ok dur skew now e U a g" and st: "store_ok cap U e"
  then obtain sl D R where g: "g = (sl, D, R)" and ok: "slot_ok k cap (f u) sl (insert u D) R" by (cases g) auto
  from st obtain z where z: "as_zset e = Some z" "int (length z) \<le> cap" "fst ` set z \<subseteq> U"
    by (auto simp: store_ok_def)
  have "unrecorded D e" using gh g by simp
  with z u have "unrecorded (insert u D) e" by (auto simp: unrecorded_def)
  moreover have "store_ok cap (insert u U) e" using z by (auto simp: store_ok_def)
  moreover have "sl = Held x \<Longrightarrow> x \<noteq> u" for x using gh g u by auto
  moreover have "owned (sl, insert u D, R) = insert u (owned (sl, D, R))" by (cases sl) auto
  ultimately show "\<exists>g'. moves_to k cap dur skew now U (insert u U) a e e g (f u) g'"
    using gh ok u unfolding moves_to_def g by (intro exI [of _ "(sl, insert u D, R)"]) auto
qed simp

lemma dies_ok:
  assumes sys: "system_ok k cap dur skew now e U ps" and i: "i < length ps"
  shows "system_ok k cap dur skew now e U (ps[i := (a, Raise x)])"
proof -
  from sys obtain gs where st: "store_ok cap U e" and ap: "apart gs"
    and ths: "list_all2 (thread_ok k cap dur skew now e U) ps gs"
    unfolding system_ok_def by blast
  show ?thesis
    by (rule system_step [OF ths ap i benign_refl st order_refl, where g = "(Free, {}, {})"])
       (simp_all add: thread_ok_def)
qed

lemma arrives_ok:
  assumes sys: "system_ok k cap dur skew now e U ps" and p: "slot_ok k cap p Free {} {}" and dur: "0 < dur"
  shows "system_ok k cap dur skew now e U (ps @ [(now, p)])"
proof -
  from sys obtain gs where st: "store_ok cap U e" and ap: "apart gs"
    and ths: "list_all2 (thread_ok k cap dur skew now e U) ps gs"
    unfolding system_ok_def by blast
  let ?g = "settle p (Free, {}, {})"
  have "thread_ok k cap dur skew now e U (now, p) ?g"
    using p dur by (intro thread_settle) (auto simp: unrecorded_def)
  with ths have "list_all2 (thread_ok k cap dur skew now e U) (ps @ [(now, p)]) (gs @ [?g])"
    by (simp add: list_all2_appendI)
  moreover have "apart (gs @ [?g])"
    using ap owned_settle [of p "(Free, {}, {})"] by (auto simp: apart_def nth_append less_Suc_eq)
  ultimately show ?thesis using st unfolding system_ok_def by blast
qed

lemma passes_ok:
  assumes sys: "system_ok k cap dur skew (clock s) (view s k) U ps" and cap: "0 \<le> cap"
    and soon: "\<forall>(a, p) \<in> set ps. ended p \<or> clock s + int d < a + dur" and dur: "dur \<le> SLOT_TTL_SECONDS * usec"
  shows "system_ok k cap dur skew (clock (elapse d s)) (view (elapse d s) k) U ps"
proof -
  from sys obtain gs where st: "store_ok cap U (view s k)" and ap: "apart gs"
    and ths: "list_all2 (thread_ok k cap dur skew (clock s) (view s k) U) ps gs"
    unfolding system_ok_def by blast
  have "list_all2 (thread_ok k cap dur skew (clock (elapse d s)) (view (elapse d s) k) U) ps gs"
    using ths
  proof (rule list.rel_mono_strong)
    fix ap g assume "ap \<in> set ps" and "thread_ok k cap dur skew (clock s) (view s k) U ap g"
    with soon show "thread_ok k cap dur skew (clock (elapse d s)) (view (elapse d s) k) U ap g"
      by (auto simp: thread_ok_def intro!: ghost_passes [OF _ _ dur] split: if_splits)
  qed
  moreover have "store_ok cap U (view (elapse d s) k)"
    using st elapse_either [of d s k] cap by (auto simp: store_ok_def)
  ultimately show ?thesis using ap unfolding system_ok_def by blast
qed

lemma watch_step_ok:
  assumes "watch_step exec elapse clock req cf m cf'" and "prompt clock dur skew cf m"
    and "system_ok k cap dur skew (clock (fst cf)) (view (fst cf) k) (fst (snd cf)) (snd (snd cf))"
    and req: "\<forall>p \<in> req. slot_ok k cap p Free {} {}" and cap: "0 \<le> cap"
    and margin: "secs dur + 2 * skew \<le> 59" and dur: "0 < dur" "dur \<le> SLOT_TTL_SECONDS * usec"
  shows "system_ok k cap dur skew (clock (fst cf')) (view (fst cf') k) (fst (snd cf')) (snd (snd cf'))"
  using assms(1-3)
proof (induction rule: watch_step.induct)
  case (delivered i ps a c f s r s' U)
  then show ?case using served_ok [OF _ delivered(1-3) _ margin] by simp
next
  case (unsent i ps a c f s U e)
  then show ?case using unsent_ok [OF _ unsent(1,2)] by simp
next
  case (lost i ps a c f s r s' U e)
  then show ?case using served_ok [OF _ lost(1-3) _ margin] by simp
next
  case (reads_clock i ps a f s U t)
  then show ?case using reads_ok [OF _ reads_clock(1,2)] by simp
next
  case (draws_uuid i ps a f s U u)
  then show ?case using draws_ok [OF _ draws_uuid(1,2)] by simp
next
  case (dies i ps a p s U e)
  then show ?case using dies_ok [OF _ dies(1)] by simp
next
  case (arrives p s U ps)
  then show ?case using arrives_ok [OF _ bspec [OF req arrives(1)] dur(1)] by simp
next
  case (passes s U ps d)
  then show ?case using passes_ok [OF _ cap _ dur(2)] by simp
qed

lemma watch_reach_ok:
  assumes "watch_reach (prompt clock dur skew) exec elapse clock req s0 cf" and "view s0 k = None"
    and req: "\<forall>p \<in> req. slot_ok k cap p Free {} {}" and cap: "0 \<le> cap"
    and margin: "secs dur + 2 * skew \<le> 59" and dur: "0 < dur" "dur \<le> SLOT_TTL_SECONDS * usec"
  shows "system_ok k cap dur skew (clock (fst cf)) (view (fst cf) k) (fst (snd cf)) (snd (snd cf))"
  using assms(1)
proof (induction rule: watch_reach.induct)
  case start
  show ?case using assms(2) cap by (simp add: system_ok_def store_ok_def apart_def)
next
  case (step cf m cf')
  show ?case by (rule watch_step_ok [OF step.hyps(3,2) step.IH req cap margin dur])
qed

end

text \<open>In a well-ordered system at most the cap of threads are in flight.\<close>

lemma in_flight_bounded:
  assumes "system_ok k cap dur skew now e U ps"
  shows "int (card {i. i < length ps \<and> holds_slot k (snd (ps ! i))}) \<le> cap"
proof -
  let ?I = "{i. i < length ps \<and> holds_slot k (snd (ps ! i))}"
  from assms obtain gs z where z: "as_zset e = Some z" "int (length z) \<le> cap" and ap: "apart gs"
    and ths: "list_all2 (thread_ok k cap dur skew now e U) ps gs"
    unfolding system_ok_def store_ok_def by blast
  have len: "length ps = length gs" using ths by (rule list_all2_lengthD)
  have ex: "\<exists>x. x \<in> owned (gs ! i) \<and> x \<in> fst ` set z" if i: "i \<in> ?I" for i
  proof -
    from i obtain x where x: "must_release k x (snd (ps ! i))" by (auto simp: holds_slot_def)
    then have live: "\<not> ended (snd (ps ! i))" by (cases "snd (ps ! i)") auto
    obtain st D R where g: "gs ! i = (st, D, R)" by (cases "gs ! i")
    have th: "thread_ok k cap dur skew now e U (ps ! i) (gs ! i)"
      using i by (intro list_all2_nthD [OF ths]) simp
    with live g have "slot_ok k cap (snd (ps ! i)) st D R" and gh: "ghost_ok dur skew now e U (fst (ps ! i)) (st, D, R)"
      by (simp_all add: thread_ok_def)
    from owes_what_it_holds [OF this(1) x] have st: "st = Held x" .
    with gh have "held_in skew e (fst (ps ! i)) x" by simp
    with z(1) obtain \<sigma> where "map_of z x = Some \<sigma>" by (auto simp: held_in_def)
    then have "x \<in> fst ` set z" by (metis domI dom_map_of_conv_image_fst)
    with g st show ?thesis by auto
  qed
  then obtain w where w: "\<And>i. i \<in> ?I \<Longrightarrow> w i \<in> owned (gs ! i) \<and> w i \<in> fst ` set z" by metis
  have "inj_on w ?I"
  proof (rule inj_onI)
    fix i j assume "i \<in> ?I" "j \<in> ?I" "w i = w j"
    then have "w i \<in> owned (gs ! i) \<inter> owned (gs ! j)" and "i < length gs" "j < length gs"
      using w [of i] w [of j] by (simp_all add: len)
    with ap show "i = j" unfolding apart_def by blast
  qed
  then have "card ?I \<le> card (fst ` set z)" by (rule card_inj_on_le) (use w in auto)
  also have "\<dots> \<le> length z" by (metis card_length length_map set_map)
  finally show ?thesis using z(2) by linarith
qed

lemma short_life:
  assumes "0 \<le> skew" and "secs dur + 2 * skew \<le> 59"
  shows "dur \<le> SLOT_TTL_SECONDS * usec"
proof -
  have "secs dur \<le> 59" using assms by linarith
  then have "of_int dur \<le> (of_int 59000000 :: rat)" by (simp add: secs_def divide_le_eq)
  then show ?thesis unfolding of_int_le_iff by (simp add: SLOT_TTL_SECONDS_def)
qed

text \<open>
  The cap bounds the threads that hold a slot, not only the slots on record: in a deployment
  where a request is over within \<open>dur\<close>, clocks are within \<open>skew\<close> of the server's and
  identifiers are new, with \<open>dur + 2 skew\<close> at most a second below the slot's minute, at no
  moment of any interleaving, with any losses and crashes, do more requests of a tenant hold
  a slot than its plan's cap. A request that runs because its gate failed holds none:
  \<open>Heavy_Work\<close> counts those too.
\<close>

lemma heavy_in_flight_bounded:
  assumes srv: "redis_server exec view clock elapse" and fw: "framework_ok fw"
    and reach: "watch_reach (prompt clock dur skew) exec elapse clock (range (application fw)) s0 (s, U, ps)"
    and start: "view s0 (concurrency_key t) = None"
    and dur: "0 < dur" and skew: "0 \<le> skew" and margin: "secs dur + 2 * skew \<le> 59"
  shows "int (card {i. i < length ps \<and> holds_slot (concurrency_key t) (snd (ps ! i))}) \<le> concurrency_cap t"
proof -
  have req: "\<forall>p \<in> range (application fw). slot_ok (concurrency_key t) (concurrency_cap t) p Free {} {}"
    using application_slot_ok [OF fw] by blast
  have cap: "0 \<le> concurrency_cap t" using limits_positive(3) [of t] by (simp add: concurrency_cap_limits)
  note short = short_life [OF skew margin]
  have "system_ok (concurrency_key t) (concurrency_cap t) dur skew (clock s) (view s (concurrency_key t)) U ps"
    using redis_server.watch_reach_ok [OF srv reach start req cap margin dur short] by (simp only: fst_conv snd_conv)
  then show ?thesis by (rule in_flight_bounded)
qed

end
