(* ===== verification/Answers.thy ===== *)
theory Answers imports Scenarios begin

text \<open>
  How many steps a request takes. \<open>drive\<close> runs a program to its end in an
  environment that never runs out: it decides for each step whether a request reaches the
  server and its reply comes back, what the clock shows and which identifier is drawn.
  \<open>ends_in\<close> bounds the steps of a program, and follows its construction. The lemmas give the
  bounds of the use cases, the gates and the application.
\<close>

datatype fate = Served | Undelivered | Unanswered

record environment =
  fate_at :: "nat \<Rightarrow> fate"
  reading_at :: "nat \<Rightarrow> rat"
  ident_at :: "nat \<Rightarrow> string"

primrec drive :: "'s exec \<Rightarrow> environment \<Rightarrow> 'a prog \<Rightarrow> nat \<Rightarrow> 's \<Rightarrow> 'a outcome \<times> nat \<times> 's" where
  "drive ex env (Return x) n s = (Done x, n, s)"
| "drive ex env (Raise e) n s = (Raised e, n, s)"
| "drive ex env (Call c k) n s =
     (case fate_at env n of
        Served \<Rightarrow> (case serve ex c s of (r, s') \<Rightarrow> drive ex env (k r) (Suc n) s')
      | Undelivered \<Rightarrow> drive ex env (k net_error) (Suc n) s
      | Unanswered \<Rightarrow> drive ex env (k net_error) (Suc n) (snd (serve ex c s)))"
| "drive ex env (Now k) n s = drive ex env (k (reading_at env n)) (Suc n) s"
| "drive ex env (Uuid4 k) n s = drive ex env (k (ident_at env n)) (Suc n) s"

text \<open>Driving a program is running it on the inputs the environment gives.\<close>

lemma drive_runs:
  assumes "drive ex env p n s = (out, m, s')"
  shows "\<exists>tape. run ex p tape s = (out, [], s') \<and> m = n + length tape"
  using assms
proof (induction p arbitrary: n s)
  case (Call c k)
  obtain r s1 where e: "serve ex c s = (r, s1)" by (cases "serve ex c s")
  show ?case
  proof (cases "fate_at env n")
    case Served
    with Call.prems e Call.IH [OF rangeI, of r "Suc n" s1] obtain tape
      where "run ex (k r) tape s1 = (out, [], s')" "m = Suc n + length tape" by auto
    with e show ?thesis by (intro exI [of _ "Deliver # tape"]) simp
  next
    case Undelivered
    with Call.prems Call.IH [OF rangeI, of net_error "Suc n" s] obtain tape
      where "run ex (k net_error) tape s = (out, [], s')" "m = Suc n + length tape" by auto
    then show ?thesis by (intro exI [of _ "Unsent # tape"]) simp
  next
    case Unanswered
    with Call.prems e Call.IH [OF rangeI, of net_error "Suc n" s1] obtain tape
      where "run ex (k net_error) tape s1 = (out, [], s')" "m = Suc n + length tape" by auto
    with e show ?thesis by (intro exI [of _ "Lost # tape"]) simp
  qed
next
  case (Now k)
  with Now.IH [OF rangeI, of "reading_at env n" "Suc n" s] obtain tape
    where "run ex (k (reading_at env n)) tape s = (out, [], s')" "m = Suc n + length tape" by auto
  then show ?case by (intro exI [of _ "Reads (reading_at env n) # tape"]) simp
next
  case (Uuid4 k)
  with Uuid4.IH [OF rangeI, of "ident_at env n" "Suc n" s] obtain tape
    where "run ex (k (ident_at env n)) tape s = (out, [], s')" "m = Suc n + length tape" by auto
  then show ?case by (intro exI [of _ "Draws (ident_at env n) # tape"]) simp
qed simp_all

subsection \<open>Bounds on the steps\<close>

primrec ends_in :: "'a prog \<Rightarrow> nat \<Rightarrow> bool" where
  "ends_in (Return x) n = True"
| "ends_in (Raise e) n = True"
| "ends_in (Call c k) n = (case n of 0 \<Rightarrow> False | Suc m \<Rightarrow> \<forall>r. ends_in (k r) m)"
| "ends_in (Now k) n = (case n of 0 \<Rightarrow> False | Suc m \<Rightarrow> \<forall>t. ends_in (k t) m)"
| "ends_in (Uuid4 k) n = (case n of 0 \<Rightarrow> False | Suc m \<Rightarrow> \<forall>u. ends_in (k u) m)"

lemma ends_mono: "ends_in p m \<Longrightarrow> m \<le> n \<Longrightarrow> ends_in p n"
proof (induction p arbitrary: m n)
  case (Call c k)
  from Call.prems obtain m' n' where "n = Suc n'" and "m' \<le> n'" and "\<forall>r. ends_in (k r) m'"
    by (cases m; cases n) simp_all
  then show ?case using Call.IH [OF rangeI, of _ m' n'] by simp
next
  case (Now k)
  from Now.prems obtain m' n' where "n = Suc n'" and "m' \<le> n'" and "\<forall>t. ends_in (k t) m'"
    by (cases m; cases n) simp_all
  then show ?case using Now.IH [OF rangeI, of _ m' n'] by simp
next
  case (Uuid4 k)
  from Uuid4.prems obtain m' n' where "n = Suc n'" and "m' \<le> n'" and "\<forall>u. ends_in (k u) m'"
    by (cases m; cases n) simp_all
  then show ?case using Uuid4.IH [OF rangeI, of _ m' n'] by simp
qed simp_all

lemma ends_bnd:
  assumes "ends_in p m" and f: "\<And>x. ends_in (f x) n" and "l = m + n"
  shows "ends_in (bnd p f) l"
  unfolding assms(3) using assms(1)
proof (induction p arbitrary: m)
  case (Return x)
  from ends_mono [OF f, of "m + n"] show ?case by simp
next
  case (Call c k)
  then show ?case using Call.IH [OF rangeI] by (cases m) auto
next
  case (Now k)
  then show ?case using Now.IH [OF rangeI] by (cases m) auto
next
  case (Uuid4 k)
  then show ?case using Uuid4.IH [OF rangeI] by (cases m) auto
qed simp_all

lemma ends_try_else:
  assumes "ends_in p m" and h: "\<And>e. ends_in (h e) n" and f: "\<And>x. ends_in (f x) n" and "l = m + n"
  shows "ends_in (try_else p h f) l"
  unfolding assms(4) using assms(1)
proof (induction p arbitrary: m)
  case (Return x)
  from ends_mono [OF f, of "m + n"] show ?case by simp
next
  case (Raise e)
  from ends_mono [OF h, of "m + n"] show ?case by simp
next
  case (Call c k)
  then show ?case using Call.IH [OF rangeI] by (cases m) auto
next
  case (Now k)
  then show ?case using Now.IH [OF rangeI] by (cases m) auto
next
  case (Uuid4 k)
  then show ?case using Uuid4.IH [OF rangeI] by (cases m) auto
qed

lemma ends_finally:
  assumes "ends_in p m" and f: "ends_in f n" and "l = m + n"
  shows "ends_in (finally_do p f) l"
  unfolding assms(3) using assms(1)
proof (induction p arbitrary: m)
  case (Return x)
  show ?case unfolding finally_do.simps by (rule ends_mono [OF ends_bnd [OF f _ refl, where n = 0]]) simp_all
next
  case (Raise e)
  show ?case unfolding finally_do.simps by (rule ends_mono [OF ends_bnd [OF f _ refl, where n = 0]]) simp_all
next
  case (Call c k)
  then show ?case using Call.IH [OF rangeI] by (cases m) auto
next
  case (Now k)
  then show ?case using Now.IH [OF rangeI] by (cases m) auto
next
  case (Uuid4 k)
  then show ?case using Uuid4.IH [OF rangeI] by (cases m) auto
qed

lemma ends_catch: "ends_in p n \<Longrightarrow> (\<And>e. ends_in (h e) 0) \<Longrightarrow> ends_in (catch p h) n"
proof (induction p arbitrary: n)
  case (Raise e)
  from ends_mono [OF Raise.prems(2), of n] show ?case by simp
qed (auto split: nat.splits)

lemma ends_redis_py: "ends_in (redis_py c) 1"
  by (auto simp: redis_py_def split: reply.split nat.split)

lemma ends_lift_exn [simp]: "ends_in (lift_exn r) n"
  by (simp add: lift_exn_def split: sum.split)

lemma ends_call: "(\<And>x. ends_in (f x) n) \<Longrightarrow> ends_in (bnd (redis_py c) f) (Suc n)"
  by (rule ends_bnd [OF ends_redis_py]) simp_all

lemma ends_pure: "(\<And>x. ends_in (f x) n) \<Longrightarrow> ends_in (bnd (lift_exn r) f) n"
  by (rule ends_bnd [where m = 0]) simp_all

lemma ends_now: "(\<And>t. ends_in (f t) n) \<Longrightarrow> ends_in (Now f) (Suc n)"
  "(\<And>u. ends_in (g u) n) \<Longrightarrow> ends_in (Uuid4 g) (Suc n)"
  by simp_all

lemma ends_if: "ends_in p n \<Longrightarrow> ends_in q n \<Longrightarrow> ends_in (if b then p else q) n"
  by simp

lemma ends_end: "ends_in (Return x) n" "ends_in (Raise e) n"
  by simp_all

lemmas ends_intros = ends_call ends_pure ends_now ends_if ends_lift_exn ends_end

lemma step_numerals:
  "(1 :: nat) = Suc 0" "(2 :: nat) = Suc (Suc 0)" "(3 :: nat) = Suc (Suc (Suc 0))"
  "(4 :: nat) = Suc (Suc (Suc (Suc 0)))" "(6 :: nat) = Suc (Suc (Suc (Suc (Suc (Suc 0)))))"
  by simp_all

subsection \<open>The bounds of the program\<close>

lemma ingest_ends: "ends_in (ingest_event c) 2"
  unfolding ingest_event_def record_event_def claim_idempotency_def Let_def step_numerals(2)
  by (rule ends_bnd [where m = "Suc (Suc 0)" and n = 0], rule ends_bnd [where m = "Suc 0" and n = "Suc 0"])
     (intro ends_intros | simp)+

lemma calculate_ends: "ends_in (calculate_for t c a b) 6"
  unfolding calculate_for_def Let_def step_numerals(5)
  by (intro ends_intros)

lemma generate_ends: "ends_in (generate_for t i) 4"
  unfolding generate_for_def Let_def step_numerals(4)
  by (intro ends_intros)

lemma check_and_consume_ends: "ends_in (check_and_consume t e) 1"
proof -
  have "ends_in (consume k cap rate cost) 1" for k cap rate cost
    unfolding consume_def step_numerals(1) by (intro ends_intros)
  then show ?thesis
    unfolding check_and_consume_def Let_def by (intro ends_pure ends_bnd [where m = 1 and n = 0]) simp_all
qed

lemma semaphore_ends: "ends_in (acquire k cap) 3" "ends_in (catch (release k x) (\<lambda>e. Return ())) 1"
proof -
  show "ends_in (acquire k cap) 3"
    unfolding acquire_def step_numerals(3) by (intro ends_intros)
  show "ends_in (catch (release k x) (\<lambda>e. Return ())) 1"
    unfolding release_def step_numerals(1) by (intro ends_catch ends_intros)
qed

lemma views_end:
  "ends_in (ingest_view fw r) 2" "ends_in (calculate_view fw r) 6" "ends_in (generate_view fw r) 4"
proof -
  show "ends_in (ingest_view fw r) 2"
    unfolding ingest_view_def by (intro ends_pure ends_bnd [OF ingest_ends, where n = 0]) simp_all
  show "ends_in (calculate_view fw r) 6"
    unfolding calculate_view_def by (intro ends_pure ends_bnd [OF calculate_ends, where n = 0]) simp_all
  show "ends_in (generate_view fw r) 4"
    unfolding generate_view_def by (intro ends_pure ends_try_else [OF generate_ends, where n = 0]) (auto split: exn.split)
qed

lemma converted_ends: "ends_in (h r) n \<Longrightarrow> ends_in (converted fw h r) n"
  unfolding converted_def by (rule ends_catch) simp_all

lemma rate_limit_ends:
  assumes "ends_in (h r) n"
  shows "ends_in (rate_limit_middleware h r) (Suc n)"
proof -
  have up: "ends_in (h r) (Suc n)" using ends_mono [OF assms] by simp
  have "ends_in (reject d) n" for d
    unfolding reject_def Let_def by (intro ends_pure) simp
  with assms have "ends_in (try_else (check_and_consume (header_tenant r) (req_path r)) (\<lambda>e. h r)
      (\<lambda>d. if rl_allowed d then h r else reject d)) (Suc n)"
    by (intro ends_try_else [OF check_and_consume_ends, where n = n]) simp_all
  with up show ?thesis by (simp add: rate_limit_middleware_def Let_def)
qed

lemma concurrency_ends:
  assumes "ends_in (h r) n"
  shows "ends_in (concurrency_middleware h r) (n + 4)"
proof (cases "req_path r \<notin> set HEAVY_ENDPOINTS \<or> header_tenant r = []")
  case True
  then show ?thesis using ends_mono [OF assms] by (simp add: concurrency_passes)
next
  case False
  then have heavy: "req_path r \<in> set HEAVY_ENDPOINTS" "header_tenant r \<noteq> []" by simp_all
  have "ends_in (h r) (Suc n)" using ends_mono [OF assms] by simp
  moreover have "ends_in (finally_do (h r) (catch (release k x) (\<lambda>e. Return ()))) (Suc n)" for k x
    by (rule ends_finally [OF assms semaphore_ends(2)]) simp
  ultimately show ?thesis unfolding concurrency_guarded [OF heavy]
    by (intro ends_try_else [OF semaphore_ends(1), where n = "Suc n"]) simp_all
qed

text \<open>A path that is not heavy has no semaphore steps.\<close>

lemma light_ends:
  "req_path r \<notin> set HEAVY_ENDPOINTS \<Longrightarrow> ends_in (h r) n \<Longrightarrow> ends_in (concurrency_middleware h r) n"
  by (simp add: concurrency_passes)

lemma driven_ends:
  assumes "ends_in p m"
  obtains out k s' where "drive ex env p n s = (out, k, s')" and "k \<le> n + m" and "out \<noteq> Crashed"
proof -
  have "fst (drive ex env p n s) \<noteq> Crashed \<and> fst (snd (drive ex env p n s)) \<le> n + m"
    using assms
  proof (induction p arbitrary: n m s)
    case (Call c k)
    then obtain m' where m: "m = Suc m'" and all: "\<And>r. ends_in (k r) m'" by (cases m) auto
    have "fst (drive ex env (k r) (Suc n) t) \<noteq> Crashed \<and> fst (snd (drive ex env (k r) (Suc n) t)) \<le> n + m" for r t
      using Call.IH [OF rangeI all, of r "Suc n" t] m by simp
    then show ?case by (auto split: fate.split prod.split)
  next
    case (Now k)
    then obtain m' where m: "m = Suc m'" and all: "\<And>r. ends_in (k r) m'" by (cases m) auto
    show ?case using Now.IH [OF rangeI all, of "reading_at env n" "Suc n" s] m by simp
  next
    case (Uuid4 k)
    then obtain m' where m: "m = Suc m'" and all: "\<And>r. ends_in (k r) m'" by (cases m) auto
    show ?case using Uuid4.IH [OF rangeI all, of "ident_at env n" "Suc n" s] m by simp
  qed simp_all
  then show ?thesis by (cases "drive ex env p n s") (auto intro: that)
qed

lemma drive_catch:
  "drive ex env (catch p (\<lambda>e. Return (g e))) n s =
     (case drive ex env p n s of (Raised e, k, s') \<Rightarrow> (Done (g e), k, s') | x \<Rightarrow> x)"
  by (induction p arbitrary: n s) (auto split: fate.split prod.split outcome.split)

lemma application_ends:
  assumes fw: "framework_ok fw" and post: "req_method r = ''POST''"
  shows "req_path r = ''/api/v1/events/ingest'' \<Longrightarrow> ends_in (application fw r) 3"
    and "req_path r = ''/api/v1/billing/calculate'' \<Longrightarrow> ends_in (application fw r) 11"
    and "req_path r = ''/api/v1/invoices/generate'' \<Longrightarrow> ends_in (application fw r) 9"
proof -
  have caught: "ends_in (catch p (\<lambda>e. Return (fw_on_error fw e))) n" if "ends_in p n" for p n
    using that by (rule ends_catch) simp
  show "ends_in (application fw r) 3" if p: "req_path r = ''/api/v1/events/ingest''"
  proof -
    have "ends_in (route fw r) 2" unfolding route_post(1) [OF post p] by (rule caught [OF views_end(1)])
    then have "ends_in (concurrency_middleware (converted fw (converted fw (route fw))) r) 2"
      by (intro light_ends converted_ends) (simp_all add: p HEAVY_ENDPOINTS_def)
    then show ?thesis
      unfolding application_transparent [OF fw] step_numerals(2,3) by (intro converted_ends rate_limit_ends)
  qed
  have heavy: "ends_in (application fw r) (Suc (n + 4))" if "ends_in (route fw r) n" for n
    unfolding application_transparent [OF fw] using that
    by (intro converted_ends rate_limit_ends concurrency_ends)
  show "ends_in (application fw r) 11" if p: "req_path r = ''/api/v1/billing/calculate''"
    using heavy [of 6] caught [OF views_end(2), of fw r] by (simp add: route_post(2) [OF post p])
  show "ends_in (application fw r) 9" if p: "req_path r = ''/api/v1/invoices/generate''"
    using heavy [of 4] caught [OF views_end(3), of fw r] by (simp add: route_post(3) [OF post p])
qed

text \<open>
  The steps of a request: with every call answered or failed at once, the application ends
  with a response after at most 3 steps for an ingest, 11 for a calculation and 9 for an
  issuance, where a step is a Redis request, a clock reading or an identifier drawn. The run
  is one that \<open>run\<close> makes too. How long a single call takes is not bounded here: the client
  is built without a socket timeout.
\<close>

lemma application_steps:
  assumes fw: "framework_ok fw" and post: "req_method r = ''POST''"
    and path: "(req_path r, n) \<in> {(''/api/v1/events/ingest'', 3), (''/api/v1/billing/calculate'', 11),
      (''/api/v1/invoices/generate'', 9)}"
  shows "\<exists>resp k s' tape. drive exec env (application fw r) 0 s = (Done resp, k, s') \<and> k \<le> n
    \<and> run exec (application fw r) tape s = (Done resp, [], s') \<and> length tape = k"
proof -
  have "ends_in (application fw r) n" using path application_ends [OF fw post] by auto
  then obtain out k s' where d: "drive exec env (application fw r) 0 s = (out, k, s')" and k: "k \<le> n" and "out \<noteq> Crashed"
    by (rule driven_ends [where n = 0 and m = n]) simp
  moreover have "application fw r = catch (rate_limit_middleware (converted fw (concurrency_middleware
     (converted fw (fw_inner fw (converted fw (route fw)))))) r) (\<lambda>e. Return (fw_on_error fw e))"
    by (simp add: application_layers converted_def [of fw "rate_limit_middleware _"])
  ultimately obtain resp where out: "out = Done resp"
    by (cases out) (auto simp: drive_catch split: prod.splits outcome.splits)
  from drive_runs [OF d] obtain tape where "run exec (application fw r) tape s = (out, [], s')" "k = length tape" by auto
  with d k out show ?thesis by blast
qed

end
