(* ===== verification/Serial_Ingest.thy ===== *)
theory Serial_Ingest imports Event_Store "HOL-Library.Multiset" begin

text \<open>
  Ingestion without faults, against a reference that handles one event after the other.
  \<open>ingest_event\<close> is two requests to the server, and the two of one process interleave with
  those of the others. \<open>calm_run\<close> is any such interleaving in which every request is
  answered, \<open>ingest_serial\<close> the reference: a set of keys seen and a book of events. The lemmas show
  that each interleaving is, in its results and in what the streams hold, the reference run
  in the order in which the claims of the markers reached the server.
\<close>

inductive calm_step :: "'s exec \<Rightarrow> (nat \<Rightarrow> 's \<Rightarrow> 's) \<Rightarrow> ('s, 'a) config \<Rightarrow> nat \<Rightarrow> ('s, 'a) config \<Rightarrow> bool"
  for ex elapse where
  served: "i < length ps \<Longrightarrow> ps ! i = Call c k \<Longrightarrow> serve ex c s = (r, s') \<Longrightarrow>
     calm_step ex elapse (s, ps) 0 (s', ps[i := k r])"
| waits: "calm_step ex elapse (s, ps) d (elapse d s, ps)"

inductive calm_run :: "'s exec \<Rightarrow> (nat \<Rightarrow> 's \<Rightarrow> 's) \<Rightarrow> ('s, 'a) config \<Rightarrow> nat \<Rightarrow> ('s, 'a) config \<Rightarrow> bool"
  for ex elapse cf0 where
  start: "calm_run ex elapse cf0 0 cf0"
| step: "calm_run ex elapse cf0 T cf \<Longrightarrow> calm_step ex elapse cf d cf' \<Longrightarrow> calm_run ex elapse cf0 (T + d) cf'"

subsection \<open>The reference\<close>

definition ingested :: "IngestEventCommand \<Rightarrow> bool \<Rightarrow> IngestEventResult" where
  "ingested c dup = \<lparr>event_id = ev_idempotency_key c, duplicate = dup\<rparr>"

primrec ingest_serial :: "string set \<Rightarrow> IngestEventCommand list \<Rightarrow> IngestEventResult list \<times> IngestEventCommand list" where
  "ingest_serial seen [] = ([], [])"
| "ingest_serial seen (c # cs) =
     (if marker_key c \<in> seen
      then (case ingest_serial seen cs of (rs, book) \<Rightarrow> (ingested c True # rs, book))
      else (case ingest_serial (insert (marker_key c) seen) cs of (rs, book) \<Rightarrow> (ingested c False # rs, c # book)))"

lemma ingest_serial_snoc:
  "ingest_serial seen (cs @ [c]) =
     (case ingest_serial seen cs of (rs, book) \<Rightarrow>
        if marker_key c \<in> seen \<union> marker_key ` set cs then (rs @ [ingested c True], book)
        else (rs @ [ingested c False], book @ [c]))"
  by (induction cs arbitrary: seen) (auto split: prod.split)

subsection \<open>The stages of one ingestion\<close>

datatype stage = Fresh | Won | Added | Absorbed

definition append_then :: "IngestEventCommand \<Rightarrow> IngestEventResult prog" where
  "append_then c = bnd (redis_py (Cmd (XADD (events_key c) (serialize_event c)))) (\<lambda>_. Return (ingested c False))"

fun at_stage :: "IngestEventCommand \<Rightarrow> stage \<Rightarrow> IngestEventResult prog" where
  "at_stage c Fresh = ingest_event c"
| "at_stage c Won = append_then c"
| "at_stage c Added = Return (ingested c False)"
| "at_stage c Absorbed = Return (ingested c True)"

lemma ingest_event_calls:
  "ingest_event c = Call (Cmd (SET_NX_EX (marker_key c) (Text ''1'') IDEMPOTENCY_TTL_SECONDS))
     (\<lambda>r. case r of RError e \<Rightarrow> Raise (RedisError e)
        | _ \<Rightarrow> if reply_truthy r then append_then c else Return (ingested c True))"
  by (auto simp: ingest_event_def record_event_def claim_idempotency_def append_then_def ingested_def redis_py_def
      bnd_assoc fun_eq_iff split: reply.split)

lemma append_then_calls:
  "append_then c = Call (Cmd (XADD (events_key c) (serialize_event c)))
     (\<lambda>r. case r of RError e \<Rightarrow> Raise (RedisError e) | _ \<Rightarrow> Return (ingested c False))"
  by (auto simp: append_then_def redis_py_def fun_eq_iff split: reply.split)

lemma at_stage_Return: "at_stage c g = Return x \<longleftrightarrow> (g = Added \<and> x = ingested c False) \<or> (g = Absorbed \<and> x = ingested c True)"
  by (cases g) (auto simp: ingest_event_calls append_then_calls)

subsection \<open>The simulation\<close>

definition plain_stream :: "(string \<times> (string \<times> bulk) list) list \<Rightarrow> entry option \<Rightarrow> bool" where
  "plain_stream es e \<longleftrightarrow> as_stream e = Some es \<and> deadline_of e = None"

text \<open>What the threads that are done have added to a tenant's stream.\<close>

definition added_to :: "IngestEventCommand list \<Rightarrow> stage list \<Rightarrow> string \<Rightarrow> (string \<times> bulk) list multiset" where
  "added_to cs gs t = image_mset (\<lambda>i. serialize_event (cs ! i))
     (mset_set {i. i < length cs \<and> gs ! i = Added \<and> ev_tenant_id (cs ! i) = t})"

definition ledger :: "IngestEventCommand list \<Rightarrow> stage list \<Rightarrow> nat list \<Rightarrow> bool" where
  "ledger cs gs ord \<longleftrightarrow> distinct ord \<and> set ord = {i. i < length cs \<and> gs ! i \<noteq> Fresh} \<and>
     ingest_serial {} (map ((!) cs) ord) =
       (map (\<lambda>i. ingested (cs ! i) (gs ! i = Absorbed)) ord, map ((!) cs) (filter (\<lambda>i. gs ! i \<noteq> Absorbed) ord))"

definition markers_ok :: "int \<Rightarrow> IngestEventCommand list \<Rightarrow> nat list \<Rightarrow> (string \<Rightarrow> entry option) \<Rightarrow> bool" where
  "markers_ok until cs ord v \<longleftrightarrow> (\<forall>c \<in> set cs.
     if marker_key c \<in> marker_key ` (!) cs ` set ord
     then \<exists>b d. v (marker_key c) = Some (b, Some d) \<and> until \<le> d
     else v (marker_key c) = None)"

lemma markers_okD:
  assumes "markers_ok until cs ord v" and "c \<in> set cs"
  shows "marker_key c \<in> marker_key ` (!) cs ` set ord \<Longrightarrow> \<exists>b d. v (marker_key c) = Some (b, Some d) \<and> until \<le> d"
    and "marker_key c \<notin> marker_key ` (!) cs ` set ord \<Longrightarrow> v (marker_key c) = None"
  using bspec [OF assms(1) [unfolded markers_ok_def] assms(2)] by simp_all

definition streams_ok :: "(string \<Rightarrow> (string \<times> (string \<times> bulk) list) list) \<Rightarrow> IngestEventCommand list \<Rightarrow> stage list
    \<Rightarrow> (string \<Rightarrow> entry option) \<Rightarrow> bool" where
  "streams_ok es0 cs gs v \<longleftrightarrow> (\<forall>t \<in> ev_tenant_id ` set cs. \<exists>new.
     plain_stream (es0 t @ new) (v (stream_key t)) \<and> mset (map snd new) = added_to cs gs t)"

definition simulates :: "(string \<Rightarrow> (string \<times> (string \<times> bulk) list) list) \<Rightarrow> int \<Rightarrow> IngestEventCommand list
    \<Rightarrow> stage list \<Rightarrow> nat list \<Rightarrow> (string \<Rightarrow> entry option) \<Rightarrow> IngestEventResult prog list \<Rightarrow> bool" where
  "simulates es0 until cs gs ord v ps \<longleftrightarrow> length gs = length cs \<and> ps = map2 at_stage cs gs \<and>
     ledger cs gs ord \<and> markers_ok until cs ord v \<and> streams_ok es0 cs gs v"

lemma map2_update: "length gs = length cs \<Longrightarrow> i < length cs \<Longrightarrow>
    (map2 at_stage cs gs)[i := at_stage (cs ! i) g] = map2 at_stage cs (gs[i := g])"
  by (rule nth_equalityI) (auto simp: nth_list_update)

lemma added_to_same:
  assumes "length gs = length cs" and "i < length cs" and "gs ! i \<noteq> Added" and "g \<noteq> Added"
  shows "added_to cs (gs[i := g]) t = added_to cs gs t"
proof -
  have "{j. j < length cs \<and> gs[i := g] ! j = Added \<and> ev_tenant_id (cs ! j) = t}
      = {j. j < length cs \<and> gs ! j = Added \<and> ev_tenant_id (cs ! j) = t}"
    using assms by (auto simp: nth_list_update)
  then show ?thesis by (simp add: added_to_def)
qed

lemma added_to_more:
  assumes "length gs = length cs" and "i < length cs" and "gs ! i \<noteq> Added"
  shows "added_to cs (gs[i := Added]) t =
    (if ev_tenant_id (cs ! i) = t then add_mset (serialize_event (cs ! i)) (added_to cs gs t) else added_to cs gs t)"
proof -
  let ?A = "{j. j < length cs \<and> gs ! j = Added \<and> ev_tenant_id (cs ! j) = t}"
  have "{j. j < length cs \<and> gs[i := Added] ! j = Added \<and> ev_tenant_id (cs ! j) = t}
      = (if ev_tenant_id (cs ! i) = t then insert i ?A else ?A)"
    using assms by (auto simp: nth_list_update)
  moreover have "finite ?A" and "i \<notin> ?A" using assms(3) by simp_all
  from mset_set.insert [OF this] have "mset_set (insert i ?A) = add_mset i (mset_set ?A)" .
  ultimately show ?thesis unfolding added_to_def by simp
qed

text \<open>A claim extends the order by its thread.\<close>

lemma ledger_claim:
  assumes l: "ledger cs gs ord" and len: "length gs = length cs" and i: "i < length cs" "gs ! i = Fresh"
    and g: "g = (if marker_key (cs ! i) \<in> marker_key ` (!) cs ` set ord then Absorbed else Won)"
  shows "ledger cs (gs[i := g]) (ord @ [i])"
proof -
  have ni: "i \<notin> set ord" using l i by (auto simp: ledger_def)
  have g': "g \<noteq> Fresh" by (simp add: g)
  have "gs[i := g] ! j = gs ! j" if "j \<in> set ord" for j using ni that by (intro nth_list_update_neq) auto
  then have same: "map (\<lambda>j. ingested (cs ! j) (gs[i := g] ! j = Absorbed)) ord = map (\<lambda>j. ingested (cs ! j) (gs ! j = Absorbed)) ord"
    "filter (\<lambda>j. gs[i := g] ! j \<noteq> Absorbed) ord = filter (\<lambda>j. gs ! j \<noteq> Absorbed) ord"
    by (auto intro!: map_cong filter_cong)
  have "set (ord @ [i]) = {j. j < length cs \<and> gs[i := g] ! j \<noteq> Fresh}"
    using l i g' len by (auto simp: ledger_def nth_list_update)
  moreover have "ingest_serial {} (map ((!) cs) ord) = (map (\<lambda>j. ingested (cs ! j) (gs[i := g] ! j = Absorbed)) ord,
      map ((!) cs) (filter (\<lambda>j. gs[i := g] ! j \<noteq> Absorbed) ord))"
    using l by (simp only: ledger_def same)
  then have "ingest_serial {} (map ((!) cs) (ord @ [i])) = (map (\<lambda>j. ingested (cs ! j) (gs[i := g] ! j = Absorbed)) (ord @ [i]),
      map ((!) cs) (filter (\<lambda>j. gs[i := g] ! j \<noteq> Absorbed) (ord @ [i])))"
    using i len by (cases "marker_key (cs ! i) \<in> marker_key ` (!) cs ` set ord") (simp_all add: ingest_serial_snoc g)
  moreover have "distinct (ord @ [i])" using l ni by (simp add: ledger_def)
  ultimately show ?thesis unfolding ledger_def by blast
qed

lemma ledger_append:
  assumes "ledger cs gs ord" and "length gs = length cs" and "i < length cs" and "gs ! i = Won"
  shows "ledger cs (gs[i := Added]) ord"
proof -
  have "gs[i := Added] ! j = Absorbed \<longleftrightarrow> gs ! j = Absorbed" "gs[i := Added] ! j = Fresh \<longleftrightarrow> gs ! j = Fresh"
    if "j < length cs" for j using assms that by (auto simp: nth_list_update)
  moreover have "j < length cs" if "j \<in> set ord" for j using assms(1) that by (auto simp: ledger_def)
  ultimately have "map (\<lambda>j. ingested (cs ! j) (gs[i := Added] ! j = Absorbed)) ord = map (\<lambda>j. ingested (cs ! j) (gs ! j = Absorbed)) ord"
    "filter (\<lambda>j. gs[i := Added] ! j \<noteq> Absorbed) ord = filter (\<lambda>j. gs ! j \<noteq> Absorbed) ord"
    and "{j. j < length cs \<and> gs[i := Added] ! j \<noteq> Fresh} = {j. j < length cs \<and> gs ! j \<noteq> Fresh}"
    by (auto intro!: map_cong filter_cong)
  with assms(1) show ?thesis by (simp add: ledger_def)
qed

context redis_server
begin

lemma simulates_claim:
  assumes sim: "simulates es0 until cs gs ord (view s) ps" and i: "i < length cs" "gs ! i = Fresh"
    and week: "until \<le> clock s + IDEMPOTENCY_TTL_SECONDS * usec"
    and run: "serve exec (Cmd (SET_NX_EX (marker_key (cs ! i)) (Text ''1'') IDEMPOTENCY_TTL_SECONDS)) s = (r, s')"
  obtains g where "simulates es0 until cs (gs[i := g]) (ord @ [i]) (view s')
      (ps[i := (case r of RError e \<Rightarrow> Raise (RedisError e)
        | _ \<Rightarrow> if reply_truthy r then append_then (cs ! i) else Return (ingested (cs ! i) True))])"
proof -
  let ?c = "cs ! i" and ?seen = "marker_key ` (!) cs ` set ord"
  from sim have len: "length gs = length cs" and ps: "ps = map2 at_stage cs gs" and l: "ledger cs gs ord"
    and m: "markers_ok until cs ord (view s)" and st: "streams_ok es0 cs gs (view s)"
    by (simp_all add: simulates_def)
  define g where "g = (if marker_key ?c \<in> ?seen then Absorbed else Won)"
  note l' = ledger_claim [OF l len i g_def]
  have same: "added_to cs (gs[i := g]) = added_to cs gs"
    using added_to_same [OF len i(1)] i(2) by (auto simp: g_def)
  have sn: "marker_key ` (!) cs ` set (ord @ [i]) = insert (marker_key ?c) ?seen" by auto
  show ?thesis
  proof (cases "marker_key ?c \<in> ?seen")
    case True
    with markers_okD(1) [OF m nth_mem [OF i(1)]] have "view s (marker_key ?c) \<noteq> None" by auto
    from set_nx_taken [OF this idempotency_ttl_pos] run have r: "r = RNil" "s' = s" by simp_all
    have "markers_ok until cs (ord @ [i]) (view s)" unfolding markers_ok_def sn insert_absorb [OF True]
      using m by (simp add: markers_ok_def)
    moreover have "Return (ingested ?c True) = at_stage ?c g" using True by (simp add: g_def)
    ultimately have "simulates es0 until cs (gs[i := g]) (ord @ [i]) (view s) (ps[i := Return (ingested ?c True)])"
      using len l' st same map2_update [OF len i(1)] by (simp add: simulates_def streams_ok_def ps)
    with r show ?thesis by (intro that [of g]) simp
  next
    case False
    with markers_okD(2) [OF m nth_mem [OF i(1)]] have "view s (marker_key ?c) = None" .
    then obtain s1 where "exec (SET_NX_EX (marker_key ?c) (Text ''1'') IDEMPOTENCY_TTL_SECONDS) s = (RBulk (Text ''OK''), s1)"
      and "view s1 = (view s)(marker_key ?c := Some (RString (Text ''1''), Some (clock s + IDEMPOTENCY_TTL_SECONDS * usec)))"
      by (rule claim_fresh)
    with run have r: "r = RBulk (Text ''OK'')"
      and v: "view s' = (view s)(marker_key ?c := Some (RString (Text ''1''), Some (clock s + IDEMPOTENCY_TTL_SECONDS * usec)))"
      by simp_all
    have "markers_ok until cs (ord @ [i]) (view s')"
      using m week unfolding markers_ok_def sn by (auto simp: v)
    moreover have "append_then ?c = at_stage ?c g" using False by (simp add: g_def)
    ultimately have "simulates es0 until cs (gs[i := g]) (ord @ [i]) (view s') (ps[i := append_then ?c])"
      using len l' st same map2_update [OF len i(1)] by (simp add: simulates_def streams_ok_def ps v)
    with r show ?thesis by (intro that [of g]) simp
  qed
qed

lemma simulates_append:
  assumes sim: "simulates es0 until cs gs ord (view s) ps" and i: "i < length cs" "gs ! i = Won"
    and run: "serve exec (Cmd (XADD (events_key (cs ! i)) (serialize_event (cs ! i)))) s = (r, s')"
  shows "simulates es0 until cs (gs[i := Added]) ord (view s')
      (ps[i := (case r of RError e \<Rightarrow> Raise (RedisError e) | _ \<Rightarrow> Return (ingested (cs ! i) False))])"
proof -
  let ?c = "cs ! i"
  from sim have len: "length gs = length cs" and ps: "ps = map2 at_stage cs gs" and l: "ledger cs gs ord"
    and m: "markers_ok until cs ord (view s)" and st: "streams_ok es0 cs gs (view s)"
    by (simp_all add: simulates_def)
  have ne: "gs ! i \<noteq> Added" using i(2) by simp
  have t: "ev_tenant_id ?c \<in> ev_tenant_id ` set cs" using i(1) by simp
  with st obtain new where new: "plain_stream (es0 (ev_tenant_id ?c) @ new) (view s (events_key ?c))"
    and mn: "mset (map snd new) = added_to cs gs (ev_tenant_id ?c)" by (auto simp: streams_ok_def)
  then have "as_stream (view s (events_key ?c)) = Some (es0 (ev_tenant_id ?c) @ new)" by (simp add: plain_stream_def)
  then obtain x s1 where "exec (XADD (events_key ?c) (serialize_event ?c)) s = (RBulk (Text x), s1)"
    and "view s1 = (view s)(events_key ?c := Some (RStream ((es0 (ev_tenant_id ?c) @ new) @ [(x, serialize_event ?c)]),
           deadline_of (view s (events_key ?c))))"
    by (rule xadd_view [OF _ serialize_nonempty])
  with run new have r: "r = RBulk (Text x)"
    and v: "view s' = (view s)(events_key ?c := Some (RStream (es0 (ev_tenant_id ?c) @ new @ [(x, serialize_event ?c)]), None))"
    by (simp_all add: plain_stream_def)
  have "streams_ok es0 cs (gs[i := Added]) (view s')"
    unfolding streams_ok_def
  proof
    fix u assume u: "u \<in> ev_tenant_id ` set cs"
    show "\<exists>n. plain_stream (es0 u @ n) (view s' (stream_key u)) \<and> mset (map snd n) = added_to cs (gs[i := Added]) u"
    proof (cases "u = ev_tenant_id ?c")
      case True
      then show ?thesis
        using mn by (intro exI [of _ "new @ [(x, serialize_event ?c)]"])
          (simp add: v plain_stream_def added_to_more [OF len i(1) ne])
    next
      case False
      with st u show ?thesis by (auto simp: streams_ok_def v added_to_more [OF len i(1) ne])
    qed
  qed
  moreover have "markers_ok until cs ord (view s')" using m by (simp add: markers_ok_def v)
  moreover have "Return (ingested ?c False) = at_stage ?c Added" by simp
  ultimately show ?thesis
    using ledger_append [OF l len i] len map2_update [OF len i(1), of Added] by (simp add: simulates_def ps r)
qed

lemma simulates_wait:
  assumes sim: "simulates es0 until cs gs ord (view s) ps" and soon: "clock s + int d < until"
  shows "simulates es0 until cs gs ord (view (elapse d s)) ps"
proof -
  have "markers_ok until cs ord (view (elapse d s))"
    unfolding markers_ok_def
  proof
    fix c assume c: "c \<in> set cs"
    show "if marker_key c \<in> marker_key ` (!) cs ` set ord
      then \<exists>b dl. view (elapse d s) (marker_key c) = Some (b, Some dl) \<and> until \<le> dl
      else view (elapse d s) (marker_key c) = None"
    proof (cases "marker_key c \<in> marker_key ` (!) cs ` set ord")
      case True
      with markers_okD(1) [OF _ c] sim obtain b dl where e: "view s (marker_key c) = Some (b, Some dl)" "until \<le> dl"
        unfolding simulates_def by blast
      then have "view (elapse d s) (marker_key c) = view s (marker_key c)"
        using soon by (intro elapse_live) simp
      with True e show ?thesis by simp
    next
      case False
      with markers_okD(2) [OF _ c] sim have "view s (marker_key c) = None" unfolding simulates_def by blast
      with elapse_either [of d s "marker_key c"] False show ?thesis by auto
    qed
  qed
  moreover have "streams_ok es0 cs gs (view (elapse d s))"
    unfolding streams_ok_def
  proof
    fix t assume "t \<in> ev_tenant_id ` set cs"
    with sim obtain new where n: "plain_stream (es0 t @ new) (view s (stream_key t))" "mset (map snd new) = added_to cs gs t"
      by (auto simp: simulates_def streams_ok_def)
    then have "view (elapse d s) (stream_key t) = view s (stream_key t)"
      by (intro elapse_live) (simp add: plain_stream_def)
    with n show "\<exists>new. plain_stream (es0 t @ new) (view (elapse d s) (stream_key t)) \<and> mset (map snd new) = added_to cs gs t"
      by auto
  qed
  ultimately show ?thesis using sim by (simp add: simulates_def)
qed

lemma simulates_step:
  assumes "calm_step exec elapse cf d cf'" and "simulates es0 until cs gs ord (view (fst cf)) (snd cf)"
    and "clock (fst cf) + int d < until" and "until \<le> clock (fst cf) + IDEMPOTENCY_TTL_SECONDS * usec"
  shows "(\<exists>gs ord. simulates es0 until cs gs ord (view (fst cf')) (snd cf')) \<and> clock (fst cf') = clock (fst cf) + int d"
  using assms
proof (induction rule: calm_step.induct)
  case (served i ps c k s r s')
  then have sim: "simulates es0 until cs gs ord (view s) ps" by simp
  then have len: "length gs = length cs" and ps: "ps = map2 at_stage cs gs" by (simp_all add: simulates_def)
  with served(1) have i: "i < length cs" by simp
  have p: "ps ! i = at_stage (cs ! i) (gs ! i)" using i len by (simp add: ps)
  have clk: "clock s' = clock s" by (rule serve_clock [OF served(3)])
  show ?case
  proof (cases "gs ! i")
    case Fresh
    with p served(2) have c: "c = Cmd (SET_NX_EX (marker_key (cs ! i)) (Text ''1'') IDEMPOTENCY_TTL_SECONDS)"
      and k: "k = (\<lambda>r. case r of RError e \<Rightarrow> Raise (RedisError e)
        | _ \<Rightarrow> if reply_truthy r then append_then (cs ! i) else Return (ingested (cs ! i) True))"
      by (simp_all add: ingest_event_calls)
    have week: "until \<le> clock s + IDEMPOTENCY_TTL_SECONDS * usec" using served.prems(3) by simp
    from simulates_claim [OF sim i Fresh week served(3) [unfolded c]] obtain g where
      "simulates es0 until cs (gs[i := g]) (ord @ [i]) (view s') (ps[i := k r])" unfolding k .
    with clk show ?thesis by auto
  next
    case Won
    with p served(2) have c: "c = Cmd (XADD (events_key (cs ! i)) (serialize_event (cs ! i)))"
      and k: "k = (\<lambda>r. case r of RError e \<Rightarrow> Raise (RedisError e) | _ \<Rightarrow> Return (ingested (cs ! i) False))"
      by (simp_all add: append_then_calls)
    from simulates_append [OF sim i Won served(3) [unfolded c]]
    have "simulates es0 until cs (gs[i := Added]) ord (view s') (ps[i := k r])" unfolding k .
    with clk show ?thesis by auto
  qed (use p served(2) in simp_all)
next
  case (waits s ps d)
  then show ?case using simulates_wait [of es0 until cs gs ord s ps d] by (auto simp: clock_elapse)
qed

lemma simulates_run:
  assumes "calm_run exec elapse (s0, map ingest_event cs) T cf" and "int T < IDEMPOTENCY_TTL_SECONDS * usec"
    and "\<forall>c \<in> set cs. view s0 (marker_key c) = None" and "\<forall>t \<in> ev_tenant_id ` set cs. plain_stream (es0 t) (view s0 (stream_key t))"
  shows "(\<exists>gs ord. simulates es0 (clock s0 + IDEMPOTENCY_TTL_SECONDS * usec) cs gs ord (view (fst cf)) (snd cf))
    \<and> clock (fst cf) = clock s0 + int T"
  using assms(1,2)
proof (induction rule: calm_run.induct)
  case start
  let ?gs = "replicate (length cs) Fresh"
  have "map ingest_event cs = map2 at_stage cs ?gs" by (rule nth_equalityI) simp_all
  moreover have "ledger cs ?gs []" by (simp add: ledger_def)
  moreover have "added_to cs ?gs t = {#}" for t
  proof -
    have none: "{i. i < length cs \<and> ?gs ! i = Added \<and> ev_tenant_id (cs ! i) = t} = {}" by auto
    show ?thesis unfolding added_to_def none by simp
  qed
  ultimately have "simulates es0 (clock s0 + IDEMPOTENCY_TTL_SECONDS * usec) cs ?gs [] (view s0) (map ingest_event cs)"
    using assms(3,4) by (auto simp: simulates_def markers_ok_def streams_ok_def intro!: exI [of _ "[]"])
  then show ?case by auto
next
  case (step T cf d cf')
  then obtain gs ord where "simulates es0 (clock s0 + IDEMPOTENCY_TTL_SECONDS * usec) cs gs ord (view (fst cf)) (snd cf)"
    and c: "clock (fst cf) = clock s0 + int T" by auto
  from simulates_step [OF step.hyps(2) this(1)] c step.prems show ?case by simp
qed

end

text \<open>The end of a run: every thread has its result.\<close>

lemma simulates_end:
  assumes "simulates es0 until cs gs ord v (map Return rs)"
  shows "mset ord = mset [0..<length cs]"
    and "ingest_serial {} (map ((!) cs) ord) = (map ((!) rs) ord, map ((!) cs) (filter (\<lambda>i. gs ! i \<noteq> Absorbed) ord))"
    and "added_to cs gs t = mset (map serialize_event (filter (\<lambda>c. ev_tenant_id c = t) (map ((!) cs) (filter (\<lambda>i. gs ! i \<noteq> Absorbed) ord))))"
proof -
  from assms have len: "length gs = length cs" and ps: "map Return rs = map2 at_stage cs gs" and l: "ledger cs gs ord"
    by (simp_all add: simulates_def)
  have "length (map Return rs) = length (map2 at_stage cs gs)" by (simp only: ps)
  then have n: "length rs = length cs" using len by simp
  have stage: "gs ! i = Added \<and> rs ! i = ingested (cs ! i) False \<or> gs ! i = Absorbed \<and> rs ! i = ingested (cs ! i) True"
    if "i < length cs" for i
  proof -
    have "map Return rs ! i = map2 at_stage cs gs ! i" by (simp only: ps)
    then have "at_stage (cs ! i) (gs ! i) = Return (rs ! i)" using that len n by simp
    then show ?thesis by (simp add: at_stage_Return)
  qed
  have "gs ! i \<noteq> Fresh" if "i < length cs" for i using stage [OF that] by auto
  then have ord: "distinct ord" "set ord = {0..<length cs}" using l by (auto simp: ledger_def)
  then show "mset ord = mset [0..<length cs]" by (intro iffD1 [OF set_eq_iff_mset_eq_distinct]) auto
  have "map (\<lambda>i. ingested (cs ! i) (gs ! i = Absorbed)) ord = map ((!) rs) ord"
  proof (rule map_cong [OF refl])
    fix i assume "i \<in> set ord"
    with stage [of i] ord(2) show "ingested (cs ! i) (gs ! i = Absorbed) = rs ! i" by auto
  qed
  with l show "ingest_serial {} (map ((!) cs) ord) = (map ((!) rs) ord, map ((!) cs) (filter (\<lambda>i. gs ! i \<noteq> Absorbed) ord))"
    by (simp add: ledger_def)
  have "mset (filter (\<lambda>i. gs ! i \<noteq> Absorbed \<and> ev_tenant_id (cs ! i) = t) ord)
      = mset_set {i. i < length cs \<and> gs ! i = Added \<and> ev_tenant_id (cs ! i) = t}"
  proof -
    have "mset (filter P ord) = mset_set {i \<in> set ord. P i}" for P
      using ord(1) by (metis distinct_filter mset_set_set set_filter)
    moreover have "{i \<in> set ord. gs ! i \<noteq> Absorbed \<and> ev_tenant_id (cs ! i) = t}
        = {i. i < length cs \<and> gs ! i = Added \<and> ev_tenant_id (cs ! i) = t}" using stage ord(2) by force
    ultimately show ?thesis by simp
  qed
  then show "added_to cs gs t = mset (map serialize_event (filter (\<lambda>c. ev_tenant_id c = t) (map ((!) cs) (filter (\<lambda>i. gs ! i \<noteq> Absorbed) ord))))"
    unfolding added_to_def by (simp add: filter_map comp_def conj_commute del: mset_filter flip: mset_map) (simp del: mset_filter)
qed

text \<open>
  C11. Without faults concurrency does not show: any number of ingestions that start
  together and interleave in any way, each with both its requests answered, within a week
  of free markers, give exactly the results and the stream entries of the reference that
  handles the same events one after the other in some order. In particular each key is
  recorded exactly once, and exactly one of its requests is told so.
\<close>

theorem concurrent_ingests_serialize:
  assumes srv: "redis_server exec view clock elapse"
    and run: "calm_run exec elapse (s0, map ingest_event cs) T (s, map Return rs)"
    and week: "int T < 604800 * usec"
    and free: "\<forall>c \<in> set cs. view s0 (marker_key c) = None"
    and streams: "\<forall>t \<in> ev_tenant_id ` set cs. plain_stream (es t) (view s0 (stream_key t))"
  shows "\<exists>order book. mset order = mset [0..<length cs]
    \<and> ingest_serial {} (map ((!) cs) order) = (map ((!) rs) order, book)
    \<and> (\<forall>t \<in> ev_tenant_id ` set cs. \<exists>new. as_stream (view s (stream_key t)) = Some (es t @ new)
        \<and> mset (map snd new) = mset (map serialize_event (filter (\<lambda>c. ev_tenant_id c = t) book)))"
proof -
  have "int T < IDEMPOTENCY_TTL_SECONDS * usec" using week by (simp add: idempotency_ttl)
  from redis_server.simulates_run [OF srv run this free streams] obtain gs ord
    where sim: "simulates es (clock s0 + IDEMPOTENCY_TTL_SECONDS * usec) cs gs ord (view s) (map Return rs)" by auto
  have "\<exists>new. as_stream (view s (stream_key t)) = Some (es t @ new)
      \<and> mset (map snd new) = mset (map serialize_event (filter (\<lambda>c. ev_tenant_id c = t)
          (map ((!) cs) (filter (\<lambda>i. gs ! i \<noteq> Absorbed) ord))))" if "t \<in> ev_tenant_id ` set cs" for t
    using sim that unfolding simulates_end(3) [OF sim, symmetric]
    by (auto simp: simulates_def streams_ok_def plain_stream_def)
  with simulates_end(1,2) [OF sim] show ?thesis by blast
qed

text \<open>Two concurrent deliveries of one event.\<close>

lemma calm_first:
  "calm_run ex el cf0 T (s, Call c k # ps) \<Longrightarrow> serve ex c s = (r, s') \<Longrightarrow> calm_run ex el cf0 T (s', k r # ps)"
  using calm_run.step [OF _ calm_step.served [of 0 "Call c k # ps"]] by fastforce

lemma calm_second:
  "calm_run ex el cf0 T (s, p # Call c k # ps) \<Longrightarrow> serve ex c s = (r, s') \<Longrightarrow> calm_run ex el cf0 T (s', p # k r # ps)"
  using calm_run.step [OF _ calm_step.served [of 1 "p # Call c k # ps"]] by fastforce

theorem concurrent_ingests_serialize_witness:
  "\<exists>s rs new. calm_run mem_exec mem_elapse (mem_at 0, map ingest_event [sample_event, sample_event]) 0 (s, map Return rs)
     \<and> as_stream (mem_data s (events_key sample_event)) = Some new \<and> length new = 1"
proof -
  let ?c = sample_event and ?cs = "[sample_event, sample_event]"
  let ?go = "calm_run mem_exec mem_elapse (mem_at 0, map ingest_event ?cs) 0"
  let ?claim = "Cmd (SET_NX_EX (marker_key ?c) (Text ''1'') IDEMPOTENCY_TTL_SECONDS)"
  define s1 where "s1 = put (marker_key ?c) (Some (RString (Text ''1''), Some (IDEMPOTENCY_TTL_SECONDS * usec))) (mem_at 0)"
  have 1: "serve mem_exec ?claim (mem_at 0) = (RBulk (Text ''OK''), s1)" and 2: "serve mem_exec ?claim s1 = (RNil, s1)"
    by (simp_all add: s1_def mem_at_def)
  have "as_stream (mem_data s1 (events_key ?c)) = Some []" by (simp add: s1_def mem_at_def)
  then obtain x s2 where 3: "serve mem_exec (Cmd (XADD (events_key ?c) (serialize_event ?c))) s1 = (RBulk (Text x), s2)"
    using mem.xadd [OF _ serialize_nonempty] by fastforce
  obtain k where k: "ingest_event ?c = Call ?claim k" "k (RBulk (Text ''OK'')) = append_then ?c" "k RNil = Return (ingested ?c True)"
    by (rule that [OF ingest_event_calls]) simp_all
  obtain a where a: "append_then ?c = Call (Cmd (XADD (events_key ?c) (serialize_event ?c))) a"
    "a (RBulk (Text x)) = Return (ingested ?c False)"
    by (rule that [OF append_then_calls]) simp
  have "?go (mem_at 0, [Call ?claim k, Call ?claim k])"
    using calm_run.start [of mem_exec mem_elapse "(mem_at 0, map ingest_event ?cs)"] by (simp add: k(1))
  note calm_second [OF calm_first [OF this 1] 2, unfolded k a(1)]
  from calm_first [OF this 3] have "?go (s2, [Return (ingested ?c False), Return (ingested ?c True)])"
    by (simp only: a(2))
  then have run: "?go (s2, map Return [ingested ?c False, ingested ?c True])" by simp
  have pre: "int 0 < 604800 * usec" "\<forall>c \<in> set ?cs. mem_data (mem_at 0) (marker_key c) = None"
    "\<forall>t \<in> ev_tenant_id ` set ?cs. plain_stream [] (mem_data (mem_at 0) (stream_key t))"
    by (simp_all add: mem_at_def plain_stream_def)
  from concurrent_ingests_serialize [OF mem.redis_server_axioms, OF run pre]
  obtain order book new where o: "mset order = mset [0..<length ?cs]"
    and b: "snd (ingest_serial {} (map ((!) ?cs) order)) = book"
    and n: "as_stream (mem_data s2 (events_key ?c)) = Some new"
      "mset (map snd new) = mset (map serialize_event (filter (\<lambda>c. ev_tenant_id c = ev_tenant_id ?c) book))" by auto
  have "map ((!) ?cs) order = replicate (length order) ?c"
  proof -
    have "set order = {0, 1}" using arg_cong [OF o, of set_mset] by auto
    then show ?thesis by (auto simp: map_eq_conv less_Suc_eq simp flip: map_replicate_const)
  qed
  moreover have "length order = 2" using arg_cong [OF o, of size] by simp
  ultimately have "book = [?c]" using b by (simp add: numeral_2_eq_2)
  with n(2) have "size (mset (map snd new)) = 1" by simp
  then have "length new = 1" by simp
  with run n(1) show ?thesis by blast
qed

end
