(* ===== verification/Redis_Client.thy ===== *)
theory Redis_Client imports Billing_Prelude begin

text \<open>
  \<open>billing/infrastructure/redis.py\<close>: the factory of the Redis client, cached by
  \<open>functools.lru_cache(maxsize=1)\<close>. A client is an object: two with the same settings are
  still two, so it carries a number. The cache looks up, calls the function without a lock
  on a miss, and stores the result unless another caller has stored one meanwhile; the
  caller gets the result of its own call. The lemmas show when all callers of a process
  share one client, and when not. The factory passes no \<open>socket_timeout\<close>: how long a call waits
  for a reply that never comes is up to the library, see \<open>Programs\<close>.
\<close>

record redis_client =
  client_url :: string
  client_decode_responses :: bool
  client_number :: nat

text \<open>\<open>config("REDIS_URL", default=...)\<close> over the process environment\<close>

definition REDIS_URL :: "(string \<Rightarrow> string option) \<Rightarrow> string" where
  "REDIS_URL env = (case env ''REDIS_URL'' of None \<Rightarrow> ''redis://localhost:6379/0'' | Some u \<Rightarrow> u)"

text \<open>A process: the cached client, and how many were ever built.\<close>

record client_cache =
  cached :: "redis_client option"
  built :: nat

definition from_url :: "(string \<Rightarrow> string option) \<Rightarrow> client_cache \<Rightarrow> redis_client" where
  "from_url env p =
     \<lparr>client_url = REDIS_URL env, client_decode_responses = True, client_number = built p\<rparr>"

text \<open>A call runs in two steps: the lookup, and on a miss the construction and the store.\<close>

datatype caller = Outside | Constructing | Got redis_client

definition lookup_client :: "client_cache \<Rightarrow> caller" where
  "lookup_client p = (case cached p of None \<Rightarrow> Constructing | Some c \<Rightarrow> Got c)"

definition store_client :: "(string \<Rightarrow> string option) \<Rightarrow> client_cache \<Rightarrow> caller \<times> client_cache" where
  "store_client env p =
     (let c = from_url env p in
      (Got c, \<lparr>cached = (case cached p of None \<Rightarrow> Some c | Some d \<Rightarrow> Some d), built = Suc (built p)\<rparr>))"

definition get_redis_client :: "(string \<Rightarrow> string option) \<Rightarrow> client_cache \<Rightarrow> caller \<times> client_cache" where
  "get_redis_client env p =
     (case lookup_client p of Constructing \<Rightarrow> store_client env p | x \<Rightarrow> (x, p))"

definition cache_clear :: "client_cache \<Rightarrow> client_cache" where
  "cache_clear p = p\<lparr>cached := None\<rparr>"

inductive client_step :: "(string \<Rightarrow> string option) \<Rightarrow> client_cache \<times> caller list \<Rightarrow> client_cache \<times> caller list \<Rightarrow> bool"
  for env where
  calls: "client_step env (p, cs) (p, cs @ [Outside])"
| looks_up: "i < length cs \<Longrightarrow> cs ! i = Outside \<Longrightarrow> client_step env (p, cs) (p, cs[i := lookup_client p])"
| stores: "i < length cs \<Longrightarrow> cs ! i = Constructing \<Longrightarrow> store_client env p = (x, p') \<Longrightarrow>
     client_step env (p, cs) (p', cs[i := x])"

text \<open>
  Runs from a fresh process whose states satisfy \<open>ok\<close>; \<open>one_constructs\<close> is the case of
  callers that do not meet in the construction.
\<close>

inductive client_reach :: "(client_cache \<times> caller list \<Rightarrow> bool) \<Rightarrow> (string \<Rightarrow> string option)
    \<Rightarrow> client_cache \<times> caller list \<Rightarrow> bool" for ok env where
  fresh: "client_reach ok env (\<lparr>cached = None, built = 0\<rparr>, [])"
| more: "client_reach ok env cf \<Longrightarrow> client_step env cf cf' \<Longrightarrow> ok cf' \<Longrightarrow> client_reach ok env cf'"

definition one_constructs :: "client_cache \<times> caller list \<Rightarrow> bool" where
  "one_constructs cf \<longleftrightarrow> length (filter (\<lambda>x. x = Constructing) (snd cf)) \<le> 1"

lemma two_constructing:
  assumes "i < length cs" and "cs ! i = Constructing" and "Constructing \<in> set (cs[i := x])" and "x \<noteq> Constructing"
  shows "\<not> length (filter (\<lambda>x. x = Constructing) cs) \<le> 1"
proof -
  from assms(3) obtain j where "j < length cs" and u: "cs[i := x] ! j = Constructing"
    by (auto simp: in_set_conv_nth)
  moreover from u assms(1,4) have "j \<noteq> i" by auto
  moreover from this u have "cs ! j = Constructing" by simp
  ultimately have j: "j < length cs" "j \<noteq> i" "cs ! j = Constructing" by simp_all
  have "card {i, j} \<le> card {k. k < length cs \<and> cs ! k = Constructing}"
    using j assms(1,2) by (intro card_mono) auto
  with j(2) show ?thesis by (simp add: length_filter_conv_card)
qed

definition shared :: "(string \<Rightarrow> string option) \<Rightarrow> client_cache \<times> caller list \<Rightarrow> bool" where
  "shared env cf \<longleftrightarrow> (case cached (fst cf) of
      None \<Rightarrow> built (fst cf) = 0 \<and> (\<forall>c. Got c \<notin> set (snd cf))
    | Some c \<Rightarrow> built (fst cf) = 1 \<and> client_url c = REDIS_URL env \<and> Constructing \<notin> set (snd cf) \<and>
        (\<forall>d. Got d \<in> set (snd cf) \<longrightarrow> d = c))"

lemma set_update_cases: "y \<in> set (xs[i := x]) \<Longrightarrow> y = x \<or> y \<in> set xs"
  using set_update_subset_insert [of xs i x] by blast

lemma client_step_shared:
  assumes "client_step env cf cf'" and "one_constructs cf" and "shared env cf"
  shows "shared env cf'"
  using assms
proof (induction rule: client_step.induct)
  case (calls p cs)
  then show ?case by (simp add: shared_def split: option.splits)
next
  case (looks_up i cs p)
  then show ?case
    by (auto simp: shared_def lookup_client_def split: option.splits dest!: set_update_cases)
next
  case (stores i cs p x p')
  have none: "cached p = None"
  proof (rule ccontr)
    assume "cached p \<noteq> None"
    with stores.prems(2) have "Constructing \<notin> set cs" by (auto simp: shared_def)
    with stores(1,2) show False by (metis nth_mem)
  qed
  with stores(3) have x: "x = Got (from_url env p)" and p': "p' = \<lparr>cached = Some (from_url env p), built = Suc (built p)\<rparr>"
    by (simp_all add: store_client_def Let_def)
  have "Constructing \<notin> set (cs[i := x])"
    using two_constructing [OF stores(1,2)] stores.prems(1) x by (auto simp: one_constructs_def)
  with stores.prems(2) none show ?case
    by (auto simp: shared_def x p' from_url_def dest!: set_update_cases)
qed

lemma client_reach_shared:
  assumes "client_reach one_constructs env cf"
  shows "shared env cf \<and> one_constructs cf"
  using assms
proof (induction rule: client_reach.induct)
  case fresh
  show ?case by (simp add: shared_def one_constructs_def)
next
  case (more cf cf')
  then show ?case using client_step_shared by blast
qed

text \<open>Two callers that miss together.\<close>

lemma racing_reach:
  "\<exists>p c d. client_reach (\<lambda>_. True) env (p, [Got c, Got d]) \<and> c \<noteq> d"
proof -
  let ?go = "client_reach (\<lambda>_. True) env"
  let ?p0 = "\<lparr>cached = None, built = 0\<rparr> :: client_cache"
  let ?c = "from_url env ?p0"
  let ?p1 = "\<lparr>cached = Some ?c, built = 1\<rparr> :: client_cache"
  let ?d = "from_url env ?p1"
  let ?p2 = "\<lparr>cached = Some ?c, built = 2\<rparr> :: client_cache"
  have s1: "store_client env ?p0 = (Got ?c, ?p1)" and s2: "store_client env ?p1 = (Got ?d, ?p2)"
    by (simp_all add: store_client_def Let_def)
  have "?go (?p0, [] @ [Outside])" by (rule client_reach.more [OF client_reach.fresh client_step.calls]) simp
  then have "?go (?p0, ([] @ [Outside]) @ [Outside])" by (rule client_reach.more [OF _ client_step.calls]) simp
  then have "?go (?p0, [Outside, Outside])" by simp
  from client_reach.more [OF this client_step.looks_up [of 0]] have "?go (?p0, [Constructing, Outside])"
    by (simp add: lookup_client_def)
  from client_reach.more [OF this client_step.looks_up [of 1]] have "?go (?p0, [Constructing, Constructing])"
    by (simp add: lookup_client_def)
  from client_reach.more [OF this client_step.stores [OF _ _ s1, of 0]] have "?go (?p1, [Got ?c, Constructing])" by simp
  from client_reach.more [OF this client_step.stores [OF _ _ s2, of 1]] have "?go (?p2, [Got ?c, Got ?d])" by simp
  moreover have "?c \<noteq> ?d" by (simp add: from_url_def)
  ultimately show ?thesis by blast
qed

text \<open>
  C37. The factory gives one client to a process as long as no two first callers meet in
  its construction: then every call that has returned gave the cached client, the one
  client ever built, for the configured server; clearing the cache makes the next call
  build another. Callers that do meet, which the cache does
  not prevent, get clients of their own, each with its own pool.
\<close>

theorem redis_client_is_shared:
  "(\<forall>p cs c. client_reach one_constructs env (p, cs) \<and> Got c \<in> set cs \<longrightarrow>
      cached p = Some c \<and> built p = 1 \<and> client_url c = REDIS_URL env \<and> get_redis_client env p = (Got c, p))
   \<and> (\<exists>c p'. get_redis_client env (cache_clear q) = (Got c, p') \<and> cached p' = Some c \<and> client_number c = built q)
   \<and> (\<exists>p c d. client_reach (\<lambda>_. True) env (p, [Got c, Got d]) \<and> c \<noteq> d)"
proof (intro conjI allI impI)
  fix p cs c assume "client_reach one_constructs env (p, cs) \<and> Got c \<in> set cs"
  with client_reach_shared [of env "(p, cs)"] have "shared env (p, cs)" and g: "Got c \<in> set cs" by auto
  then have *: "cached p = Some c \<and> built p = 1 \<and> client_url c = REDIS_URL env"
    by (auto simp: shared_def split: option.splits)
  then show "cached p = Some c" "built p = 1" "client_url c = REDIS_URL env" "get_redis_client env p = (Got c, p)"
    by (simp_all add: get_redis_client_def lookup_client_def)
next
  show "\<exists>c p'. get_redis_client env (cache_clear q) = (Got c, p') \<and> cached p' = Some c \<and> client_number c = built q"
    by (simp add: get_redis_client_def lookup_client_def cache_clear_def store_client_def from_url_def Let_def)
qed (rule racing_reach)

theorem redis_client_is_shared_witness:
  "\<exists>p c. client_reach one_constructs (\<lambda>_. None) (p, [Got c]) \<and> cached p = Some c
     \<and> client_url c = ''redis://localhost:6379/0''"
proof -
  let ?env = "\<lambda>_. None :: string option" and ?p0 = "\<lparr>cached = None, built = 0\<rparr> :: client_cache"
  obtain c p1 where s: "store_client ?env ?p0 = (Got c, p1)" by (simp add: store_client_def Let_def)
  have "client_reach one_constructs ?env (?p0, [] @ [Outside])"
    by (rule client_reach.more [OF client_reach.fresh client_step.calls]) (simp add: one_constructs_def)
  then have "client_reach one_constructs ?env (?p0, [Outside])" by simp
  from client_reach.more [OF this client_step.looks_up [of 0]] have "client_reach one_constructs ?env (?p0, [Constructing])"
    by (simp add: lookup_client_def one_constructs_def)
  from client_reach.more [OF this client_step.stores [OF _ _ s, of 0]] have r: "client_reach one_constructs ?env (p1, [Got c])"
    by (simp add: one_constructs_def)
  with redis_client_is_shared [of ?env] have "cached p1 = Some c \<and> client_url c = REDIS_URL ?env" by fastforce
  with r show ?thesis by (auto simp: REDIS_URL_def)
qed

end
