(* ===== verification/Separation.thy ===== *)
theory Separation imports Programs begin

text \<open>
  When part of a system behaves as if it were alone. The locale \<open>unwinding\<close> is the contract
  of a store whose requests are the observer's own or foreign: states are compared by what
  the observer can see (\<open>same\<close>), foreign requests do not change it, own requests carry
  equal views to equal views with replies that are \<open>alike\<close>, and so does time. Then every
  interleaving of own and foreign programs has a twin without the foreign ones, in which
  the own programs get to exactly the same points.
\<close>

subsection \<open>Programs that do not tell replies apart\<close>

primrec blind :: "(call \<Rightarrow> reply \<Rightarrow> reply \<Rightarrow> bool) \<Rightarrow> 'a prog \<Rightarrow> bool" where
  "blind alike (Return x) = True"
| "blind alike (Raise e) = True"
| "blind alike (Call c k) = ((\<forall>r r'. alike c r r' \<longrightarrow> k r = k r') \<and> (\<forall>r. blind alike (k r)))"
| "blind alike (Now k) = (\<forall>t. blind alike (k t))"
| "blind alike (Uuid4 k) = (\<forall>u. blind alike (k u))"

lemma blind_bnd: "blind al p \<Longrightarrow> (\<And>x. blind al (f x)) \<Longrightarrow> blind al (bnd p f)"
  by (induction p) auto

lemma blind_catch: "blind al p \<Longrightarrow> (\<And>e. blind al (h e)) \<Longrightarrow> blind al (catch p h)"
  by (induction p) auto

lemma blind_try_else:
  "blind al p \<Longrightarrow> (\<And>e. blind al (h e)) \<Longrightarrow> (\<And>x. blind al (f x)) \<Longrightarrow> blind al (try_else p h f)"
  by (induction p) auto

lemma blind_finally: "blind al p \<Longrightarrow> blind al f \<Longrightarrow> blind al (finally_do p f)"
  by (induction p) (auto intro: blind_bnd)

lemma blind_lift_exn [simp]: "blind al (lift_exn r)"
  by (simp add: lift_exn_def split: sum.split)

lemma blind_silent: "calls_in (\<lambda>_. False) p \<Longrightarrow> blind al p"
  by (induction p) auto

text \<open>A request whose reply the rest of the program uses only as far as it is told.\<close>

lemma blind_request:
  assumes "\<And>r r'. al c r r' \<Longrightarrow> r = r' \<or> (\<forall>e. r \<noteq> RError e) \<and> (\<forall>e. r' \<noteq> RError e) \<and> f r = f r'"
    and "\<And>r. blind al (f r)"
  shows "blind al (bnd (redis_py c) f)"
proof -
  let ?k = "\<lambda>r. bnd (case r of RError e \<Rightarrow> Raise (RedisError e) | _ \<Rightarrow> Return r) f"
  have "?k r = ?k r'" if "al c r r'" for r r'
    using assms(1) [OF that] by (auto split: reply.splits)
  moreover have "blind al (?k r)" for r using assms(2) by (cases r) simp_all
  ultimately show ?thesis by (simp add: redis_py_def)
qed

subsection \<open>The results of a program\<close>

primrec results_in :: "('a \<Rightarrow> bool) \<Rightarrow> 'a prog \<Rightarrow> bool" where
  "results_in P (Return x) = P x"
| "results_in P (Raise e) = True"
| "results_in P (Call c k) = (\<forall>r. results_in P (k r))"
| "results_in P (Now k) = (\<forall>t. results_in P (k t))"
| "results_in P (Uuid4 k) = (\<forall>u. results_in P (k u))"

lemma results_in_bnd: "(\<And>x. results_in P (f x)) \<Longrightarrow> results_in P (bnd p f)"
  by (induction p) auto

lemma step_closed_results_in: "step_closed (results_in P)"
proof -
  have "results_in P q" if "results_in P p" and "q \<in> nexts p" for p q :: "'a prog"
    using that by (cases p) auto
  then show ?thesis unfolding step_closed_def by blast
qed

lemma step_closed_blind: "step_closed (blind al)"
proof -
  have "blind al q" if "blind al p" and "q \<in> nexts p" for p q :: "'a prog"
    using that by (cases p) auto
  then show ?thesis unfolding step_closed_def by blast
qed

lemma step_closed_conj: "step_closed P \<Longrightarrow> step_closed Q \<Longrightarrow> step_closed (\<lambda>p. P p \<and> Q p)"
  unfolding step_closed_def by blast

subsection \<open>The own part of a list of threads\<close>

inductive purged :: "('p \<Rightarrow> bool) \<Rightarrow> ('p \<Rightarrow> bool) \<Rightarrow> 'p list \<Rightarrow> 'p list \<Rightarrow> bool" for own foreign where
  none: "purged own foreign [] []"
| kept: "own p \<Longrightarrow> purged own foreign ps qs \<Longrightarrow> purged own foreign (p # ps) (p # qs)"
| dropped: "foreign p \<Longrightarrow> purged own foreign ps qs \<Longrightarrow> purged own foreign (p # ps) qs"

inductive_cases purged_ConsE: "purged own foreign (p # ps) qs"

lemma purged_snoc:
  assumes "purged own foreign ps qs"
  shows "own p \<Longrightarrow> purged own foreign (ps @ [p]) (qs @ [p])"
    and "foreign p \<Longrightarrow> purged own foreign (ps @ [p]) qs"
  using assms by (induction) (auto intro: purged.intros)

text \<open>A thread is on one of the two sides, and can move on there.\<close>

lemma purged_thread:
  assumes "purged own foreign ps qs" and "i < length ps"
  shows "(foreign (ps ! i) \<and> (\<forall>q. foreign q \<longrightarrow> purged own foreign (ps[i := q]) qs))
    \<or> (\<exists>j < length qs. qs ! j = ps ! i \<and> own (ps ! i) \<and> (\<forall>q. own q \<longrightarrow> purged own foreign (ps[i := q]) (qs[j := q])))"
  using assms
proof (induction arbitrary: i)
  case none
  then show ?case by simp
next
  case (kept p ps qs)
  show ?case
  proof (cases i)
    case 0
    with kept.hyps have "0 < length (p # qs) \<and> (p # qs) ! 0 = (p # ps) ! i \<and> own ((p # ps) ! i)
      \<and> (\<forall>q. own q \<longrightarrow> purged own foreign ((p # ps)[i := q]) ((p # qs)[0 := q]))"
      by (simp add: purged.kept)
    then show ?thesis by blast
  next
    case (Suc l)
    with kept.prems have "l < length ps" by simp
    from kept.IH [OF this] show ?thesis
    proof
      assume "foreign (ps ! l) \<and> (\<forall>q. foreign q \<longrightarrow> purged own foreign (ps[l := q]) qs)"
      with Suc kept.hyps(1) show ?thesis by (auto intro: purged.kept)
    next
      assume "\<exists>j < length qs. qs ! j = ps ! l \<and> own (ps ! l) \<and> (\<forall>q. own q \<longrightarrow> purged own foreign (ps[l := q]) (qs[j := q]))"
      then obtain j where "j < length qs" "qs ! j = ps ! l" "own (ps ! l)"
        "\<forall>q. own q \<longrightarrow> purged own foreign (ps[l := q]) (qs[j := q])" by blast
      with Suc kept.hyps(1) have "Suc j < length (p # qs) \<and> (p # qs) ! Suc j = (p # ps) ! i \<and> own ((p # ps) ! i)
        \<and> (\<forall>q. own q \<longrightarrow> purged own foreign ((p # ps)[i := q]) ((p # qs)[Suc j := q]))"
        by (auto intro: purged.kept)
      then show ?thesis by blast
    qed
  qed
next
  case (dropped p ps qs)
  show ?case
  proof (cases i)
    case 0
    with dropped show ?thesis by (auto intro: purged.dropped)
  next
    case (Suc l)
    with dropped.prems have "l < length ps" by simp
    from dropped.IH [OF this] Suc dropped.hyps(1) show ?thesis by (auto intro: purged.dropped)
  qed
qed

lemma purged_filter:
  assumes "purged own foreign ps qs" and "\<And>p. foreign p \<Longrightarrow> f p = []"
  shows "concat (map f ps) = concat (map f qs)"
  using assms(1) by induction (simp_all add: assms(2))

subsection \<open>The contract and what follows from it\<close>

locale unwinding =
  fixes ex :: "'s exec" and elapse :: "nat \<Rightarrow> 's \<Rightarrow> 's"
    and own foreign :: "call \<Rightarrow> bool" and alike :: "call \<Rightarrow> reply \<Rightarrow> reply \<Rightarrow> bool"
    and good :: "'s \<Rightarrow> bool" and same :: "'s \<Rightarrow> 's \<Rightarrow> bool"
  assumes same_refl: "same s s"
    and respects: "foreign c \<Longrightarrow> same s u \<Longrightarrow> serve ex c s = (r, s') \<Longrightarrow> same s' u"
    and consistent: "own c \<Longrightarrow> good s \<Longrightarrow> good u \<Longrightarrow> same s u \<Longrightarrow>
      serve ex c s = (r, s') \<Longrightarrow> serve ex c u = (r', u') \<Longrightarrow> alike c r r' \<and> same s' u'"
    and ages_alike: "good s \<Longrightarrow> good u \<Longrightarrow> same s u \<Longrightarrow> same (elapse d s) (elapse d u)"
    and good_serve: "own c \<or> foreign c \<Longrightarrow> good s \<Longrightarrow> serve ex c s = (r, s') \<Longrightarrow> good s'"
    and good_elapse: "good s \<Longrightarrow> good (elapse d s)"
begin

definition own_thread :: "'a prog \<Rightarrow> bool" where
  "own_thread p \<longleftrightarrow> blind alike p \<and> calls_in own p"

definition foreign_thread :: "('a \<Rightarrow> bool) \<Rightarrow> 'a prog \<Rightarrow> bool" where
  "foreign_thread mine p \<longleftrightarrow> calls_in foreign p \<and> results_in (\<lambda>x. \<not> mine x) p"

lemma threads_closed: "step_closed own_thread" "step_closed (foreign_thread mine)"
  unfolding own_thread_def foreign_thread_def
  by (intro step_closed_conj step_closed_blind step_closed_calls_in step_closed_results_in)+

lemma thread_steps:
  "own_thread (Call c k) \<Longrightarrow> own c \<and> own_thread (k r)"
  "foreign_thread mine (Call c k) \<Longrightarrow> foreign c \<and> foreign_thread mine (k r)"
  "own_thread (Now h) \<Longrightarrow> own_thread (h t)" "foreign_thread mine (Now h) \<Longrightarrow> foreign_thread mine (h t)"
  "own_thread (Uuid4 g) \<Longrightarrow> own_thread (g u)" "foreign_thread mine (Uuid4 g) \<Longrightarrow> foreign_thread mine (g u)"
  by (simp_all add: own_thread_def foreign_thread_def)

text \<open>One step of the whole system: a step of its own part, or none.\<close>

definition twin :: "('a \<Rightarrow> bool) \<Rightarrow> ('s, 'a) config \<Rightarrow> ('s, 'a) config \<Rightarrow> bool" where
  "twin mine cf cf' \<longleftrightarrow> good (fst cf) \<and> good (fst cf') \<and> same (fst cf) (fst cf')
     \<and> purged own_thread (foreign_thread mine) (snd cf) (snd cf')"

lemma twin_silent:
  assumes tw: "twin mine (s, ps) (u, qs)" and i: "i < length ps"
    and own: "own_thread (ps ! i) \<Longrightarrow> own_thread q" and foreign: "foreign_thread mine (ps ! i) \<Longrightarrow> foreign_thread mine q"
    and move: "\<And>j. j < length qs \<Longrightarrow> qs ! j = ps ! i \<Longrightarrow> sys_step ex elapse R (u, qs) 0 (u, qs[j := q])"
  shows "\<exists>qs'. twin mine (s, ps[i := q]) (u, qs') \<and> (qs' = qs \<or> sys_step ex elapse R (u, qs) 0 (u, qs'))"
proof -
  from tw have g: "good s" "good u" "same s u" and pq: "purged own_thread (foreign_thread mine) ps qs"
    by (simp_all add: twin_def)
  from purged_thread [OF pq i] show ?thesis
  proof
    assume "foreign_thread mine (ps ! i) \<and>
      (\<forall>q. foreign_thread mine q \<longrightarrow> purged own_thread (foreign_thread mine) (ps[i := q]) qs)"
    with foreign g show ?thesis by (auto simp: twin_def)
  next
    assume "\<exists>j < length qs. qs ! j = ps ! i \<and> own_thread (ps ! i) \<and>
      (\<forall>q. own_thread q \<longrightarrow> purged own_thread (foreign_thread mine) (ps[i := q]) (qs[j := q]))"
    then obtain j where j: "j < length qs" "qs ! j = ps ! i"
      and "purged own_thread (foreign_thread mine) (ps[i := q]) (qs[j := q])" using own by blast
    with g have "twin mine (s, ps[i := q]) (u, qs[j := q])" by (simp add: twin_def)
    with move [OF j] show ?thesis by blast
  qed
qed

lemma twin_served:
  assumes tw: "twin mine (s, ps) (u, qs)" and i: "i < length ps" and p: "ps ! i = Call c k"
    and sv: "serve ex c s = (r, s')"
    and q: "(q = k r \<and> rule = True) \<or> (q = k (RError e) \<and> rule = False)"
  shows "\<exists>u' qs'. twin mine (s', ps[i := q]) (u', qs') \<and> ((u', qs') = (u, qs) \<or> sys_step ex elapse R (u, qs) 0 (u', qs'))"
proof -
  from tw have g: "good s" "good u" "same s u" and pq: "purged own_thread (foreign_thread mine) ps qs"
    by (simp_all add: twin_def)
  from purged_thread [OF pq i] show ?thesis unfolding p
  proof
    assume f: "foreign_thread mine (Call c k) \<and>
      (\<forall>q. foreign_thread mine q \<longrightarrow> purged own_thread (foreign_thread mine) (ps[i := q]) qs)"
    then have c: "foreign c" and "foreign_thread mine q" using thread_steps(2) [of mine c k] q by auto
    with f respects [OF c g(3) sv] good_serve [OF disjI2 [OF c] g(1) sv] g(2)
    have "twin mine (s', ps[i := q]) (u, qs)" by (simp add: twin_def)
    then show ?thesis by blast
  next
    assume "\<exists>j < length qs. qs ! j = Call c k \<and> own_thread (Call c k) \<and>
      (\<forall>q. own_thread q \<longrightarrow> purged own_thread (foreign_thread mine) (ps[i := q]) (qs[j := q]))"
    then obtain j where j: "j < length qs" "qs ! j = Call c k" and o: "own_thread (Call c k)"
      and pq': "\<And>q. own_thread q \<Longrightarrow> purged own_thread (foreign_thread mine) (ps[i := q]) (qs[j := q])" by blast
    from o have c: "own c" and "own_thread q" using thread_steps(1) [of c k] q by auto
    obtain r' u' where sv': "serve ex c u = (r', u')" by (cases "serve ex c u")
    from consistent [OF c g sv sv'] have al: "alike c r r'" and same: "same s' u'" by auto
    with o have "k r = k r'" by (simp add: own_thread_def)
    then have "sys_step ex elapse R (u, qs) 0 (u', qs[j := q])"
      using q sys_step.delivered [OF j sv'] sys_step.lost [OF j sv'] by auto
    moreover have "twin mine (s', ps[i := q]) (u', qs[j := q])"
      using pq' [OF \<open>own_thread q\<close>] same good_serve [OF disjI1 [OF c] g(1) sv] good_serve [OF disjI1 [OF c] g(2) sv']
      by (simp add: twin_def)
    ultimately show ?thesis by blast
  qed
qed

lemma twin_step:
  assumes "sys_step ex elapse (R \<union> F) cf d cf'" and R: "\<forall>p \<in> R. own_thread p" and F: "\<forall>p \<in> F. foreign_thread mine p"
    and "twin mine cf (u, qs)"
  shows "\<exists>u' qs'. twin mine cf' (u', qs') \<and> (d = 0 \<and> (u', qs') = (u, qs) \<or> sys_step ex elapse R (u, qs) d (u', qs'))"
  using assms(1,4)
proof cases
  case (delivered i ps c k s r s')
  with twin_served [of mine s ps u qs i c k r s' "k r" True] assms(4) show ?thesis by auto
next
  case (lost i ps c k s r s' e)
  with twin_served [of mine s ps u qs i c k r s' "k (RError e)" False e] assms(4) show ?thesis by auto
next
  case (unsent i ps c k s e)
  have "\<exists>qs'. twin mine (s, ps[i := k (RError e)]) (u, qs') \<and> (qs' = qs \<or> sys_step ex elapse R (u, qs) 0 (u, qs'))"
    by (rule twin_silent [of mine s ps u qs i])
       (use unsent assms(4) in \<open>auto intro: sys_step.unsent dest: thread_steps(1) [THEN conjunct2] thread_steps(2) [THEN conjunct2]\<close>)
  with unsent show ?thesis by auto
next
  case (reads_clock i ps k s t)
  have "\<exists>qs'. twin mine (s, ps[i := k t]) (u, qs') \<and> (qs' = qs \<or> sys_step ex elapse R (u, qs) 0 (u, qs'))"
    by (rule twin_silent [of mine s ps u qs i])
       (use reads_clock assms(4) in \<open>auto intro: sys_step.reads_clock dest: thread_steps(3,4)\<close>)
  with reads_clock show ?thesis by auto
next
  case (draws_uuid i ps k s v)
  have "\<exists>qs'. twin mine (s, ps[i := k v]) (u, qs') \<and> (qs' = qs \<or> sys_step ex elapse R (u, qs) 0 (u, qs'))"
    by (rule twin_silent [of mine s ps u qs i])
       (use draws_uuid assms(4) in \<open>auto intro: sys_step.draws_uuid dest: thread_steps(5,6)\<close>)
  with draws_uuid show ?thesis by auto
next
  case (arrives p s ps)
  with assms(4) have pq: "purged own_thread (foreign_thread mine) ps qs" and rest: "good s" "good u" "same s u"
    by (simp_all add: twin_def)
  from arrives(4) show ?thesis
  proof
    assume "p \<in> R"
    with R have "own_thread p" by blast
    from purged_snoc(1) [OF pq this] rest have "twin mine cf' (u, qs @ [p])" by (simp add: twin_def arrives(3))
    then show ?thesis using sys_step.arrives [OF \<open>p \<in> R\<close>, of ex elapse u qs] unfolding arrives(2) by blast
  next
    assume "p \<in> F"
    with F have "foreign_thread mine p" by blast
    from purged_snoc(2) [OF pq this] rest have "twin mine cf' (u, qs)" by (simp add: twin_def arrives(3))
    then show ?thesis unfolding arrives(2) by blast
  qed
next
  case (passes s ps)
  with assms(4) ages_alike [of s u d] good_elapse [of s d] good_elapse [of u d]
  have "twin mine cf' (elapse d u, qs)" by (simp add: twin_def)
  then show ?thesis using sys_step.passes [of ex elapse R u qs d] by blast
qed

text \<open>The whole history.\<close>

lemma own_part_alone:
  assumes "sys_reach ex elapse (R \<union> F) s0 T cf" and R: "\<forall>p \<in> R. own_thread p" and F: "\<forall>p \<in> F. foreign_thread mine p"
    and "good s0"
  shows "\<exists>u qs. sys_reach ex elapse R s0 T (u, qs) \<and> twin mine cf (u, qs)"
  using assms(1)
proof (induction rule: sys_reach.induct)
  case start
  have "twin mine (s0, []) (s0, [])" using assms(4) same_refl by (simp add: twin_def purged.none)
  then show ?case by (intro exI [of _ s0] exI [of _ "[]"] conjI sys_reach.start)
next
  case (step T cf d cf')
  then obtain u qs where go: "sys_reach ex elapse R s0 T (u, qs)" and tw: "twin mine cf (u, qs)" by blast
  from twin_step [OF step.hyps(2) R F tw] obtain u' qs' where tw': "twin mine cf' (u', qs')"
    and m: "d = 0 \<and> (u', qs') = (u, qs) \<or> sys_step ex elapse R (u, qs) d (u', qs')" by blast
  from m have "sys_reach ex elapse R s0 (T + d) (u', qs')"
    using go sys_reach.step [OF go, of d "(u', qs')"] by auto
  with tw' show ?case by blast
qed

end

end
