(* ===== verification/Noninterference.thy ===== *)
theory Noninterference imports Separation Store_Types begin

text \<open>
  Tenants do not interfere. A tenant observes its own keys and the clock, up to the entry
  ids the server draws for its stream; the program tells no more than that apart. With
  \<open>Separation\<close> it follows that any history of the whole service has a twin with the
  requests of one tenant only, in which that tenant gets the same answers.
\<close>

subsection \<open>What a tenant sees\<close>

definition same_entry :: "entry option \<Rightarrow> entry option \<Rightarrow> bool" where
  "same_entry e e' \<longleftrightarrow> e = e' \<or>
     (\<exists>es es' d. e = Some (RStream es, d) \<and> e' = Some (RStream es', d) \<and> map snd es = map snd es')"

definition same_for :: "('s \<Rightarrow> string \<Rightarrow> entry option) \<Rightarrow> ('s \<Rightarrow> int) \<Rightarrow> string \<Rightarrow> 's \<Rightarrow> 's \<Rightarrow> bool" where
  "same_for view clock t s u \<longleftrightarrow> clock s = clock u \<and> (\<forall>k \<in> tenant_keys t. same_entry (view s k) (view u k))"

lemma same_entry_refl [simp]: "same_entry e e"
  by (simp add: same_entry_def)

lemma same_entry_facts:
  assumes "same_entry e e'"
  shows "as_hash e = Some h \<Longrightarrow> e' = e" and "as_zset e = Some z \<Longrightarrow> e' = e" and "marker_typed e \<Longrightarrow> e' = e"
    and "e = None \<longleftrightarrow> e' = None" and "deadline_of e = deadline_of e'"
  using assms by (auto simp: same_entry_def marker_typed_def)

lemma same_entry_stream:
  assumes "same_entry e e'" and "as_stream e = Some es"
  obtains es' where "as_stream e' = Some es'" and "map snd es' = map snd es"
  using assms by (auto simp: same_entry_def)

text \<open>Replies the program does not tell apart.\<close>

fun alike :: "call \<Rightarrow> reply \<Rightarrow> reply \<Rightarrow> bool" where
  "alike (Cmd (XADD k ps)) r r' = (r = r' \<or> (\<exists>i j. r = RBulk (Text i) \<and> r' = RBulk (Text j)))"
| "alike (Cmd (HSET k ps)) r r' = (r = r' \<or> (\<exists>i j. r = RInt i \<and> r' = RInt j))"
| "alike (Cmd (EXPIRE k n)) r r' = (r = r' \<or> (\<exists>i j. r = RInt i \<and> r' = RInt j))"
| "alike (Cmd (ZREM k m)) r r' = (r = r' \<or> (\<exists>i j. r = RInt i \<and> r' = RInt j))"
| "alike (Cmd (HGETALL k)) r r' = (r = r' \<or> (\<exists>d d'. r = RMap d \<and> r' = RMap d' \<and> map_of d = map_of d'))"
| "alike _ r r' = (r = r')"

definition own_call :: "string \<Rightarrow> call \<Rightarrow> bool" where
  "own_call t c \<longleftrightarrow> typed_call c \<and> call_cmds (\<lambda>x. key_of x \<in> insert None (Some ` tenant_keys t)) c"

definition foreign_call :: "string \<Rightarrow> call \<Rightarrow> bool" where
  "foreign_call t c \<longleftrightarrow> typed_call c \<and> (\<forall>k \<in> tenant_keys t. call_cmds (\<lambda>x. key_of x \<noteq> Some k) c)"

subsection \<open>The application is blind to the rest\<close>

text \<open>Reads are told exactly, of writes only whether they went wrong.\<close>

lemma bnd_Return [simp]: "bnd p Return = p"
  by (induction p) auto

lemma blind_exact: "(\<And>r r'. al c r r' \<Longrightarrow> r = r') \<Longrightarrow> blind al (redis_py c)"
  using blind_request [of al c Return] by (simp del: alike.simps)

lemma blind_write:
  assumes "\<And>r r'. alike c r r' \<Longrightarrow> r = r' \<or> (\<forall>e. r \<noteq> RError e) \<and> (\<forall>e. r' \<noteq> RError e)" and "blind alike p"
  shows "blind alike (bnd (redis_py c) (\<lambda>_. p))"
  by (rule blind_request) (use assms in auto)

lemma blind_writes [simp]:
  "blind alike p \<Longrightarrow> blind alike (bnd (redis_py (Cmd (XADD k ps))) (\<lambda>_. p))"
  "blind alike p \<Longrightarrow> blind alike (bnd (redis_py (Cmd (HSET k ps))) (\<lambda>_. p))"
  "blind alike p \<Longrightarrow> blind alike (bnd (redis_py (Cmd (EXPIRE k n))) (\<lambda>_. p))"
  "blind alike p \<Longrightarrow> blind alike (bnd (redis_py (Cmd (ZREM k m))) (\<lambda>_. p))"
  by (rule blind_write; auto)+

lemma blind_reads [simp]:
  "blind alike (redis_py (Eval l))" "blind alike (redis_py (Cmd (XLEN k)))" "blind alike (redis_py (Cmd (HGET k f)))"
  "blind alike (redis_py (Cmd (SET_NX_EX k b n)))"
  by (rule blind_exact; simp)+

lemma ingest_blind: "blind alike (ingest_event c)"
  unfolding ingest_event_def record_event_def claim_idempotency_def Let_def bnd_assoc bnd.simps
  by (auto intro!: blind_bnd simp: if_distrib [where f = "\<lambda>p. bnd p f" for f] bnd_assoc)

lemma calculate_blind: "blind alike (calculate_for t c a b)"
  unfolding calculate_for_def Let_def by (intro blind_bnd) simp_all

lemma blind_hgetall:
  assumes F: "\<And>d d'. map_of d = map_of d' \<Longrightarrow> F d = F d'" and "\<And>d. blind alike (F d)"
  shows "blind alike (bnd (redis_py (Cmd (HGETALL k))) (\<lambda>raw. bnd (lift_exn (reply_dict raw)) F))"
proof (rule blind_request)
  fix r r' assume "alike (Cmd (HGETALL k)) r r'"
  then consider "r = r'" | d d' where "r = RMap d" "r' = RMap d'" "map_of d = map_of d'" by auto
  then show "r = r' \<or> (\<forall>e. r \<noteq> RError e) \<and> (\<forall>e. r' \<noteq> RError e) \<and>
      bnd (lift_exn (reply_dict r)) F = bnd (lift_exn (reply_dict r')) F"
  proof cases
    case 2
    with F [OF 2(3)] show ?thesis by simp
  qed simp
qed (simp add: blind_bnd assms(2))

lemma generate_blind: "blind alike (generate_for t i)"
  unfolding generate_for_def Let_def
proof (rule blind_hgetall, goal_cases)
  case (1 d d')
  have "d = [] \<longleftrightarrow> d' = []" using arg_cong [OF 1, of "\<lambda>m. m = Map.empty"] by simp
  moreover have "dict_get d = dict_get d'" using 1 by (rule dict_get_map_of)
  ultimately show ?case by simp
next
  case (2 d)
  show ?case by (simp add: blind_bnd)
qed

lemma check_and_consume_blind: "blind alike (check_and_consume t e)"
  unfolding check_and_consume_def consume_def Let_def
  by (auto intro!: blind_bnd simp: plan_for_limits)

lemma semaphore_blind: "blind alike (acquire k cap)" "blind alike (release k slot)"
  unfolding acquire_def release_def by (auto intro!: blind_bnd)


lemma views_blind: "blind alike (ingest_view fw r)" "blind alike (calculate_view fw r)" "blind alike (generate_view fw r)"
  unfolding ingest_view_def calculate_view_def generate_view_def
  by (auto intro!: blind_bnd blind_try_else ingest_blind calculate_blind generate_blind split: exn.split)

lemma application_blind:
  assumes fw: "framework_ok fw"
  shows "blind alike (application fw r)"
proof -
  have "blind alike (fw_other fw r)" using fw by (intro blind_silent) (simp add: framework_ok_def)
  then have route: "blind alike (route fw r)"
    using views_blind [of fw r] by (auto simp: route_def urlpatterns_def intro!: blind_catch split: option.split)
  have conv: "blind alike (converted fw h r)" if "blind alike (h r)" for h
    using that by (simp add: converted_def blind_catch)
  have conc: "blind alike (concurrency_middleware h r)" if "blind alike (h r)" for h
    using that by (auto simp: concurrency_middleware_def Let_def intro!: blind_bnd blind_try_else blind_finally blind_catch semaphore_blind)
  have rate: "blind alike (rate_limit_middleware h r)" if "blind alike (h r)" for h
    using that by (auto simp: rate_limit_middleware_def reject_def Let_def intro!: blind_bnd blind_try_else check_and_consume_blind)
  show ?thesis unfolding application_transparent [OF fw] by (intro conv rate conc route)
qed


subsection \<open>The server treats equal views equally\<close>

text \<open>
  One more documented property of the server: whether a key expires in a stretch of time
  depends on the clock and the deadline of that key alone.
\<close>

locale punctual_server = redis_server +
  assumes expiry: "clock s = clock u \<Longrightarrow> deadline_of (view s k) = deadline_of (view u k) \<Longrightarrow>
    (view s k = None \<longleftrightarrow> view u k = None) \<Longrightarrow> view (elapse d s) k = None \<longleftrightarrow> view (elapse d u) k = None"

interpretation punctual_mem: punctual_server mem_exec mem_data mem_clock mem_elapse
  by unfold_locales (auto simp: mem_elapse_def alive_def split: option.splits)

lemma same_for_write:
  assumes "same_for view clock t s u" and "view s' = (view s)(k := e)" and "view u' = (view u)(k := e')"
    and "same_entry e e'" and "clock s' = clock s" and "clock u' = clock u"
  shows "same_for view clock t s' u'"
  using assms by (simp add: same_for_def)

context redis_server
begin

definition treated_alike :: "string \<Rightarrow> call \<Rightarrow> 's \<Rightarrow> 's \<Rightarrow> bool" where
  "treated_alike t c s u \<longleftrightarrow> (\<forall>r s' r' u'. serve exec c s = (r, s') \<longrightarrow> serve exec c u = (r', u') \<longrightarrow>
     alike c r r' \<and> same_for view clock t s' u')"

lemma treated_alikeI:
  "serve exec c s = (r, s') \<Longrightarrow> serve exec c u = (r', u') \<Longrightarrow> alike c r r' \<Longrightarrow> same_for view clock t s' u' \<Longrightarrow> treated_alike t c s u"
  by (simp add: treated_alike_def)

lemma alike_record:
  assumes same: "same_for view clock t s u" and k: "stream_key v \<in> tenant_keys t"
    and ty: "stream_typed v (view s (stream_key v))" and ps: "ps \<noteq> []"
  shows "treated_alike t (Cmd (XADD (stream_key v) ps)) s u" and "treated_alike t (Cmd (XLEN (stream_key v))) s u"
proof -
  from same k have e: "same_entry (view s (stream_key v)) (view u (stream_key v))" by (simp add: same_for_def)
  from ty obtain es where es: "as_stream (view s (stream_key v)) = Some es" by (auto simp: stream_typed_def)
  obtain es' where es': "as_stream (view u (stream_key v)) = Some es'" and eq: "map snd es' = map snd es"
    by (rule same_entry_stream [OF e es])
  obtain i s1 where s1: "exec (XADD (stream_key v) ps) s = (RBulk (Text i), s1)"
    and v1: "view s1 = (view s)(stream_key v := Some (RStream (es @ [(i, ps)]), deadline_of (view s (stream_key v))))"
    and c1: "clock s1 = clock s" by (rule xadd_view [OF es ps])
  obtain j u1 where u1: "exec (XADD (stream_key v) ps) u = (RBulk (Text j), u1)"
    and w1: "view u1 = (view u)(stream_key v := Some (RStream (es' @ [(j, ps)]), deadline_of (view u (stream_key v))))"
    and d1: "clock u1 = clock u" by (rule xadd_view [OF es' ps])
  have "same_for view clock t s1 u1"
    by (rule same_for_write [OF same v1 w1 _ c1 d1]) (simp add: same_entry_def eq same_entry_facts(5) [OF e])
  with s1 u1 show "treated_alike t (Cmd (XADD (stream_key v) ps)) s u" by (simp add: treated_alike_def)
  show "treated_alike t (Cmd (XLEN (stream_key v))) s u"
    using xlen [OF es] xlen [OF es'] same arg_cong [OF eq, of length] by (simp add: treated_alike_def)
qed

lemma alike_claim:
  assumes same: "same_for view clock t s u" and k: "idempotency_key v i \<in> tenant_keys t"
    and ty: "marker_typed (view s (idempotency_key v i))" and n: "0 < n"
  shows "treated_alike t (Cmd (SET_NX_EX (idempotency_key v i) b n)) s u"
proof -
  from same k have "same_entry (view s (idempotency_key v i)) (view u (idempotency_key v i))" and c: "clock s = clock u"
    by (simp_all add: same_for_def)
  from same_entry_facts(3) [OF this(1) ty] have eq: "view u (idempotency_key v i) = view s (idempotency_key v i)" .
  show ?thesis
  proof (cases "view s (idempotency_key v i) = None")
    case True
    with eq have free: "view u (idempotency_key v i) = None" by simp
    obtain s1 where s1: "exec (SET_NX_EX (idempotency_key v i) b n) s = (RBulk (Text ''OK''), s1)"
      and v1: "view s1 = (view s)(idempotency_key v i := Some (RString b, Some (clock s + n * usec)))"
      and c1: "clock s1 = clock s" by (rule set_nx_view [OF True n])
    obtain u1 where u1: "exec (SET_NX_EX (idempotency_key v i) b n) u = (RBulk (Text ''OK''), u1)"
      and w1: "view u1 = (view u)(idempotency_key v i := Some (RString b, Some (clock u + n * usec)))"
      and d1: "clock u1 = clock u" by (rule set_nx_view [OF free n])
    have "same_for view clock t s1 u1" by (rule same_for_write [OF same v1 w1 _ c1 d1]) (simp add: c)
    with s1 u1 show ?thesis by (simp add: treated_alike_def)
  next
    case False
    with set_nx_taken [OF False n] set_nx_taken [of u "idempotency_key v i" n] eq n same show ?thesis
      by (simp add: treated_alike_def)
  qed
qed

lemma alike_reads:
  assumes same: "same_for view clock t s u" and k: "k \<in> tenant_keys t" and h: "as_hash (view s k) = Some h"
  shows "treated_alike t (Cmd (HGET k f)) s u" and "treated_alike t (Cmd (HGETALL k)) s u"
proof -
  from same k have "same_entry (view s k) (view u k)" by (simp add: same_for_def)
  from same_entry_facts(1) [OF this h] h have h': "as_hash (view u k) = Some h" by simp
  from hget [OF h] hget [OF h'] same show "treated_alike t (Cmd (HGET k f)) s u" by (simp add: treated_alike_def)
  from hgetall [OF h] hgetall [OF h'] same show "treated_alike t (Cmd (HGETALL k)) s u"
    by (auto simp: treated_alike_def)
qed

lemma alike_writes:
  assumes same: "same_for view clock t s u" and k: "k \<in> tenant_keys t" and h: "as_hash (view s k) = Some h"
  shows "ps \<noteq> [] \<Longrightarrow> treated_alike t (Cmd (HSET k ps)) s u" and "0 < n \<Longrightarrow> treated_alike t (Cmd (EXPIRE k n)) s u"
proof -
  from same k have "same_entry (view s k) (view u k)" and c: "clock s = clock u" by (simp_all add: same_for_def)
  from same_entry_facts(1) [OF this(1) h] have eq: "view u k = view s k" .
  with h have h': "as_hash (view u k) = Some h" by simp
  show "treated_alike t (Cmd (HSET k ps)) s u" if ps: "ps \<noteq> []"
  proof -
    obtain i s1 where s1: "exec (HSET k ps) s = (RInt i, s1)"
      and v1: "view s1 = (view s)(k := Some (RHash (update_fields h ps), deadline_of (view s k)))" and c1: "clock s1 = clock s"
      by (rule hset_view [OF h ps])
    obtain j u1 where u1: "exec (HSET k ps) u = (RInt j, u1)"
      and w1: "view u1 = (view u)(k := Some (RHash (update_fields h ps), deadline_of (view u k)))" and d1: "clock u1 = clock u"
      by (rule hset_view [OF h' ps])
    have "same_for view clock t s1 u1" by (rule same_for_write [OF same v1 w1 _ c1 d1]) (simp add: eq)
    with s1 u1 show ?thesis by (simp add: treated_alike_def)
  qed
  show "treated_alike t (Cmd (EXPIRE k n)) s u" if n: "0 < n"
  proof -
    obtain i s1 where s1: "exec (EXPIRE k n) s = (RInt i, s1)"
      and v1: "view s1 = (view s)(k := map_option (\<lambda>(v, _). (v, Some (clock s + n * usec))) (view s k))" and c1: "clock s1 = clock s"
      by (rule expire_view [OF n])
    obtain j u1 where u1: "exec (EXPIRE k n) u = (RInt j, u1)"
      and w1: "view u1 = (view u)(k := map_option (\<lambda>(v, _). (v, Some (clock u + n * usec))) (view u k))" and d1: "clock u1 = clock u"
      by (rule expire_view [OF n])
    have "same_for view clock t s1 u1" by (rule same_for_write [OF same v1 w1 _ c1 d1]) (simp add: eq c)
    with s1 u1 show ?thesis by (simp add: treated_alike_def)
  qed
qed

lemma alike_slots:
  assumes same: "same_for view clock t s u" and k: "k \<in> tenant_keys t" and z: "as_zset (view s k) = Some z"
  shows "treated_alike t (Eval (acquire_lua k cap now old slot SLOT_TTL_SECONDS)) s u"
    and "treated_alike t (Cmd (ZREM k slot)) s u"
proof -
  from same k have "same_entry (view s k) (view u k)" and c: "clock s = clock u" by (simp_all add: same_for_def)
  from same_entry_facts(2) [OF this(1) z] have eq: "view u k = view s k" .
  with z have z': "as_zset (view u k) = Some z" by simp
  define e where "e = zset_entry (acquire_members cap now slot (drop_scores old z)) (Some (clock s + SLOT_TTL_SECONDS * usec))"
  obtain s1 where s1: "run_lua exec (acquire_lua k cap now old slot SLOT_TTL_SECONDS) s = (acquire_reply cap (drop_scores old z), s1)"
    and v1: "view s1 = (view s)(k := e)" and c1: "clock s1 = clock s"
    unfolding e_def by (rule run_acquire_lua [OF z slot_ttl_pos refl])
  obtain u1 where u1: "run_lua exec (acquire_lua k cap now old slot SLOT_TTL_SECONDS) u = (acquire_reply cap (drop_scores old z), u1)"
    and w1: "view u1 = (view u)(k := e)" and d1: "clock u1 = clock u"
    unfolding e_def c by (rule run_acquire_lua [OF z' slot_ttl_pos refl])
  have "same_for view clock t s1 u1" by (rule same_for_write [OF same v1 w1 _ c1 d1]) simp
  with s1 u1 show "treated_alike t (Eval (acquire_lua k cap now old slot SLOT_TTL_SECONDS)) s u"
    by (simp add: treated_alike_def)
  obtain i s2 where s2: "exec (ZREM k slot) s = (RInt i, s2)"
    and v2: "view s2 = (view s)(k := zset_entry (AList.delete slot z) (deadline_of (view s k)))" and c2: "clock s2 = clock s"
    by (rule zrem_view [OF z])
  obtain j u2 where u2: "exec (ZREM k slot) u = (RInt j, u2)"
    and w2: "view u2 = (view u)(k := zset_entry (AList.delete slot z) (deadline_of (view u k)))" and d2: "clock u2 = clock u"
    by (rule zrem_view [OF z'])
  have "same_for view clock t s2 u2" by (rule same_for_write [OF same v2 w2 _ c2 d2]) (simp add: eq)
  with s2 u2 show "treated_alike t (Cmd (ZREM k slot)) s u" by (simp add: treated_alike_def)
qed

lemma alike_bucket:
  assumes same: "same_for view clock t s u" and k: "k \<in> tenant_keys t" and h: "as_hash (view s k) = Some h"
  shows "treated_alike t (Eval (token_bucket_lua k cap rate x BUCKET_TTL_SECONDS)) s u"
proof -
  from same k have "same_entry (view s k) (view u k)" and c: "clock s = clock u" by (simp_all add: same_for_def)
  from same_entry_facts(1) [OF this(1) h] h have h': "as_hash (view u k) = Some h" by simp
  define lvl where "lvl = hash_level cap rate h (secs (clock s))"
  then have lvl': "lvl = hash_level cap rate h (secs (clock u))" by (simp add: c)
  define e where "e = Some (RHash (bucket_hash h (snd (bucket_spec lvl x rate)) (secs (clock s))), Some (clock s + BUCKET_TTL_SECONDS * usec))"
  obtain s1 where s1: "run_lua exec (token_bucket_lua k cap rate x BUCKET_TTL_SECONDS) s = (bucket_reply lvl x rate, s1)"
    and v1: "view s1 = (view s)(k := e)" and c1: "clock s1 = clock s"
    unfolding e_def by (rule run_token_bucket [OF h bucket_ttl_pos lvl_def])
  obtain u1 where u1: "run_lua exec (token_bucket_lua k cap rate x BUCKET_TTL_SECONDS) u = (bucket_reply lvl x rate, u1)"
    and w1: "view u1 = (view u)(k := e)" and d1: "clock u1 = clock u"
    unfolding e_def c by (rule run_token_bucket [OF h' bucket_ttl_pos lvl'])
  have "same_for view clock t s1 u1" by (rule same_for_write [OF same v1 w1 _ c1 d1]) simp
  with s1 u1 show ?thesis by (simp add: treated_alike_def)
qed

text \<open>Own requests are treated alike in views that are the same.\<close>

lemma own_call_treated:
  assumes own: "own_call t c" and same: "same_for view clock t s u" and ty: "typed_store (clock s) (view s)"
  shows "treated_alike t c s u"
proof -
  from own have "typed_call c" and keys: "call_cmds (\<lambda>x. key_of x \<in> insert None (Some ` tenant_keys t)) c"
    by (simp_all add: own_call_def)
  then show ?thesis
  proof cases
    case (records c)
    with keys typed_storeD(1) [OF ty] show ?thesis by (auto intro: alike_record(1) [OF same] simp: serialize_nonempty)
  next
    case (claims n v i)
    with keys typed_storeD(6) [OF ty] show ?thesis by (auto intro: alike_claim [OF same])
  next
    case (counts v)
    with keys typed_storeD(1) [OF ty] show ?thesis
      by (auto intro: alike_record(2) [OF same, where ps = "[('''', Text '''')]"])
  next
    case (prices v f)
    with keys typed_storeD(4) [OF ty, of v] show ?thesis by (auto intro: alike_reads(1) [OF same])
  next
    case (reads v i)
    with keys typed_storeD(5) [OF ty, of v i] show ?thesis by (auto intro: alike_reads(2) [OF same])
  next
    case (writes ps v i)
    with keys typed_storeD(5) [OF ty, of v i] show ?thesis by (auto intro: alike_writes(1) [OF same])
  next
    case (renews n v i)
    with keys typed_storeD(5) [OF ty, of v i] show ?thesis by (auto intro: alike_writes(2) [OF same])
  next
    case (takes v now old slot)
    then have "concurrency_key v \<in> tenant_keys t" using keys by (auto simp: acquire_lua_def)
    with takes typed_storeD(3) [OF ty, of v] show ?thesis by (auto intro: alike_slots(1) [OF same])
  next
    case (gives v slot)
    with keys typed_storeD(3) [OF ty, of v] show ?thesis by (auto intro: alike_slots(2) [OF same])
  next
    case (draws x v)
    then have "bucket_key v \<in> tenant_keys t" using keys bucket_lua_names by fastforce
    moreover obtain h where "as_hash (view s (bucket_key v)) = Some h"
      using typed_storeD(2) [OF ty, of v] bucket_ok_hash unfolding tenant_bucket_ok_def by blast
    ultimately show ?thesis unfolding draws(1) by (rule alike_bucket [OF same])
  qed
qed

lemma foreign_call_respects:
  assumes "foreign_call t c" and "same_for view clock t s u" and "serve exec c s = (r, s')"
  shows "same_for view clock t s' u"
  using assms serve_frame [OF _ assms(3)] serve_clock [OF assms(3)]
  by (simp add: foreign_call_def same_for_def)

end

context punctual_server
begin

lemma ages_same:
  assumes "same_for view clock t s u"
  shows "same_for view clock t (elapse d s) (elapse d u)"
proof -
  have c: "clock s = clock u" using assms by (simp add: same_for_def)
  have "same_entry (view (elapse d s) k) (view (elapse d u) k)" if "k \<in> tenant_keys t" for k
  proof -
    from assms that have e: "same_entry (view s k) (view u k)" by (simp add: same_for_def)
    note x = expiry [OF c same_entry_facts(5) [OF e] same_entry_facts(4) [OF e], of d]
    show ?thesis
    proof (cases "view (elapse d s) k = None")
      case True
      with x show ?thesis by simp
    next
      case False
      with x have "view (elapse d s) k = view s k" and "view (elapse d u) k = view u k"
        using elapse_either [of d s k] elapse_either [of d u k] by auto
      with e show ?thesis by simp
    qed
  qed
  with c show ?thesis by (simp add: same_for_def clock_elapse)
qed

end

sublocale punctual_server \<subseteq> tenant_part: unwinding exec elapse "own_call t" "foreign_call t" alike
    "\<lambda>s. typed_store (clock s) (view s)" "same_for view clock t" for t
proof (unfold_locales, goal_cases)
  case (1 s)
  show ?case by (simp add: same_for_def)
next
  case (2 c s u r s')
  then show ?case by (rule foreign_call_respects)
next
  case (3 c s u r s' r' u')
  with own_call_treated [OF 3(1,4,2)] show ?case by (simp add: treated_alike_def)
next
  case (4 s u d)
  from 4(3) show ?case by (rule ages_same)
next
  case (5 c s r s')
  then have "typed_call c" by (auto simp: own_call_def foreign_call_def)
  from typed_served [OF this 5(2,3)] show ?case by simp
next
  case (6 s d)
  then show ?case by (rule typed_elapse)
qed

subsection \<open>The service as its tenants see it\<close>

text \<open>A request that leaves its answer with its tenant's name.\<close>

definition traced :: "'b framework \<Rightarrow> 'b HttpRequest \<Rightarrow> (string \<times> HttpResponse) prog" where
  "traced fw r = bnd (application fw r) (\<lambda>resp. Return (header_tenant r, resp))"

text \<open>The answers to a tenant, in the order in which its requests came in.\<close>

fun answer_to :: "string \<Rightarrow> (string \<times> HttpResponse) prog \<Rightarrow> HttpResponse list" where
  "answer_to t (Return (u, resp)) = (if u = t then [resp] else [])"
| "answer_to t _ = []"

definition answers_to :: "string \<Rightarrow> (string \<times> HttpResponse) prog list \<Rightarrow> HttpResponse list" where
  "answers_to t ps = concat (map (answer_to t) ps)"

lemma calls_in_all: "(\<And>k. k \<in> K \<Longrightarrow> calls_in (P k) p) \<Longrightarrow> calls_in (\<lambda>c. \<forall>k \<in> K. P k c) p"
  by (induction p) auto

context punctual_server
begin

lemma traced_own:
  assumes fw: "framework_ok fw" and "header_tenant r = t"
  shows "tenant_part.own_thread t (traced fw r)"
proof -
  have "calls_in (own_call t) (application fw r)"
    unfolding own_call_def calls_in_conj
    using application_typed [OF fw] calls_in_mono [OF application_tenant_calls [OF fw, of r] tenant_call_keys] assms(2) by simp
  then show ?thesis unfolding tenant_part.own_thread_def traced_def
    by (auto intro!: blind_bnd calls_in_bnd application_blind [OF fw])
qed

lemma traced_foreign:
  assumes fw: "framework_ok fw" and "plain_tenant t" and "plain_tenant (header_tenant r)" and "header_tenant r \<noteq> t"
  shows "tenant_part.foreign_thread t (\<lambda>x. fst x = t) (traced fw r)"
proof -
  have "calls_in (\<lambda>c. \<forall>k \<in> tenant_keys t. call_cmds (\<lambda>x. key_of x \<noteq> Some k) c) (application fw r)"
    by (rule calls_in_all, rule calls_other_tenant [OF assms])
  with application_typed [OF fw, of r] have "calls_in (foreign_call t) (application fw r)"
    unfolding foreign_call_def calls_in_conj by simp
  then show ?thesis unfolding tenant_part.foreign_thread_def traced_def
    using assms(4) by (auto intro!: calls_in_bnd results_in_bnd)
qed

lemma tenant_alone:
  assumes fw: "framework_ok fw" and t: "plain_tenant t"
    and reach: "sys_reach exec elapse (traced fw ` {r. plain_tenant (header_tenant r)}) s0 T (s, ps)"
    and start: "typed_store (clock s0) (view s0)"
  shows "\<exists>u qs. sys_reach exec elapse (traced fw ` {r. header_tenant r = t}) s0 T (u, qs)
    \<and> answers_to t ps = answers_to t qs \<and> same_for view clock t s u"
proof -
  let ?R = "traced fw ` {r. header_tenant r = t}"
    and ?F = "traced fw ` {r. plain_tenant (header_tenant r) \<and> header_tenant r \<noteq> t}"
  have "traced fw ` {r. plain_tenant (header_tenant r)} = ?R \<union> ?F" using t by auto
  note reach' = reach [unfolded this]
  have R: "\<forall>p \<in> ?R. tenant_part.own_thread t p" using traced_own [OF fw] by blast
  have F: "\<forall>p \<in> ?F. tenant_part.foreign_thread t (\<lambda>x. fst x = t) p" using traced_foreign [OF fw t] by blast
  obtain u qs where go: "sys_reach exec elapse ?R s0 T (u, qs)" and tw: "tenant_part.twin t (\<lambda>x. fst x = t) (s, ps) (u, qs)"
    using tenant_part.own_part_alone [OF reach' R F start] by blast
  have "answer_to t p = []" if "tenant_part.foreign_thread t (\<lambda>x. fst x = t) p" for p
    using that by (cases p) (auto simp: tenant_part.foreign_thread_def)
  moreover from tw have "purged (tenant_part.own_thread t) (tenant_part.foreign_thread t (\<lambda>x. fst x = t)) ps qs"
    by (simp add: tenant_part.twin_def)
  ultimately have "answers_to t ps = answers_to t qs" unfolding answers_to_def by (intro purged_filter)
  with go tw show ?thesis by (auto simp: tenant_part.twin_def)
qed

end

text \<open>
  C3. Tenants do not interfere: whatever requests of any number of tenants (with ids
  without a colon) arrive, interleave, lose messages and stop, there is a history of the
  same length with the requests of one tenant only, in which that tenant gets the same
  answers in the same order and sees the same entries under all its keys. What other
  tenants do, and how much of it, is not observable.
\<close>

theorem tenants_do_not_interfere:
  assumes srv: "punctual_server exec view clock elapse" and fw: "framework_ok fw" and t: "plain_tenant t"
    and reach: "sys_reach exec elapse (traced fw ` {r. plain_tenant (header_tenant r)}) s0 T (s, ps)"
    and start: "typed_store (clock s0) (view s0)"
  shows "\<exists>u qs. sys_reach exec elapse (traced fw ` {r. header_tenant r = t}) s0 T (u, qs)
    \<and> answers_to t ps = answers_to t qs \<and> same_for view clock t s u"
  using assms by (rule punctual_server.tenant_alone)

text \<open>An event of \<open>globex\<close> is answered while a request of \<open>acme-corp\<close> waits.\<close>

theorem tenants_do_not_interfere_witness:
  "\<exists>s ps resp u qs. sys_reach mem_exec mem_elapse (traced sample_framework ` {r. plain_tenant (header_tenant r)}) (mem_at 0) 0 (s, ps)
     \<and> length ps = 2 \<and> answers_to ''globex'' ps = [resp]
     \<and> sys_reach mem_exec mem_elapse (traced sample_framework ` {r. header_tenant r = ''globex''}) (mem_at 0) 0 (u, qs)
     \<and> answers_to ''globex'' qs = [resp]"
proof -
  let ?all = "traced sample_framework ` {r. plain_tenant (header_tenant r)}"
  let ?other = "sample_ingest\<lparr>tenant_header := Some ''acme-corp''\<rparr>"
  have other: "header_tenant ?other = ''acme-corp''"
    by (simp add: sample_ingest_def header_tenant_def py_strip_def py_isspace_def Let_def)
  obtain s resp where "run mem_exec (application sample_framework sample_ingest) [Deliver, Deliver, Deliver] (mem_at 0)
      = (Done resp, [], s)" by (rule sample_ingest_runs)
  then have "run mem_exec (traced sample_framework sample_ingest) [Deliver, Deliver, Deliver] (mem_at 0)
      = (Done (''globex'', resp), [], s)" by (simp add: traced_def run_bnd sample_ingest_facts(3))
  moreover have "traced sample_framework sample_ingest \<in> ?all"
    by (simp add: sample_ingest_facts(3) plain_tenant_def)
  ultimately have "sys_reach mem_exec mem_elapse ?all (mem_at 0) 0 (s, [Return (''globex'', resp)])"
    by (rule run_alone_reaches)
  moreover have "traced sample_framework ?other \<in> ?all" by (simp add: other plain_tenant_def)
  ultimately have go: "sys_reach mem_exec mem_elapse ?all (mem_at 0) (0 + 0)
      (s, [Return (''globex'', resp)] @ [traced sample_framework ?other])"
    by (intro sys_reach.step [OF _ sys_step.arrives])
  have "answer_to ''globex'' p = []" if "results_in (\<lambda>x. fst x \<noteq> ''globex'') p" for p using that by (cases p) auto
  moreover have "results_in (\<lambda>x. fst x \<noteq> ''globex'') (traced sample_framework ?other)"
    unfolding traced_def by (rule results_in_bnd) (simp add: other)
  ultimately have a: "answers_to ''globex'' ([Return (''globex'', resp)] @ [traced sample_framework ?other]) = [resp]"
    by (simp add: answers_to_def)
  have "typed_store (mem_clock (mem_at 0)) (mem_data (mem_at 0))"
    by (simp add: typed_store_def stream_typed_def tenant_bucket_ok_def marker_typed_def mem_at_def)
  moreover have "plain_tenant ''globex''" by (simp add: plain_tenant_def)
  ultimately obtain u qs where "sys_reach mem_exec mem_elapse (traced sample_framework ` {r. header_tenant r = ''globex''}) (mem_at 0) (0 + 0) (u, qs)"
    "answers_to ''globex'' qs = [resp]"
    using tenants_do_not_interfere [OF punctual_mem.punctual_server_axioms, OF sample_framework_ok _ go] a by metis
  with go a show ?thesis by fastforce
qed

end
