(* ===== verification/Histories.thy ===== *)
theory Histories imports Store_Types "HOL-Library.Sublist" begin

text \<open>
  Runs of the whole service with the list of the requests the server has served and what
  it replied, for properties of a history rather than of a state: how much a tenant was
  admitted in a stretch of time, and what the counts of its event log are over time. The
  locale \<open>accounted_store\<close> is the contract of an invariant over store, time and history.
\<close>

subsection \<open>Histories\<close>

type_synonym history = "(call \<times> reply) list"

fun unserved :: "'a prog \<Rightarrow> 'a prog set" where
  "unserved (Call c k) = range (\<lambda>e. k (RError e))"
| "unserved (Now k) = range k"
| "unserved (Uuid4 k) = range k"
| "unserved _ = {}"

inductive recorded :: "'s exec \<Rightarrow> (nat \<Rightarrow> 's \<Rightarrow> 's) \<Rightarrow> 'a prog set \<Rightarrow> 's \<Rightarrow> nat \<Rightarrow> history \<Rightarrow> ('s, 'a) config \<Rightarrow> bool"
  for ex elapse req s0 where
  start: "recorded ex elapse req s0 0 [] (s0, [])"
| served: "recorded ex elapse req s0 T L (s, ps) \<Longrightarrow> i < length ps \<Longrightarrow> ps ! i = Call c k \<Longrightarrow> serve ex c s = (r, s') \<Longrightarrow>
     q = k r \<or> (\<exists>e. q = k (RError e)) \<Longrightarrow> recorded ex elapse req s0 T (L @ [(c, r)]) (s', ps[i := q])"
| silent: "recorded ex elapse req s0 T L (s, ps) \<Longrightarrow> i < length ps \<Longrightarrow> q \<in> unserved (ps ! i) \<Longrightarrow>
     recorded ex elapse req s0 T L (s, ps[i := q])"
| arrives: "recorded ex elapse req s0 T L (s, ps) \<Longrightarrow> p \<in> req \<Longrightarrow> recorded ex elapse req s0 T L (s, ps @ [p])"
| passes: "recorded ex elapse req s0 T L (s, ps) \<Longrightarrow> recorded ex elapse req s0 (T + d) L (elapse d s, ps)"

text \<open>Every run has its history, and only runs have one.\<close>

lemma recorded_reach:
  assumes "recorded ex elapse req s0 T L cf"
  shows "sys_reach ex elapse req s0 T cf"
  using assms
proof (induction rule: recorded.induct)
  case start
  show ?case by (rule sys_reach.start)
next
  case (served T L s ps i c k r s' q)
  then show ?case using sys_moves(1,3) [OF served.IH served.hyps(2-4)] by auto
next
  case (silent T L s ps i q)
  then show ?case using sys_moves(2,4,5) [OF silent.IH silent.hyps(2)] by (cases "ps ! i") auto
next
  case (arrives T L s ps p)
  from sys_reach.step [OF arrives.IH sys_step.arrives [OF arrives.hyps(2)]] show ?case by simp
next
  case (passes T L s ps d)
  from sys_reach.step [OF passes.IH sys_step.passes] show ?case .
qed

lemma reach_recorded:
  assumes "sys_reach ex elapse req s0 T cf"
  shows "\<exists>L. recorded ex elapse req s0 T L cf"
  using assms
proof (induction rule: sys_reach.induct)
  case start
  show ?case by (rule exI, rule recorded.start)
next
  case (step T cf d cf')
  then obtain L where L: "recorded ex elapse req s0 T L cf" by blast
  from step.hyps(2) L show ?case
  proof cases
    case (delivered i ps c k s r s')
    with recorded.served [of ex elapse req s0 T L s ps i c k r s' "k r"] L show ?thesis by auto
  next
    case (lost i ps c k s r s' e)
    with recorded.served [of ex elapse req s0 T L s ps i c k r s' "k (RError e)"] L show ?thesis by auto
  next
    case (unsent i ps c k s e)
    with recorded.silent [of ex elapse req s0 T L s ps i "k (RError e)"] L show ?thesis by auto
  next
    case (reads_clock i ps k s t)
    with recorded.silent [of ex elapse req s0 T L s ps i "k t"] L show ?thesis by auto
  next
    case (draws_uuid i ps k s u)
    with recorded.silent [of ex elapse req s0 T L s ps i "k u"] L show ?thesis by auto
  next
    case (arrives p s ps)
    with recorded.arrives [of ex elapse req s0 T L s ps p] L show ?thesis by auto
  next
    case (passes s ps)
    with recorded.passes [of ex elapse req s0 T L s ps d] L show ?thesis by auto
  qed
qed

locale accounted_store =
  fixes ex :: "'s exec" and elapse :: "nat \<Rightarrow> 's \<Rightarrow> 's"
    and allowed :: "call \<Rightarrow> bool" and inv :: "history \<Rightarrow> nat \<Rightarrow> 's \<Rightarrow> bool"
  assumes served_inv: "allowed c \<Longrightarrow> inv L T s \<Longrightarrow> serve ex c s = (r, s') \<Longrightarrow> inv (L @ [(c, r)]) T s'"
    and passes_inv: "inv L T s \<Longrightarrow> inv L (T + d) (elapse d s)"
begin

lemma recorded_inv:
  assumes "recorded ex elapse req s0 T L cf" and req: "\<forall>p \<in> req. calls_in allowed p" and "inv [] 0 s0"
  shows "inv L T (fst cf)"
  using assms(1)
proof (induction rule: recorded.induct)
  case start
  with assms(3) show ?case by simp
next
  case (served T L s ps i c k r s' q)
  have "\<forall>p \<in> set ps. calls_in allowed p"
    using sys_reach_threads [OF recorded_reach [OF served.hyps(1)] step_closed_calls_in req] by simp
  with served.hyps(2,3) have "calls_in allowed (Call c k)" by (metis nth_mem)
  with served show ?case by (auto intro: served_inv)
qed (auto intro: passes_inv)

end

subsection \<open>What a tenant was admitted\<close>

definition draw_call :: "string \<Rightarrow> rat \<Rightarrow> call" where
  "draw_call t x = Eval (token_bucket_lua (bucket_key t) (plan_capacity t) (plan_rate t) x BUCKET_TTL_SECONDS)"

text \<open>The cost that a history's admitted draws of a tenant add up to.\<close>

inductive admits :: "string \<Rightarrow> history \<Rightarrow> rat \<Rightarrow> bool" for t where
  none: "admits t [] 0"
| admitted: "admits t L x \<Longrightarrow> 0 \<le> y \<Longrightarrow> lua_index r 1 = RInt 1 \<Longrightarrow> admits t (L @ [(draw_call t y, r)]) (x + y)"
| rejected: "admits t L x \<Longrightarrow> 0 \<le> y \<Longrightarrow> lua_index r 1 \<noteq> RInt 1 \<Longrightarrow> admits t (L @ [(draw_call t y, r)]) x"
| other: "admits t L x \<Longrightarrow> (\<And>y. 0 \<le> y \<Longrightarrow> c \<noteq> draw_call t y) \<Longrightarrow> admits t (L @ [(c, r)]) x"

lemma admits_Nil: "admits t [] x \<longleftrightarrow> x = 0"
  by (auto intro: admits.none elim: admits.cases)

lemma admits_exists: "\<exists>x. admits t L x"
proof (induction L rule: rev_induct)
  case Nil
  show ?case using admits.none by blast
next
  case (snoc e L)
  then obtain x where x: "admits t L x" by blast
  obtain c r where e: "e = (c, r)" by (cases e)
  show ?case
  proof (cases "\<exists>y. 0 \<le> y \<and> c = draw_call t y")
    case True
    then obtain y where "0 \<le> y" "c = draw_call t y" by blast
    with e admits.admitted [OF x this(1), of r] admits.rejected [OF x this(1), of r] show ?thesis by blast
  next
    case False
    with e admits.other [OF x, of c r] show ?thesis by blast
  qed
qed

definition within_rate :: "string \<Rightarrow> history \<Rightarrow> nat \<Rightarrow> entry option \<Rightarrow> int \<Rightarrow> bool" where
  "within_rate t L T e now \<longleftrightarrow> tenant_bucket_ok t now e \<and>
     (\<forall>x. admits t L x \<longrightarrow> x + tenant_level t e now \<le> plan_capacity t + plan_rate t * secs (int T))"

context redis_server
begin

lemma draw_served:
  assumes ok: "tenant_bucket_ok t (clock s) (view s (bucket_key t))" and y: "0 \<le> y"
    and sv: "serve exec (draw_call t y) s = (r, s')"
  shows "tenant_bucket_ok t (clock s') (view s' (bucket_key t))"
    and "tenant_level t (view s' (bucket_key t)) (clock s')
      = tenant_level t (view s (bucket_key t)) (clock s) - (if lua_index r 1 = RInt 1 then y else 0)"
    and "r = bucket_reply (tenant_level t (view s (bucket_key t)) (clock s)) y (plan_rate t)"
proof -
  let ?lvl = "level (plan_capacity t) (plan_rate t) (view s (bucket_key t)) (clock s)"
  obtain s1 where "run_lua exec (token_bucket_lua (bucket_key t) (plan_capacity t) (plan_rate t) y BUCKET_TTL_SECONDS) s
      = (bucket_reply ?lvl y (plan_rate t), s1)"
    and post: "bucket_ok (plan_capacity t) BUCKET_TTL_SECONDS (clock s1) (view s1 (bucket_key t))"
      "level (plan_capacity t) (plan_rate t) (view s1 (bucket_key t)) (clock s1) = snd (bucket_spec ?lvl y (plan_rate t))"
    by (rule bucket_consume [OF ok [unfolded tenant_bucket_ok_def] bucket_ttl_pos
        order.strict_implies_order [OF plan_numbers(1) [of t]] plan_numbers(2) y])
  with sv have "s' = s1" and r: "r = bucket_reply ?lvl y (plan_rate t)" by (simp_all add: draw_call_def)
  with post show "tenant_bucket_ok t (clock s') (view s' (bucket_key t))"
    and "tenant_level t (view s' (bucket_key t)) (clock s')
      = tenant_level t (view s (bucket_key t)) (clock s) - (if lua_index r 1 = RInt 1 then y else 0)"
    and "r = bucket_reply (tenant_level t (view s (bucket_key t)) (clock s)) y (plan_rate t)"
    by (simp_all add: tenant_bucket_ok_def tenant_level_def bucket_spec_def bucket_reply_def)
qed

end

sublocale redis_server \<subseteq> rate_account: accounted_store exec elapse "bucket_call t"
    "\<lambda>L T s. within_rate t L T (view s (bucket_key t)) (clock s)" for t
proof unfold_locales
  fix c L T s r s'
  assume "bucket_call t c" and inv: "within_rate t L T (view s (bucket_key t)) (clock s)" and sv: "serve exec c s = (r, s')"
  from inv have ok: "tenant_bucket_ok t (clock s) (view s (bucket_key t))"
    and le: "\<And>x. admits t L x \<Longrightarrow> x + tenant_level t (view s (bucket_key t)) (clock s) \<le> plan_capacity t + plan_rate t * secs (int T)"
    by (simp_all add: within_rate_def)
  have ok': "tenant_bucket_ok t (clock s') (view s' (bucket_key t))"
    using tenant_buckets.serve_inv [OF \<open>bucket_call t c\<close> ok sv] .
  have "x + tenant_level t (view s' (bucket_key t)) (clock s') \<le> plan_capacity t + plan_rate t * secs (int T)"
    if "admits t (L @ [(c, r)]) x" for x
    using that
  proof cases
    case (admitted L' x' y r')
    then have "c = draw_call t y" "r' = r" "admits t L x'" by simp_all
    with draw_served(2) [OF ok admitted(4), of r s'] sv le [of x'] admitted(2,5) show ?thesis by simp
  next
    case (rejected L' y r')
    then have "c = draw_call t y" "r' = r" "admits t L x" by simp_all
    with draw_served(2) [OF ok rejected(3), of r s'] sv le [of x] rejected(4) show ?thesis by simp
  next
    case (other L' c' r')
    then have "admits t L x" and no: "\<And>y. 0 \<le> y \<Longrightarrow> c \<noteq> draw_call t y" by simp_all
    have "call_cmds (\<lambda>x. key_of x \<noteq> Some (bucket_key t)) c"
      using \<open>bucket_call t c\<close>
    proof cases
      case (draws y)
      with no [of y] show ?thesis by (simp add: draw_call_def)
    qed
    from serve_frame [OF this sv] serve_clock [OF sv] le [OF \<open>admits t L x\<close>] show ?thesis by simp
  qed simp
  with ok' show "within_rate t (L @ [(c, r)]) T (view s' (bucket_key t)) (clock s')" by (simp add: within_rate_def)
next
  fix L T s d
  assume "within_rate t L T (view s (bucket_key t)) (clock s)"
  then have ok: "tenant_bucket_ok t (clock s) (view s (bucket_key t))"
    and le: "\<And>x. admits t L x \<Longrightarrow> x + tenant_level t (view s (bucket_key t)) (clock s) \<le> plan_capacity t + plan_rate t * secs (int T)"
    by (simp_all add: within_rate_def)
  have "tenant_level t (view (elapse d s) (bucket_key t)) (clock (elapse d s))
      \<le> tenant_level t (view s (bucket_key t)) (clock s) + plan_rate t * secs (int d)"
    by (simp add: tenant_bucket_elapse(2) [OF ok])
  with le tenant_bucket_elapse(1) [OF ok] show "within_rate t L (T + d) (view (elapse d s) (bucket_key t)) (clock (elapse d s))"
    by (force simp: within_rate_def secs_add algebra_simps)
qed

context redis_server
begin

lemma recorded_within_rate:
  assumes "recorded exec elapse req s0 T L (s, ps)" and "\<forall>p \<in> req. calls_in (bucket_call t) p"
    and "within_rate t [] 0 (view s0 (bucket_key t)) (clock s0)"
  shows "within_rate t L T (view s (bucket_key t)) (clock s)"
  using rate_account.recorded_inv [OF assms] by simp

end

text \<open>
  What the script admits: over any interleaving of requests of any tenants, with lost
  messages and stopped processes, the cost of a tenant's draws that the bucket's script
  answers with yes is at most the burst of its plan plus what its rate refills in that time.
  This is about the replies of the script; \<open>Admission\<close> is about the requests.
\<close>

lemma application_within_rate:
  assumes srv: "redis_server exec view clock elapse" and fw: "framework_ok fw"
    and run: "recorded exec elapse (range (application fw)) s0 T L (s, ps)"
    and start: "tenant_bucket_ok t (clock s0) (view s0 (bucket_key t))"
  shows "(\<exists>x. admits t L x) \<and> (\<forall>x. admits t L x \<longrightarrow>
    x \<le> of_int (burst (limits_of t)) + of_int (requests_per_second (limits_of t)) * secs (int T))"
proof -
  have "calls_in (bucket_call t) (application fw r)" for r
    by (rule calls_in_mono [OF application_tenant_calls [OF fw]]) (rule tenant_call_bucket)
  then have req: "\<forall>p \<in> range (application fw). calls_in (bucket_call t) p" by blast
  have "tenant_level t (view s0 (bucket_key t)) (clock s0) \<le> plan_capacity t"
    by (simp add: tenant_level_def level_le [OF plan_numbers(2)])
  then have "within_rate t [] 0 (view s0 (bucket_key t)) (clock s0)"
    using start by (simp add: within_rate_def secs_def admits_Nil)
  from redis_server.recorded_within_rate [OF srv run req this]
  have ok: "tenant_bucket_ok t (clock s) (view s (bucket_key t))"
    and le: "\<And>x. admits t L x \<Longrightarrow> x + tenant_level t (view s (bucket_key t)) (clock s) \<le> plan_capacity t + plan_rate t * secs (int T)"
    by (simp_all add: within_rate_def)
  have "0 \<le> tenant_level t (view s (bucket_key t)) (clock s)"
    unfolding tenant_level_def
    by (rule level_nonneg [OF ok [unfolded tenant_bucket_ok_def] order.strict_implies_order [OF plan_numbers(1)] plan_numbers(2)])
  with le admits_exists [of t L] show ?thesis by fastforce
qed

subsection \<open>The event log\<close>

text \<open>The counts of a tenant's events that a history has reported, oldest first.\<close>

fun counted :: "string \<Rightarrow> call \<times> reply \<Rightarrow> int list" where
  "counted t (Cmd (XLEN k), RInt n) = (if k = stream_key t then [n] else [])"
| "counted t _ = []"

definition counts :: "string \<Rightarrow> history \<Rightarrow> int list" where
  "counts t L = concat (map (counted t) L)"

definition log_grown :: "string \<Rightarrow> (string \<times> (string \<times> bulk) list) list \<Rightarrow> history \<Rightarrow> entry option \<Rightarrow> bool" where
  "log_grown t es0 L e \<longleftrightarrow> (\<exists>es. as_stream e = Some es \<and> prefix es0 es \<and> deadline_of e = None
     \<and> sorted (int (length es0) # counts t L @ [int (length es)]))"

lemma log_grownE:
  assumes "log_grown t es0 L e"
  obtains es where "as_stream e = Some es" and "prefix es0 es" and "deadline_of e = None"
    and "sorted (int (length es0) # counts t L @ [int (length es)])"
  using assms unfolding log_grown_def by blast

lemma typed_call_stream:
  assumes "typed_call c"
  obtains ps where "c = Cmd (XADD (stream_key t) ps)" and "ps \<noteq> []"
  | "c = Cmd (XLEN (stream_key t))"
  | "call_cmds (\<lambda>x. key_of x \<noteq> Some (stream_key t)) c" and "\<And>r. counted t (c, r) = []"
  using assms
proof cases
  case (records d)
  then show ?thesis using that by (cases "ev_tenant_id d = t") (auto simp: serialize_nonempty)
next
  case (counts v)
  have "counted t (c, r) = []" if "v \<noteq> t" for r using that counts by (cases r) simp_all
  with counts show ?thesis using that by (cases "v = t") auto
next
  case (takes v now old slot)
  then show ?thesis by (intro that(3)) (auto intro!: acquire_lua_cmds)
next
  case (draws x v)
  then show ?thesis by (intro that(3)) (auto intro!: bucket_lua_cmds)
qed (auto intro: that(3))

lemma sorted_snoc_last: "sorted (xs @ [a :: int]) \<Longrightarrow> a \<le> b \<Longrightarrow> sorted (xs @ [b])"
  by (auto simp: sorted_append)

sublocale redis_server \<subseteq> log_account: accounted_store exec elapse typed_call
    "\<lambda>L T s. log_grown t es0 L (view s (stream_key t))" for t es0
proof unfold_locales
  fix c L T s r s'
  assume "typed_call c" and inv: "log_grown t es0 L (view s (stream_key t))" and sv: "serve exec c s = (r, s')"
  from inv obtain es where es: "as_stream (view s (stream_key t)) = Some es" and pre: "prefix es0 es"
    and dl: "deadline_of (view s (stream_key t)) = None" and so: "sorted (int (length es0) # counts t L @ [int (length es)])"
    by (rule log_grownE)
  from \<open>typed_call c\<close> show "log_grown t es0 (L @ [(c, r)]) (view s' (stream_key t))"
  proof (cases rule: typed_call_stream [of _ t])
    case (1 ps)
    obtain i s1 where "exec (XADD (stream_key t) ps) s = (RBulk (Text i), s1)"
      and v: "view s1 = (view s)(stream_key t := Some (RStream (es @ [(i, ps)]), deadline_of (view s (stream_key t))))"
      by (rule xadd_view [OF es 1(2)])
    with sv 1 have "s' = s1" and "counts t (L @ [(c, r)]) = counts t L" by (simp_all add: counts_def)
    moreover have "sorted (int (length es0) # counts t L @ [int (length (es @ [(i, ps)]))])"
      using sorted_snoc_last [of "int (length es0) # counts t L" "int (length es)"] so by simp
    ultimately show ?thesis using pre dl v by (auto simp: log_grown_def)
  next
    case 2
    with sv xlen [OF es] have "r = RInt (int (length es))" and "s' = s" by simp_all
    moreover have "sorted ((int (length es0) # counts t L @ [int (length es)]) @ [int (length es)])"
      using so by (auto simp: sorted_append)
    ultimately show ?thesis using es pre dl 2 by (simp add: log_grown_def counts_def)
  next
    case 3
    with serve_frame [OF 3(1) sv] inv show ?thesis by (simp add: log_grown_def counts_def)
  qed
next
  fix L T s d
  assume inv: "log_grown t es0 L (view s (stream_key t))"
  then have "deadline_of (view s (stream_key t)) = None" by (auto simp: log_grown_def)
  then have "view (elapse d s) (stream_key t) = view s (stream_key t)" by (intro elapse_live) simp
  with inv show "log_grown t es0 L (view (elapse d s) (stream_key t))" by simp
qed

context redis_server
begin

lemma recorded_log:
  assumes "recorded exec elapse req s0 T L (s, ps)" and "\<forall>p \<in> req. calls_in typed_call p"
    and "log_grown t es0 [] (view s0 (stream_key t))"
  shows "log_grown t es0 L (view s (stream_key t))"
  using log_account.recorded_inv [OF assms] by simp

end

text \<open>
  C8. The event log is append-only: whatever requests arrive, interleave and fail, every
  entry a tenant's log has held is still there, in its place, and the counts the server
  reports to calculations never go down: each lies between the length of the log at the
  start and now, and no later one is smaller. So no recorded event escapes a later bill.
\<close>

theorem event_log_append_only:
  assumes srv: "redis_server exec view clock elapse" and fw: "framework_ok fw"
    and run: "recorded exec elapse (range (application fw)) s0 T L (s, ps)"
    and start: "as_stream (view s0 (stream_key t)) = Some es0" "deadline_of (view s0 (stream_key t)) = None"
  shows "\<exists>es. as_stream (view s (stream_key t)) = Some es \<and> prefix es0 es
    \<and> sorted (int (length es0) # counts t L @ [int (length es)])"
proof -
  have "\<forall>p \<in> range (application fw). calls_in typed_call p" using application_typed [OF fw] by blast
  moreover have "log_grown t es0 [] (view s0 (stream_key t))" using start by (simp add: log_grown_def counts_def)
  ultimately have "log_grown t es0 L (view s (stream_key t))" by (rule redis_server.recorded_log [OF srv run])
  then show ?thesis by (auto elim: log_grownE)
qed

theorem event_log_append_only_witness:
  "\<exists>s resp L es. recorded mem_exec mem_elapse (range (application sample_framework)) (mem_at 0) 0 L (s, [Return resp])
     \<and> as_stream (mem_data s (stream_key ''globex'')) = Some es"
proof -
  obtain s resp where "sys_reach mem_exec mem_elapse (range (application sample_framework)) (mem_at 0) 0 (s, [Return resp])"
    by (rule sample_reach [of "range (application sample_framework)"]) simp_all
  from reach_recorded [OF this] obtain L
    where L: "recorded mem_exec mem_elapse (range (application sample_framework)) (mem_at 0) 0 L (s, [Return resp])" ..
  from event_log_append_only [OF mem.redis_server_axioms, OF sample_framework_ok L, of "''globex''" "[]"] L
  show ?thesis by (auto simp: mem_at_def)
qed

end
