(* ===== verification/Reservation.thy ===== *)
theory Reservation imports Programs begin

text \<open>
  Programs that each draw one unit of a shared resource, among programs that leave it alone.
  \<open>incident\<close> is a run of tagged requests in which some are calm: what they ask is answered,
  while messages of the others may get lost. The locale \<open>reservation\<close> is the contract of the
  resource: a draw is granted while a unit is there and takes no more than one, and nothing else takes
  any. Then as many calm requests as there are units all get theirs, whatever the others do.
\<close>

subsection \<open>Runs with calm requests\<close>

fun local_steps :: "'a prog \<Rightarrow> 'a prog set" where
  "local_steps (Now k) = range k"
| "local_steps (Uuid4 k) = range k"
| "local_steps _ = {}"

inductive incident :: "'s exec \<Rightarrow> (nat \<Rightarrow> 's \<Rightarrow> 's) \<Rightarrow> ('r \<Rightarrow> bool) \<Rightarrow> ('r \<Rightarrow> 'a prog) \<Rightarrow> 's \<Rightarrow> 's \<times> ('r \<times> 'a prog) list \<Rightarrow> bool"
  for ex elapse calm body s0 where
  start: "incident ex elapse calm body s0 (s0, [])"
| arrives: "incident ex elapse calm body s0 (s, ts) \<Longrightarrow> incident ex elapse calm body s0 (s, ts @ [(x, body x)])"
| served: "incident ex elapse calm body s0 (s, ts) \<Longrightarrow> i < length ts \<Longrightarrow> ts ! i = (x, Call c k) \<Longrightarrow> serve ex c s = (r, s') \<Longrightarrow>
     q = k r \<or> (\<not> calm x \<and> (\<exists>e. q = k (RError e))) \<Longrightarrow> incident ex elapse calm body s0 (s', ts[i := (x, q)])"
| unsent: "incident ex elapse calm body s0 (s, ts) \<Longrightarrow> i < length ts \<Longrightarrow> ts ! i = (x, Call c k) \<Longrightarrow> \<not> calm x \<Longrightarrow>
     incident ex elapse calm body s0 (s, ts[i := (x, k (RError e))])"
| local: "incident ex elapse calm body s0 (s, ts) \<Longrightarrow> i < length ts \<Longrightarrow> ts ! i = (x, p) \<Longrightarrow> q \<in> local_steps p \<Longrightarrow>
     incident ex elapse calm body s0 (s, ts[i := (x, q)])"
| passes: "incident ex elapse calm body s0 (s, ts) \<Longrightarrow> incident ex elapse calm body s0 (elapse d s, ts)"

text \<open>An incident is one of the runs of the system.\<close>

lemma incident_reach:
  assumes "incident ex elapse calm body s0 cf"
  shows "\<exists>T. sys_reach ex elapse (range body) s0 T (fst cf, map snd (snd cf))"
  using assms
proof (induction rule: incident.induct)
  case start
  show ?case by (auto intro: sys_reach.start)
next
  case (arrives s ts x)
  then obtain T where "sys_reach ex elapse (range body) s0 T (s, map snd ts)" by auto
  from sys_reach.step [OF this sys_step.arrives [of "body x"]] show ?case by auto
next
  case (served s ts i x c k r s' q)
  then obtain T where "sys_reach ex elapse (range body) s0 T (s, map snd ts)" by auto
  with sys_moves(1,3) [OF this, of i c k r s'] served.hyps(2-5) show ?case by (auto simp: map_update)
next
  case (unsent s ts i x c k e)
  then obtain T where "sys_reach ex elapse (range body) s0 T (s, map snd ts)" by auto
  with sys_moves(2) [OF this, of i c k e] unsent.hyps(2,3) show ?case by (auto simp: map_update)
next
  case (local s ts i x p q)
  then obtain T where T: "sys_reach ex elapse (range body) s0 T (s, map snd ts)" by auto
  show ?case
  proof (cases p)
    case (Now k)
    with sys_moves(4) [OF T, of i k] local.hyps(2-4) show ?thesis by (auto simp: map_update)
  next
    case (Uuid4 k)
    with sys_moves(5) [OF T, of i k] local.hyps(2-4) show ?thesis by (auto simp: map_update)
  qed (use local.hyps(4) in simp_all)
next
  case (passes s ts d)
  then obtain T where "sys_reach ex elapse (range body) s0 T (s, map snd ts)" by auto
  from sys_reach.step [OF this sys_step.passes [of _ _ _ _ _ d]] show ?case by auto
qed

text \<open>What \<open>run\<close> does without a fault is a part of an incident.\<close>

lemma incident_run:
  assumes "run ex p tape s = (Done y, tape', s')" and "Unsent \<notin> set tape" "Lost \<notin> set tape"
    and "incident ex elapse calm body s0 (s, ts)" and "i < length ts" and "ts ! i = (x, p)"
  shows "incident ex elapse calm body s0 (s', ts[i := (x, Return y)])"
  using assms
proof (induction p arbitrary: tape s ts)
  case (Return z)
  then show ?case using list_update_id [of ts i] by simp
next
  case (Raise e)
  then show ?case by simp
next
  case (Call c k)
  obtain r s1 where e: "serve ex c s = (r, s1)" by (cases "serve ex c s")
  from Call.prems(1-3) e obtain t' where "tape = Deliver # t'" and run: "run ex (k r) t' s1 = (Done y, tape', s')"
    by (auto split: list.splits input.splits)
  with Call.prems(2,3) have "Unsent \<notin> set t'" "Lost \<notin> set t'" by simp_all
  moreover have "incident ex elapse calm body s0 (s1, ts[i := (x, k r)])"
    by (rule incident.served [OF Call.prems(4-6) e]) simp
  ultimately show ?case using Call.IH [OF rangeI run, of "ts[i := (x, k r)]"] Call.prems(5) by simp
next
  case (Now k)
  from Now.prems(1-3) obtain v t' where "tape = Reads v # t'" and run: "run ex (k v) t' s = (Done y, tape', s')"
    by (auto split: list.splits input.splits)
  with Now.prems(2,3) have "Unsent \<notin> set t'" "Lost \<notin> set t'" by simp_all
  moreover have "incident ex elapse calm body s0 (s, ts[i := (x, k v)])"
    by (rule incident.local [OF Now.prems(4-6)]) simp
  ultimately show ?case using Now.IH [OF rangeI run, of "ts[i := (x, k v)]"] Now.prems(5) by simp
next
  case (Uuid4 k)
  from Uuid4.prems(1-3) obtain v t' where "tape = Draws v # t'" and run: "run ex (k v) t' s = (Done y, tape', s')"
    by (auto split: list.splits input.splits)
  with Uuid4.prems(2,3) have "Unsent \<notin> set t'" "Lost \<notin> set t'" by simp_all
  moreover have "incident ex elapse calm body s0 (s, ts[i := (x, k v)])"
    by (rule incident.local [OF Uuid4.prems(4-6)]) simp
  ultimately show ?case using Uuid4.IH [OF rangeI run, of "ts[i := (x, k v)]"] Uuid4.prems(5) by simp
qed

subsection \<open>Requests that draw once\<close>

text \<open>
  \<open>settled\<close>: as long as no reply is an error the program makes allowed calls and ends in a
  wanted result; \<open>awaiting\<close>: it is about to make its draw, and settled once that is granted.
\<close>

primrec settled :: "(call \<Rightarrow> bool) \<Rightarrow> ('a \<Rightarrow> bool) \<Rightarrow> 'a prog \<Rightarrow> bool" where
  "settled ok Q (Return x) = Q x"
| "settled ok Q (Raise e) = False"
| "settled ok Q (Call c k) = (ok c \<and> (\<forall>r. (\<forall>e. r \<noteq> RError e) \<longrightarrow> settled ok Q (k r)))"
| "settled ok Q (Now k) = (\<forall>t. settled ok Q (k t))"
| "settled ok Q (Uuid4 k) = (\<forall>u. settled ok Q (k u))"

definition awaiting :: "call \<Rightarrow> (reply \<Rightarrow> bool) \<Rightarrow> (call \<Rightarrow> bool) \<Rightarrow> ('a \<Rightarrow> bool) \<Rightarrow> 'a prog \<Rightarrow> bool" where
  "awaiting draw granted ok Q p \<longleftrightarrow> (\<exists>k. p = Call draw k \<and> (\<forall>r. granted r \<longrightarrow> settled ok Q (k r)))"

lemma settled_bnd: "settled ok P p \<Longrightarrow> (\<And>x. P x \<Longrightarrow> settled ok Q (f x)) \<Longrightarrow> settled ok Q (bnd p f)"
  by (induction p) auto

lemma settled_catch: "settled ok Q p \<Longrightarrow> settled ok Q (catch p h)"
  by (induction p) auto

lemma settled_redis_py: "ok c \<Longrightarrow> (\<And>r. (\<And>e. r \<noteq> RError e) \<Longrightarrow> Q r) \<Longrightarrow> settled ok Q (redis_py c)"
  by (auto simp: redis_py_def split: reply.split)

definition draws_next :: "call \<Rightarrow> 'a prog \<Rightarrow> bool" where
  "draws_next draw p \<longleftrightarrow> (\<exists>k. p = Call draw k)"

lemma settled_not_next: "\<not> ok draw \<Longrightarrow> settled ok Q p \<Longrightarrow> \<not> draws_next draw p"
  by (auto simp: draws_next_def)

lemma awaiting_next: "awaiting draw granted ok Q p \<Longrightarrow> draws_next draw p"
  by (auto simp: awaiting_def draws_next_def)

subsection \<open>The contract of the resource\<close>

locale reservation =
  fixes ex :: "'s exec" and elapse :: "nat \<Rightarrow> 's \<Rightarrow> 's" and inv :: "'s \<Rightarrow> bool"
    and stock :: "'s \<Rightarrow> rat" and draw :: call and granted :: "reply \<Rightarrow> bool" and ok :: "call \<Rightarrow> bool"
  assumes draw_granted: "inv s \<Longrightarrow> 1 \<le> stock s \<Longrightarrow> serve ex draw s = (r, s') \<Longrightarrow>
      granted r \<and> inv s' \<and> stock s - 1 \<le> stock s'"
    and ok_served: "ok c \<Longrightarrow> inv s \<Longrightarrow> serve ex c s = (r, s') \<Longrightarrow>
      (\<forall>e. r \<noteq> RError e) \<and> inv s' \<and> stock s \<le> stock s'"
    and waits: "inv s \<Longrightarrow> inv (elapse d s) \<and> stock s \<le> stock (elapse d s)"
    and draw_not_ok: "\<not> ok draw"
begin

text \<open>Where a thread can be, and the units that are spoken for.\<close>

definition thread_ok :: "('r \<Rightarrow> bool) \<Rightarrow> ('r \<Rightarrow> 'a \<Rightarrow> bool) \<Rightarrow> 'r \<times> 'a prog \<Rightarrow> bool" where
  "thread_ok calm Q = (\<lambda>(x, p). if calm x then awaiting draw granted ok (Q x) p \<or> settled ok (Q x) p else calls_in ok p)"

definition owed :: "('r \<Rightarrow> bool) \<Rightarrow> 'r \<times> 'a prog \<Rightarrow> bool" where
  "owed calm = (\<lambda>(x, p). calm x \<and> draws_next draw p)"

abbreviation calm_count :: "('r \<Rightarrow> bool) \<Rightarrow> ('r \<times> 'a prog) list \<Rightarrow> nat" where
  "calm_count calm ts \<equiv> length (filter (\<lambda>t. calm (fst t)) ts)"

definition covered :: "('r \<Rightarrow> bool) \<Rightarrow> nat \<Rightarrow> 's \<times> ('r \<times> 'a prog) list \<Rightarrow> bool" where
  "covered calm n = (\<lambda>(s, ts). of_nat (length (filter (owed calm) ts)) + of_nat n \<le> stock s + of_nat (calm_count calm ts))"

lemma covered_update:
  assumes cov: "covered calm n (s, ts)" and i: "i < length ts" "ts ! i = (x, p)"
    and pay: "(if owed calm (x, q) then 1 else 0) + stock s \<le> stock s' + (if owed calm (x, p) then 1 else 0)"
  shows "covered calm n (s', ts[i := (x, q)])"
proof -
  from length_filter_update [OF i(1), of "owed calm" "(x, q)"] i(2)
  have "length (filter (owed calm) (ts[i := (x, q)])) + (if owed calm (x, p) then 1 else 0)
      = length (filter (owed calm) ts) + (if owed calm (x, q) then 1 else 0)" by simp
  then have owes: "(of_nat (length (filter (owed calm) (ts[i := (x, q)]))) :: rat) + (if owed calm (x, p) then 1 else 0)
      = of_nat (length (filter (owed calm) ts)) + (if owed calm (x, q) then 1 else 0)"
    using arg_cong [of _ _ "of_nat :: nat \<Rightarrow> rat"] by (auto split: if_splits)
  have "calm_count calm (ts[i := (x, q)]) = calm_count calm ts"
    by (rule same_tags(1) [OF same_tags_update [OF i]])
  then show ?thesis using cov owes pay unfolding covered_def by (simp split: if_splits)
qed

text \<open>A step of one thread.\<close>

lemma thread_served:
  assumes ok: "thread_ok calm Q (x, Call c k)" and inv: "inv s" and sv: "serve ex c s = (r, s')"
    and unit: "owed calm (x, Call c k) \<Longrightarrow> 1 \<le> stock s"
    and q: "q = k r \<or> (\<not> calm x \<and> (\<exists>e. q = k (RError e)))"
  shows "thread_ok calm Q (x, q) \<and> inv s'
    \<and> (if owed calm (x, q) then 1 else 0) + stock s \<le> stock s' + (if owed calm (x, Call c k) then 1 else 0)"
proof (cases "calm x")
  case False
  with ok have "ok c" "\<forall>r. calls_in ok (k r)" by (simp_all add: thread_ok_def)
  with ok_served [OF this(1) inv sv] False q show ?thesis by (auto simp: thread_ok_def owed_def)
next
  case True
  with q have q: "q = k r" by simp
  from ok True consider "awaiting draw granted ok (Q x) (Call c k)" | "settled ok (Q x) (Call c k)"
    by (auto simp: thread_ok_def)
  then show ?thesis
  proof cases
    case 1
    then have c: "c = draw" and next_ok: "granted r \<Longrightarrow> settled ok (Q x) (k r)" by (auto simp: awaiting_def)
    from True c have owes: "owed calm (x, Call c k)" by (auto simp: owed_def draws_next_def)
    from draw_granted [OF inv unit [OF owes]] sv c have "granted r" "inv s'" "stock s - 1 \<le> stock s'" by auto
    moreover from next_ok [OF this(1)] have st: "settled ok (Q x) q" by (simp add: q)
    moreover from settled_not_next [of ok draw, OF draw_not_ok this] have "\<not> owed calm (x, q)" by (simp add: owed_def)
    ultimately show ?thesis using True owes by (simp add: thread_ok_def)
  next
    case 2
    then have c: "ok c" by simp
    from ok_served [OF this inv sv] have s': "\<forall>e. r \<noteq> RError e" "inv s'" "stock s \<le> stock s'" by auto
    with 2 have st: "settled ok (Q x) q" by (simp add: q)
    from settled_not_next [of ok draw, OF draw_not_ok this] have "\<not> owed calm (x, q)" by (simp add: owed_def)
    with s' st True show ?thesis by (simp add: thread_ok_def)
  qed
qed

lemma thread_local:
  assumes "thread_ok calm Q (x, p)" and "q \<in> local_steps p"
  shows "thread_ok calm Q (x, q)" and "\<not> owed calm (x, q)"
proof -
  have "calls_in ok q" if "calls_in ok p" using that assms(2) by (cases p) auto
  moreover have st: "settled ok (Q x) q" if "settled ok (Q x) p" using that assms(2) by (cases p) auto
  moreover have aw: "\<not> awaiting draw granted ok (Q x) p" using assms(2) by (cases p) (auto simp: awaiting_def)
  ultimately show "thread_ok calm Q (x, q)" using assms(1) by (auto simp: thread_ok_def split: if_splits)
  from st aw assms(1) settled_not_next [of ok draw, OF draw_not_ok, of "Q x" q] show "\<not> owed calm (x, q)"
    by (auto simp: thread_ok_def owed_def split: if_splits)
qed

lemma owed_unit:
  assumes "covered calm n (s, ts)" and few: "calm_count calm ts \<le> n"
    and i: "i < length ts" "ts ! i = (x, p)" "owed calm (x, p)"
  shows "1 \<le> stock s"
proof -
  from i nth_mem [of i ts] have "(x, p) \<in> set (filter (owed calm) ts)" by simp
  then have "0 < length (filter (owed calm) ts)" by (rule length_pos_if_in_set)
  then have "(1 :: rat) \<le> of_nat (length (filter (owed calm) ts))" by (simp add: Suc_le_eq)
  moreover from few have "(of_nat (calm_count calm ts) :: rat) \<le> of_nat n" by simp
  ultimately show ?thesis using assms(1) by (simp add: covered_def)
qed

text \<open>All calm requests are awaiting their unit or settled, and the units for them are there.\<close>

lemma reserved:
  assumes "incident ex elapse calm body s0 cf" and "inv s0" and "of_nat n \<le> stock s0"
    and "\<forall>(x, p) \<in> set (snd cf). calm x \<longrightarrow> awaiting draw granted ok (Q x) (body x)"
    and foreign: "\<forall>x. \<not> calm x \<longrightarrow> calls_in ok (body x)"
    and "calm_count calm (snd cf) \<le> n"
  shows "inv (fst cf) \<and> (\<forall>t \<in> set (snd cf). thread_ok calm Q t) \<and> covered calm n cf"
  using assms(1,4,6)
proof (induction rule: incident.induct)
  case start
  show ?case using assms(2,3) by (simp add: covered_def)
next
  case (arrives s ts x)
  then have IH: "inv s" "\<forall>t \<in> set ts. thread_ok calm Q t" "covered calm n (s, ts)" by auto
  moreover have "thread_ok calm Q (x, body x)" using arrives.prems foreign by (auto simp: thread_ok_def)
  ultimately show ?case using arrives.prems by (auto simp: covered_def owed_def)
next
  case (served s ts i x c k r s' q)
  note tags = same_tags [OF same_tags_update [OF served.hyps(2,3), of q]]
  have pre: "\<forall>(x, p) \<in> set ts. calm x \<longrightarrow> awaiting draw granted ok (Q x) (body x)" "calm_count calm ts \<le> n"
    using served.prems by (simp_all add: tags)
  with served.IH have IH: "inv s" "\<forall>t \<in> set ts. thread_ok calm Q t" "covered calm n (s, ts)" by simp_all
  have "thread_ok calm Q (x, Call c k)" using IH(2) served.hyps(2,3) by (metis nth_mem)
  from thread_served [OF this IH(1) served.hyps(4) owed_unit [OF IH(3) pre(2) served.hyps(2,3)] served.hyps(5)]
  have step: "thread_ok calm Q (x, q)" "inv s'"
    "(if owed calm (x, q) then 1 else 0) + stock s \<le> stock s' + (if owed calm (x, Call c k) then 1 else 0)" by simp_all
  with covered_update [OF IH(3) served.hyps(2,3) step(3)] ball_update [OF IH(2) step(1), of i] show ?case by simp
next
  case (unsent s ts i x c k e)
  note tags = same_tags [OF same_tags_update [OF unsent.hyps(2,3), of "k (RError e)"]]
  have "\<forall>(x, p) \<in> set ts. calm x \<longrightarrow> awaiting draw granted ok (Q x) (body x)" "calm_count calm ts \<le> n"
    using unsent.prems by (simp_all add: tags)
  with unsent.IH have IH: "inv s" "\<forall>t \<in> set ts. thread_ok calm Q t" "covered calm n (s, ts)" by simp_all
  have "thread_ok calm Q (x, Call c k)" using IH(2) unsent.hyps(2,3) by (metis nth_mem)
  with unsent.hyps(4) have q: "thread_ok calm Q (x, k (RError e))" by (simp add: thread_ok_def)
  have "covered calm n (s, ts[i := (x, k (RError e))])"
    by (rule covered_update [OF IH(3) unsent.hyps(2,3)]) (simp add: owed_def unsent.hyps(4))
  with ball_update [OF IH(2) q, of i] IH(1) show ?case by simp
next
  case (local s ts i x p q)
  note tags = same_tags [OF same_tags_update [OF local.hyps(2,3), of q]]
  have "\<forall>(x, p) \<in> set ts. calm x \<longrightarrow> awaiting draw granted ok (Q x) (body x)" "calm_count calm ts \<le> n"
    using local.prems by (simp_all add: tags)
  with local.IH have IH: "inv s" "\<forall>t \<in> set ts. thread_ok calm Q t" "covered calm n (s, ts)" by simp_all
  have "thread_ok calm Q (x, p)" using IH(2) local.hyps(2,3) by (metis nth_mem)
  note q = thread_local [OF this local.hyps(4)]
  have "covered calm n (s, ts[i := (x, q)])"
    by (rule covered_update [OF IH(3) local.hyps(2,3)]) (simp add: q(2))
  with ball_update [OF IH(2) q(1), of i] IH(1) show ?case by simp
next
  case (passes s ts d)
  with waits [of s d] show ?case by (auto simp: covered_def)
qed

end

end
