(* ===== verification/Noisy_Neighbour.thy ===== *)
theory Noisy_Neighbour imports Reservation Histories Load_Runner begin

text \<open>
  What the admission control is for. A tenant that sends no more events than its bucket
  holds is served whatever its neighbours do: their requests may be of any kind and number
  and may lose messages. The tokens of a tenant are a \<open>reservation\<close>. The theorem on the load
  runner joins the two programs of the repository: its quiet workload, played against the
  application, comes out as holding, provided its messages get through.
\<close>

subsection \<open>The tokens of a tenant as a reservation\<close>

definition granted_token :: "string \<Rightarrow> reply \<Rightarrow> bool" where
  "granted_token t r \<longleftrightarrow> (\<exists>lvl \<ge> 1. r = bucket_reply lvl 1 (plan_rate t))"

definition leaves_bucket :: "string \<Rightarrow> call \<Rightarrow> bool" where
  "leaves_bucket t c \<longleftrightarrow> typed_call c \<and> call_cmds (\<lambda>x. key_of x \<noteq> Some (bucket_key t)) c"

context redis_server
begin

lemma token_drawn:
  assumes ty: "typed_store (clock s) (view s)" and unit: "1 \<le> tenant_level t (view s (bucket_key t)) (clock s)"
    and sv: "serve exec (draw_call t 1) s = (r, s')"
  shows "granted_token t r \<and> typed_store (clock s') (view s')
    \<and> tenant_level t (view s (bucket_key t)) (clock s) - 1 \<le> tenant_level t (view s' (bucket_key t)) (clock s')"
proof -
  let ?lvl = "level (plan_capacity t) (plan_rate t) (view s (bucket_key t)) (clock s)"
  have "0 \<le> (1 :: rat)" by simp
  from bucket_consume [OF typed_storeD(2) [OF ty, of t, unfolded tenant_bucket_ok_def] bucket_ttl_pos
      order.strict_implies_order [OF plan_numbers(1) [of t]] plan_numbers(2) this]
  obtain s1 where "run_lua exec (token_bucket_lua (bucket_key t) (plan_capacity t) (plan_rate t) 1 BUCKET_TTL_SECONDS) s
      = (bucket_reply ?lvl 1 (plan_rate t), s1)" by metis
  with sv have "r = bucket_reply ?lvl 1 (plan_rate t)" by (simp add: draw_call_def)
  with unit have "granted_token t r" by (auto simp: granted_token_def tenant_level_def)
  moreover have "typed_store (clock s') (view s')"
    using typed_served [OF typed_call.draws ty sv [unfolded draw_call_def]] by simp
  moreover have "tenant_level t (view s' (bucket_key t)) (clock s')
      = tenant_level t (view s (bucket_key t)) (clock s) - (if lua_index r 1 = RInt 1 then 1 else 0)"
    by (rule draw_served(2) [OF typed_storeD(2) [OF ty] _ sv]) simp
  ultimately show ?thesis by simp
qed

end

sublocale redis_server \<subseteq> tokens: reservation exec elapse "\<lambda>s. typed_store (clock s) (view s)"
    "\<lambda>s. tenant_level t (view s (bucket_key t)) (clock s)" "draw_call t 1" "granted_token t" "leaves_bucket t" for t
proof unfold_locales
  fix s r s'
  assume "typed_store (clock s) (view s)" "1 \<le> tenant_level t (view s (bucket_key t)) (clock s)"
    "serve exec (draw_call t 1) s = (r, s')"
  then show "granted_token t r \<and> typed_store (clock s') (view s')
      \<and> tenant_level t (view s (bucket_key t)) (clock s) - 1 \<le> tenant_level t (view s' (bucket_key t)) (clock s')"
    by (rule token_drawn)
next
  fix c s r s'
  assume "leaves_bucket t c" and ty: "typed_store (clock s) (view s)" and sv: "serve exec c s = (r, s')"
  then have c: "typed_call c" "call_cmds (\<lambda>x. key_of x \<noteq> Some (bucket_key t)) c" by (simp_all add: leaves_bucket_def)
  from typed_served [OF c(1) ty sv] serve_frame [OF c(2) sv] serve_clock [OF sv]
  show "(\<forall>e. r \<noteq> RError e) \<and> typed_store (clock s') (view s')
      \<and> tenant_level t (view s (bucket_key t)) (clock s) \<le> tenant_level t (view s' (bucket_key t)) (clock s')" by simp
next
  fix s d
  assume ty: "typed_store (clock s) (view s)"
  have "tenant_level t (view s (bucket_key t)) (clock s) \<le> plan_capacity t"
    by (simp add: tenant_level_def level_le [OF plan_numbers(2)])
  moreover have "0 \<le> plan_rate t * secs (int d)"
    using plan_numbers(1) [of t] by (simp add: secs_def)
  ultimately have "tenant_level t (view s (bucket_key t)) (clock s)
      \<le> tenant_level t (view (elapse d s) (bucket_key t)) (clock (elapse d s))"
    by (simp add: tenant_bucket_elapse(2) [OF typed_storeD(2) [OF ty]])
  with typed_elapse [OF ty] show "typed_store (clock (elapse d s)) (view (elapse d s))
      \<and> tenant_level t (view s (bucket_key t)) (clock s) \<le> tenant_level t (view (elapse d s) (bucket_key t)) (clock (elapse d s))"
    by simp
next
  have "\<not> call_cmds (\<lambda>x. key_of x \<noteq> Some (bucket_key t)) (draw_call t 1)"
    using bucket_lua_names [of "\<lambda>x. key_of x \<noteq> Some (bucket_key t)" "bucket_key t"] by (auto simp: draw_call_def)
  then show "\<not> leaves_bucket t (draw_call t 1)" by (simp add: leaves_bucket_def)
qed

subsection \<open>The requests of the tenant and of the others\<close>

abbreviation requests_of :: "string \<Rightarrow> ('b HttpRequest \<times> 'p) list \<Rightarrow> ('b HttpRequest \<times> 'p) list" where
  "requests_of t ts \<equiv> filter (\<lambda>x. header_tenant (fst x) = t) ts"

text \<open>A well-formed ingest of a tenant, and its answer.\<close>

definition ingests :: "'b framework \<Rightarrow> string \<Rightarrow> 'b HttpRequest \<Rightarrow> bool" where
  "ingests fw t r \<longleftrightarrow> req_method r = ''POST'' \<and> req_path r = ''/api/v1/events/ingest'' \<and> header_tenant r = t
     \<and> (\<exists>data. is_valid (fw_fields fw) UsageEventSerializer (req_body r) = Inr data)"

definition accepted :: "'b framework \<Rightarrow> 'b HttpRequest \<Rightarrow> HttpResponse \<Rightarrow> bool" where
  "accepted fw r resp \<longleftrightarrow> (\<exists>data c dup. is_valid (fw_fields fw) UsageEventSerializer (req_body r) = Inr data
     \<and> event_command (header_tenant r) data = Inr c
     \<and> resp = ingest_response (header_tenant r) \<lparr>event_id = ev_idempotency_key c, duplicate = dup\<rparr>)"

lemma ingest_event_settled:
  assumes "command_ok c"
  shows "settled (leaves_bucket t) (\<lambda>x. event_id x = ev_idempotency_key c) (ingest_event c)"
proof -
  have "leaves_bucket t (Cmd (SET_NX_EX (marker_key c) (Text ''1'') IDEMPOTENCY_TTL_SECONDS))"
    by (simp add: leaves_bucket_def typed_call.claims idempotency_ttl_pos)
  moreover have "leaves_bucket t (Cmd (XADD (events_key c) (serialize_event c)))"
    using assms by (simp add: leaves_bucket_def typed_call.records)
  ultimately show ?thesis
    unfolding ingest_event_def record_event_def claim_idempotency_def Let_def
    by (auto intro!: settled_bnd [of _ "\<lambda>_. True"] settled_redis_py)
qed

lemma ingest_view_settled:
  assumes fw: "framework_ok fw" and r: "ingests fw t r" and t: "t \<noteq> []"
  shows "settled (leaves_bucket t) (accepted fw r) (ingest_view fw r)"
proof -
  from r obtain data where data: "is_valid (fw_fields fw) UsageEventSerializer (req_body r) = Inr data"
    and h: "header_tenant r = t" by (auto simp: ingests_def)
  from data have "fields_ok (declared_fields UsageEventSerializer) data"
    by (auto simp: valid_usage intro: framework_fields [OF fw])
  then obtain c where c: "event_command t data = Inr c" and ok: "command_ok c" by (rule valid_event_command)
  have "accepted fw r (ingest_response t x)" if "event_id x = ev_idempotency_key c" for x
    using that data c h by (cases x) (auto simp: accepted_def)
  with ingest_event_settled [OF ok, of t] show ?thesis
    by (auto simp: ingest_view_def resolve_tenant_header t h data c intro: settled_bnd)
qed

lemma ingest_awaits:
  assumes fw: "framework_ok fw" and r: "ingests fw t r" and t: "t \<noteq> []"
  shows "awaiting (draw_call t 1) (granted_token t) (leaves_bucket t) (accepted fw r) (application fw r)"
proof -
  let ?h = "converted fw (concurrency_middleware (converted fw (converted fw (route fw)))) r"
  from r have post: "req_method r = ''POST''" "req_path r = ''/api/v1/events/ingest''" and h: "header_tenant r = t"
    by (simp_all add: ingests_def)
  have light: "req_path r \<notin> set HEAVY_ENDPOINTS" by (simp add: post HEAVY_ENDPOINTS_def)
  have cost: "cost_of (req_path r) = 1" by (simp add: post cost_of_def ENDPOINT_COSTS_def)
  have view: "settled (leaves_bucket t) (accepted fw r) ?h"
    by (simp add: converted_def concurrency_passes light route_post(1) [OF post] settled_catch
        ingest_view_settled [OF fw r t])
  have go: "settled (leaves_bucket t) (accepted fw r)
      (catch (if rl_allowed (rate_decision t (req_path r) lvl) then ?h else reject (rate_decision t (req_path r) lvl))
        (\<lambda>e. Return (fw_on_error fw e)))" if "1 \<le> lvl" for lvl
    using that view by (simp add: rate_decision_allowed cost settled_catch)
  let ?d = "\<lambda>decision. \<lparr>rl_allowed = allowed decision, rl_tokens_remaining = tokens_remaining decision,
    rl_retry_after_seconds = retry_after_seconds decision, rl_tenant_id = t, rl_endpoint = req_path r, rl_cost = 1\<rparr>"
  let ?k = "\<lambda>rep. catch (try_else (bnd (bnd (case rep of RError e \<Rightarrow> Raise (RedisError e) | _ \<Rightarrow> Return rep)
      (\<lambda>raw. lift_exn (bucket_decision raw))) (\<lambda>decision. Return (?d decision)))
    (\<lambda>e. ?h) (\<lambda>d. if rl_allowed d then ?h else reject d)) (\<lambda>e. Return (fw_on_error fw e))"
  have "application fw r = Call (draw_call t 1) ?k"
    unfolding application_transparent [OF fw]
    by (simp add: converted_def rate_limit_guarded guarded_paths(1) [OF post(2)] h t check_and_consume_def consume_def
        plan_for_limits cost redis_py_def draw_call_def)
  moreover have "settled (leaves_bucket t) (accepted fw r) (?k rep)" if granted: "granted_token t rep" for rep
  proof -
    from granted obtain lvl where lvl: "1 \<le> lvl" "rep = bucket_reply lvl 1 (plan_rate t)" by (auto simp: granted_token_def)
    have "?d (decision_at lvl (requests_per_second (limits_of t)) 1) = rate_decision t (req_path r) lvl"
      by (simp add: rate_decision_def cost Let_def)
    moreover have "(case rep of RError e \<Rightarrow> Raise (RedisError e) | _ \<Rightarrow> Return rep) = Return rep"
      by (simp add: lvl(2) bucket_reply_def)
    moreover have "bucket_decision rep = Inr (decision_at lvl (requests_per_second (limits_of t)) 1)"
      using bucket_decision_reply [of lvl 1 "requests_per_second (limits_of t)"] by (simp add: lvl(2))
    ultimately show ?thesis using go [OF lvl(1)] by simp
  qed
  ultimately show ?thesis unfolding awaiting_def by blast
qed

text \<open>A request of another tenant.\<close>

lemma neighbour_leaves:
  assumes fw: "framework_ok fw" and other: "header_tenant r \<noteq> t"
  shows "calls_in (leaves_bucket t) (application fw r)"
proof -
  have "call_cmds (\<lambda>x. key_of x \<noteq> Some (bucket_key t)) c" if "tenant_call (header_tenant r) c" for c
    using tenant_call_keys [OF that] by (rule call_cmds_mono) (use other in auto)
  then have "calls_in (call_cmds (\<lambda>x. key_of x \<noteq> Some (bucket_key t))) (application fw r)"
    using application_tenant_calls [OF fw] calls_in_mono by blast
  moreover have "leaves_bucket t = (\<lambda>c. typed_call c \<and> call_cmds (\<lambda>x. key_of x \<noteq> Some (bucket_key t)) c)"
    by (simp add: leaves_bucket_def fun_eq_iff)
  ultimately show ?thesis using application_typed [OF fw, of r] by (simp add: calls_in_conj)
qed

context redis_server
begin

lemma quiet_threads:
  assumes fw: "framework_ok fw" and t: "t \<noteq> []"
    and run: "incident exec elapse (\<lambda>r. header_tenant r = t) (application fw) s0 (s, ts)"
    and ty: "typed_store (clock s0) (view s0)"
    and quiet: "\<forall>(r, p) \<in> set ts. header_tenant r = t \<longrightarrow> ingests fw t r"
    and few: "of_nat (length (requests_of t ts)) \<le> tenant_level t (view s0 (bucket_key t)) (clock s0)"
    and th: "(r, p) \<in> set ts" "header_tenant r = t"
  shows "awaiting (draw_call t 1) (granted_token t) (leaves_bucket t) (accepted fw r) p
    \<or> settled (leaves_bucket t) (accepted fw r) p"
proof -
  have mine: "\<forall>(r, p) \<in> set (snd (s, ts)). header_tenant r = t \<longrightarrow>
      awaiting (draw_call t 1) (granted_token t) (leaves_bucket t) (accepted fw r) (application fw r)"
    using quiet ingest_awaits [OF fw _ t] by auto
  have others: "\<forall>r. header_tenant r \<noteq> t \<longrightarrow> calls_in (leaves_bucket t) (application fw r)"
    using neighbour_leaves [OF fw] by blast
  from tokens.reserved [OF run ty few mine others]
  have "\<forall>x \<in> set ts. tokens.thread_ok t (\<lambda>r. header_tenant r = t) (accepted fw) x" by simp
  from bspec [OF this th(1)] th(2) show ?thesis by (simp add: tokens.thread_ok_def)
qed

end

text \<open>
  C4. A quiet tenant is served, however noisy its neighbours are. If the well-formed events
  a tenant sends are no more than the tokens in its bucket at the start, and its messages
  get through, then none of its requests is rejected or fails, at any moment of any
  interleaving: each is under way or has been answered 202 with its own key. The others may
  send any requests, any number of them, and may lose messages.
\<close>

theorem quiet_tenant_is_served:
  assumes srv: "redis_server exec view clock elapse" and fw: "framework_ok fw" and t: "t \<noteq> []"
    and run: "incident exec elapse (\<lambda>r. header_tenant r = t) (application fw) s0 (s, ts)"
    and start: "typed_store (clock s0) (view s0)"
    and quiet: "\<forall>(r, p) \<in> set ts. header_tenant r = t \<longrightarrow> ingests fw t r"
    and few: "of_nat (length (requests_of t ts)) \<le> tenant_level t (view s0 (bucket_key t)) (clock s0)"
  shows "\<forall>(r, p) \<in> set ts. header_tenant r = t \<longrightarrow> (\<forall>e. p \<noteq> Raise e) \<and> (\<forall>resp. p = Return resp \<longrightarrow> accepted fw r resp)"
proof -
  have "(\<forall>e. p \<noteq> Raise e) \<and> (\<forall>resp. p = Return resp \<longrightarrow> accepted fw r resp)"
    if "(r, p) \<in> set ts" "header_tenant r = t" for r p
    using redis_server.quiet_threads [OF srv fw t run start quiet few that] by (auto simp: awaiting_def)
  then show ?thesis by blast
qed

text \<open>An event of \<open>globex\<close> is answered while a request of \<open>acme-corp\<close> waits.\<close>

lemma sample_incident:
  obtains s resp where "incident mem_exec mem_elapse (\<lambda>r. header_tenant r = ''globex'') (application sample_framework) (mem_at 0)
    (s, [(sample_ingest\<lparr>tenant_header := Some ''acme-corp''\<rparr>, application sample_framework (sample_ingest\<lparr>tenant_header := Some ''acme-corp''\<rparr>)),
         (sample_ingest, Return resp)])"
proof -
  let ?other = "sample_ingest\<lparr>tenant_header := Some ''acme-corp''\<rparr>" and ?app = "application sample_framework"
  let ?run = "incident mem_exec mem_elapse (\<lambda>r. header_tenant r = ''globex'') ?app (mem_at 0)"
  let ?ts = "[(?other, ?app ?other), (sample_ingest, ?app sample_ingest)]"
  have "?run (mem_at 0, ?ts)" using incident.arrives [OF incident.arrives [OF incident.start]] by simp
  moreover obtain s resp where "run mem_exec (?app sample_ingest) [Deliver, Deliver, Deliver] (mem_at 0) = (Done resp, [], s)"
    by (rule sample_ingest_runs)
  ultimately have "?run (s, ?ts[1 := (sample_ingest, Return resp)])"
    by (intro incident_run [of mem_exec "?app sample_ingest" "[Deliver, Deliver, Deliver]" "mem_at 0"]) simp_all
  then have "?run (s, [(?other, ?app ?other), (sample_ingest, Return resp)])" by simp
  then show ?thesis by (rule that)
qed

lemma sample_start: "typed_store (mem_clock (mem_at 0)) (mem_data (mem_at 0))"
  by (simp add: typed_store_def stream_typed_def tenant_bucket_ok_def marker_typed_def mem_at_def)

theorem quiet_tenant_is_served_witness:
  "\<exists>s ts resp. incident mem_exec mem_elapse (\<lambda>r. header_tenant r = ''globex'') (application sample_framework) (mem_at 0) (s, ts)
     \<and> length ts = 2 \<and> (sample_ingest, Return resp) \<in> set ts \<and> accepted sample_framework sample_ingest resp"
proof -
  let ?other = "sample_ingest\<lparr>tenant_header := Some ''acme-corp''\<rparr>"
  have other: "header_tenant ?other = ''acme-corp''"
    by (simp add: sample_ingest_def header_tenant_def py_strip_def py_isspace_def Let_def)
  have "ingests sample_framework ''globex'' sample_ingest" by (simp add: ingests_def sample_ingest_facts)
  moreover obtain s resp where run: "incident mem_exec mem_elapse (\<lambda>r. header_tenant r = ''globex'') (application sample_framework)
      (mem_at 0) (s, [(?other, application sample_framework ?other), (sample_ingest, Return resp)])"
    by (rule sample_incident)
  ultimately have "accepted sample_framework sample_ingest resp"
    using quiet_tenant_is_served [OF mem.redis_server_axioms sample_framework_ok _ run sample_start]
    by (simp add: other sample_ingest_facts sample_bucket)
  with run show ?thesis by force
qed

subsection \<open>The load runner against the application\<close>

text \<open>Each event of the quiet workload is answered by a request of its tenant that has been served.\<close>

definition quiet_answers :: "runner_args \<Rightarrow> surroundings \<Rightarrow> ('b HttpRequest \<times> HttpResponse prog) list \<Rightarrow> bool" where
  "quiet_answers args w ts \<longleftrightarrow> (\<forall>i < nat (arg_quiet_requests args). \<exists>r resp. (r, Return resp) \<in> set ts
     \<and> header_tenant r = arg_quiet args
     \<and> network w (arg_host args @ ''/api/v1/events/ingest'') (arg_quiet args)
         (ingest_body (arg_quiet args) i (clock_ns w i)) i = answered resp)"

definition flood_of :: "runner_args \<Rightarrow> surroundings \<Rightarrow> exn + TenantStats" where
  "flood_of args w = flood_heavy_endpoint (network w) (arg_host args) (arg_noisy args) (arg_noisy_endpoint args)
     (arg_noisy_requests args) (arg_noisy_concurrency args) (noisy_finish w) (noisy_seconds w)"

lemma post_accepted:
  "accepted fw r resp \<Longrightarrow> post (answered resp) = Inr \<lparr>out_status = 202, out_kind = ''success'', error_body = None\<rparr>"
  by (auto simp: accepted_def answered_def ingest_response_def classify_def try_bind_simps)

text \<open>
  C5. The load runner's quiet workload against the application: when it asks for no more
  events than the tenant's bucket holds and its messages get through, then all its requests
  are printed as successes, and a run whose flood comes to its end prints that isolation is
  holding, whatever requests the others send meanwhile and however many. This is the part of
  the isolation that the tenant's own bucket and keys give. The other part, that connections
  are left for the quiet tenant, is the hypothesis that its messages get through: the pool is
  inside the Redis client, and the concurrency gate that protects it plays no part here.
\<close>

theorem quiet_workload_succeeds:
  assumes srv: "redis_server exec view clock elapse" and fw: "framework_ok fw" and t: "arg_quiet args \<noteq> []"
    and run: "incident exec elapse (\<lambda>r. header_tenant r = arg_quiet args) (application fw) s0 (s, ts)"
    and start: "typed_store (clock s0) (view s0)"
    and quiet: "\<forall>(r, p) \<in> set ts. header_tenant r = arg_quiet args \<longrightarrow> ingests fw (arg_quiet args) r"
    and few: "of_nat (length (requests_of (arg_quiet args) ts))
      \<le> tenant_level (arg_quiet args) (view s0 (bucket_key (arg_quiet args))) (clock s0)"
    and net: "quiet_answers args w ts"
    and some: "0 < arg_quiet_requests args" "0 < arg_quiet_concurrency args"
  shows "\<exists>line. l_total line = nat (arg_quiet_requests args) \<and> l_success line = l_total line \<and> l_percent line = 100
    \<and> runner_main args w = try_bind (flood_of args w) (\<lambda>noisy_stats. Inr (print_stats noisy_stats, line, True, 0))"
proof -
  let ?q = "arg_quiet args" and ?n = "nat (arg_quiet_requests args)"
  let ?ok = "\<lparr>out_status = 202, out_kind = ''success'', error_body = None\<rparr>"
  let ?task = "\<lambda>i. post (network w (arg_host args @ ''/api/v1/events/ingest'') ?q (ingest_body ?q i (clock_ns w i)) i)"
  let ?stats = "\<lparr>stats_tenant = ?q, stats_endpoint = ''/api/v1/events/ingest'', outcomes = replicate ?n ?ok,
    wall_clock_seconds = quiet_seconds w\<rparr>"
  have "?task i = Inr ?ok" if "i < ?n" for i
  proof -
    from net that obtain r resp where th: "(r, Return resp) \<in> set ts" "header_tenant r = ?q"
      and ans: "network w (arg_host args @ ''/api/v1/events/ingest'') ?q (ingest_body ?q i (clock_ns w i)) i = answered resp"
      unfolding quiet_answers_def by blast
    from redis_server.quiet_threads [OF srv fw t run start quiet few th] have "accepted fw r resp"
      by (simp add: awaiting_def)
    then show ?thesis unfolding ans by (rule post_accepted)
  qed
  then have "\<forall>i < ?n. ?task i = Inr ?ok" by blast
  from thread_pool_all [OF some(2) this]
  have "stream_ingests (network w) (clock_ns w) (arg_host args) ?q (arg_quiet_requests args) (arg_quiet_concurrency args)
      (quiet_finish w) (quiet_seconds w) = Inr ?stats" by (simp add: stream_ingests_def)
  moreover have "1 \<le> ?n" using some(1) by linarith
  then have "quiet_success_rate ?stats = 1" by (simp add: quiet_success_rate_def)
  ultimately have "runner_main args w = try_bind (flood_of args w) (\<lambda>noisy_stats. Inr (print_stats noisy_stats, print_stats ?stats, True, 0))"
    by (simp add: runner_main_def flood_of_def)
  moreover have "l_total (print_stats ?stats) = ?n" "l_success (print_stats ?stats) = ?n"
    by (simp_all add: l_total_length l_success_filter)
  moreover have "l_percent (print_stats ?stats) = 100"
    using calculation(2,3) \<open>1 \<le> ?n\<close> by (simp add: print_stats_def Let_def)
  ultimately show ?thesis by (intro exI [of _ "print_stats ?stats"]) simp
qed

text \<open>The default run, with a flood of sixty requests that are all turned away.\<close>

theorem quiet_workload_succeeds_witness:
  "\<exists>w noisy line. runner_main default_args w = Inr (noisy, line, True, 0)
     \<and> l_total noisy = 60 \<and> l_rate_limited noisy = 60 \<and> l_total line = 30 \<and> l_success line = 30"
proof -
  let ?other = "sample_ingest\<lparr>tenant_header := Some ''acme-corp''\<rparr>" and ?args = default_args
  have other: "header_tenant ?other = ''acme-corp''"
    by (simp add: sample_ingest_def header_tenant_def py_strip_def py_isspace_def Let_def)
  have ingests: "ingests sample_framework ''globex'' sample_ingest" by (simp add: ingests_def sample_ingest_facts)
  have args: "arg_quiet ?args = ''globex''" by (simp add: default_args_def)
  obtain s resp where run: "incident mem_exec mem_elapse (\<lambda>r. header_tenant r = ''globex'') (application sample_framework)
      (mem_at 0) (s, [(?other, application sample_framework ?other), (sample_ingest, Return resp)])" (is "incident _ _ _ _ _ (s, ?ts)")
    by (rule sample_incident)
  let ?w = "\<lparr>network = (\<lambda>_ tenant _ _. if tenant = ''acme-corp'' then answered (rate_limited_response tenant 1) else answered resp),
    clock_ns = (\<lambda>i. i), noisy_finish = (\<lambda>i. i), noisy_seconds = 0, quiet_finish = (\<lambda>i. i), quiet_seconds = 1\<rparr>"
  have net: "quiet_answers ?args ?w ?ts" unfolding quiet_answers_def
    by (intro allI impI exI [of _ sample_ingest] exI [of _ resp]) (simp add: default_args_def sample_ingest_facts)
  have t: "arg_quiet ?args \<noteq> []" and some: "0 < arg_quiet_requests ?args" "0 < arg_quiet_concurrency ?args"
    by (simp_all add: default_args_def)
  have quiet: "\<forall>(r, p) \<in> set ?ts. header_tenant r = arg_quiet ?args \<longrightarrow> ingests sample_framework (arg_quiet ?args) r"
    unfolding args using ingests by (simp add: other)
  have few: "of_nat (length (requests_of (arg_quiet ?args) ?ts))
      \<le> tenant_level (arg_quiet ?args) (mem_data (mem_at 0) (bucket_key (arg_quiet ?args))) (mem_clock (mem_at 0))"
    unfolding args by (simp add: other sample_ingest_facts sample_bucket)
  from quiet_workload_succeeds [OF mem.redis_server_axioms sample_framework_ok t run [folded args] sample_start quiet few net some]
  obtain line where l: "l_total line = 30" "l_success line = 30"
    and main: "runner_main ?args ?w = try_bind (flood_of ?args ?w) (\<lambda>noisy_stats. Inr (print_stats noisy_stats, line, True, 0))"
    by (auto simp: default_args_def)
  let ?x = "\<lparr>out_status = 429, out_kind = ''rate_limited'', error_body = Some (resp_content (rate_limited_response ''acme-corp'' 1))\<rparr>"
  have "post (answered (rate_limited_response ''acme-corp'' 1)) = Inr ?x"
    by (simp add: answered_def rate_limited_response_def parse_error_body_def classify_def)
  then have "flood_of ?args ?w = Inr \<lparr>stats_tenant = ''acme-corp'', stats_endpoint = ''/api/v1/billing/calculate'',
      outcomes = replicate 60 ?x, wall_clock_seconds = 0\<rparr>"
    using thread_pool_all [of 15 60 "\<lambda>_. post (answered (rate_limited_response ''acme-corp'' 1))" ?x "\<lambda>i. i"]
    by (simp add: flood_of_def flood_heavy_endpoint_def default_args_def)
  with main l show ?thesis
    by (intro exI [of _ ?w]) (simp add: print_stats_def Let_def get0_total get0_summary count_list_eq_length_filter)
qed

end
