(* ===== verification/Settings.thy ===== *)
theory Settings imports Redis_Client begin

text \<open>
  \<open>billing_platform/settings.py\<close>: the configuration Django reads, its dictionaries as data.
  The settings read from the environment are functions of it; how \<open>config\<close> casts a text to a
  boolean, and the directory of the repository, are arguments. The lemmas say that the
  settings refer only to what is there and carry what Django's admin documents as needed.
\<close>

type_synonym environ = "string \<Rightarrow> string option"

datatype failure = ImportError string | OtherFailure string

subsection \<open>Read from the environment\<close>

definition SECRET_KEY :: "environ \<Rightarrow> string" where
  "SECRET_KEY env =
    (case env ''DJANGO_SECRET_KEY'' of None \<Rightarrow> ''dev-insecure-secret-key-change-me'' | Some k \<Rightarrow> k)"

definition DEBUG :: "(string \<Rightarrow> failure + bool) \<Rightarrow> environ \<Rightarrow> failure + bool" where
  "DEBUG cast_bool env = (case env ''DJANGO_DEBUG'' of None \<Rightarrow> Inr True | Some v \<Rightarrow> cast_bool v)"

definition ALLOWED_HOSTS :: "string list" where
  "ALLOWED_HOSTS = [''*'']"

subsection \<open>The parts of the service\<close>

definition INSTALLED_APPS :: "string list" where
  "INSTALLED_APPS =
    [''django.contrib.admin'', ''django.contrib.auth'', ''django.contrib.contenttypes'',
     ''django.contrib.sessions'', ''django.contrib.messages'', ''django.contrib.staticfiles'',
     ''rest_framework'', ''billing'']"

definition MIDDLEWARE_NAMES :: "string list" where
  "MIDDLEWARE_NAMES =
    [''billing.interfaces.api.incoming.middleware.RateLimitMiddleware'',
     ''billing.interfaces.api.incoming.middleware.ConcurrencyMiddleware'',
     ''django.contrib.sessions.middleware.SessionMiddleware'',
     ''django.middleware.common.CommonMiddleware'',
     ''django.middleware.csrf.CsrfViewMiddleware'',
     ''django.contrib.auth.middleware.AuthenticationMiddleware'',
     ''django.contrib.messages.middleware.MessageMiddleware'']"

definition ROOT_URLCONF :: string where
  "ROOT_URLCONF = ''billing_platform.urls''"

definition WSGI_APPLICATION :: string where
  "WSGI_APPLICATION = ''billing_platform.wsgi.application''"

definition ASGI_APPLICATION :: string where
  "ASGI_APPLICATION = ''billing_platform.asgi.application''"

definition DEFAULT_AUTO_FIELD :: string where
  "DEFAULT_AUTO_FIELD = ''django.db.models.BigAutoField''"

definition USE_TZ :: bool where
  "USE_TZ = True"

definition TIME_ZONE :: string where
  "TIME_ZONE = ''UTC''"

definition STATIC_URL :: string where
  "STATIC_URL = ''/static/''"

subsection \<open>Dictionaries\<close>

definition TEMPLATES :: json where
  "TEMPLATES = JArr [JObj
    [(''BACKEND'', JStr ''django.template.backends.django.DjangoTemplates''),
     (''DIRS'', JArr []),
     (''APP_DIRS'', JBool True),
     (''OPTIONS'', JObj
       [(''context_processors'', JArr
          [JStr ''django.template.context_processors.request'',
           JStr ''django.contrib.auth.context_processors.auth'',
           JStr ''django.contrib.messages.context_processors.messages''])])]]"

text \<open>\<open>BASE_DIR / "db.sqlite3"\<close> is the path of the directory with the name appended.\<close>

definition DATABASES :: "string \<Rightarrow> json" where
  "DATABASES BASE_DIR = JObj [(''default'', JObj
    [(''ENGINE'', JStr ''django.db.backends.sqlite3''), (''NAME'', JStr (BASE_DIR @ ''/db.sqlite3''))])]"

definition REST_FRAMEWORK :: json where
  "REST_FRAMEWORK = JObj
    [(''DEFAULT_RENDERER_CLASSES'', JArr [JStr ''rest_framework.renderers.JSONRenderer'']),
     (''DEFAULT_PARSER_CLASSES'', JArr [JStr ''rest_framework.parsers.JSONParser'']),
     (''UNAUTHENTICATED_USER'', JNull)]"

definition LOGGING :: json where
  "LOGGING = JObj
    [(''version'', JNum 1),
     (''disable_existing_loggers'', JBool False),
     (''formatters'', JObj [(''kv'', JObj
       [(''format'', JStr ''[%(asctime)s] level=%(levelname)s logger=%(name)s %(message)s'')])]),
     (''handlers'', JObj [(''console'', JObj
       [(''class'', JStr ''logging.StreamHandler''), (''formatter'', JStr ''kv'')])]),
     (''root'', JObj [(''handlers'', JArr [JStr ''console'']), (''level'', JStr ''INFO'')])]"

subsection \<open>The settings fit together\<close>

fun item :: "json \<Rightarrow> string \<Rightarrow> json" where
  "item (JObj d) k = (case map_of d k of None \<Rightarrow> JNull | Some v \<Rightarrow> v)"
| "item _ k = JNull"

fun entries :: "json \<Rightarrow> (string \<times> json) list" where
  "entries (JObj d) = d"
| "entries _ = []"

fun elements :: "json \<Rightarrow> json list" where
  "elements (JArr xs) = xs"
| "elements _ = []"

text \<open>
  A logging configuration is closed if the root logger names handlers it defines, and they
  formatters it defines.
\<close>

definition logging_closed :: "json \<Rightarrow> bool" where
  "logging_closed d \<longleftrightarrow>
     list_all (\<lambda>h. h \<in> JStr ` fst ` set (entries (item d ''handlers''))) (elements (item (item d ''root'') ''handlers'')) \<and>
     list_all (\<lambda>(_, h). item h ''formatter'' \<in> JStr ` fst ` set (entries (item d ''formatters''))) (entries (item d ''handlers''))"

text \<open>What the documentation of Django's admin asks of a project.\<close>

definition admin_ready :: "string list \<Rightarrow> string list \<Rightarrow> json \<Rightarrow> bool" where
  "admin_ready apps middleware templates \<longleftrightarrow>
     list_all (\<lambda>a. ''django.contrib.'' @ a \<in> set apps) [''admin'', ''auth'', ''contenttypes'', ''sessions'', ''messages''] \<and>
     list_all (\<lambda>m. ''django.contrib.'' @ m \<in> set middleware)
       [''sessions.middleware.SessionMiddleware'', ''auth.middleware.AuthenticationMiddleware'',
        ''messages.middleware.MessageMiddleware''] \<and>
     list_ex (\<lambda>t. item t ''BACKEND'' = JStr ''django.template.backends.django.DjangoTemplates'' \<and>
       list_all (\<lambda>c. JStr c \<in> set (elements (item (item t ''OPTIONS'') ''context_processors'')))
         [''django.template.context_processors.request'', ''django.contrib.auth.context_processors.auth'',
          ''django.contrib.messages.context_processors.messages'']) (elements templates)"

text \<open>An entry of a list comes before another.\<close>

definition before :: "'a \<Rightarrow> 'a \<Rightarrow> 'a list \<Rightarrow> bool" where
  "before x y zs \<longleftrightarrow> x \<in> set (takeWhile (\<lambda>z. z \<noteq> y) zs) \<and> y \<in> set zs"

lemma settings_fit_together:
  "logging_closed LOGGING" "admin_ready INSTALLED_APPS MIDDLEWARE_NAMES TEMPLATES"
  "distinct MIDDLEWARE_NAMES" "distinct INSTALLED_APPS"
  "before ''django.contrib.sessions.middleware.SessionMiddleware''
     ''django.contrib.auth.middleware.AuthenticationMiddleware'' MIDDLEWARE_NAMES"
  "elements (item REST_FRAMEWORK ''DEFAULT_PARSER_CLASSES'') = [JStr ''rest_framework.parsers.JSONParser'']"
  "elements (item REST_FRAMEWORK ''DEFAULT_RENDERER_CLASSES'') = [JStr ''rest_framework.renderers.JSONRenderer'']"
  by (simp_all add: logging_closed_def LOGGING_def admin_ready_def TEMPLATES_def REST_FRAMEWORK_def before_def
      INSTALLED_APPS_def MIDDLEWARE_NAMES_def)

end
