(* ===== verification/Entry_Points.thy ===== *)
theory Entry_Points imports Settings "HOL-Library.Sublist" begin

text \<open>
  How a process of the service starts: \<open>manage.py\<close>, \<open>billing_platform/wsgi.py\<close> and
  \<open>billing_platform/asgi.py\<close>, the names in \<open>billing_platform/settings.py\<close> and
  \<open>billing/apps.py\<close> that tie them together, and the two \<open>conftest.py\<close> that point the tests
  to a database of their own. The environment is a map; what Django does with it is an
  argument. The lemmas say what a process is configured with, and what the guard of the
  tests lets through.
\<close>

text \<open>\<open>os.environ.setdefault(k, v)\<close>\<close>

definition setdefault :: "string \<Rightarrow> string \<Rightarrow> environ \<Rightarrow> environ" where
  "setdefault k v env = (case env k of None \<Rightarrow> env(k \<mapsto> v) | Some _ \<Rightarrow> env)"

definition with_settings :: "environ \<Rightarrow> environ" where
  "with_settings = setdefault ''DJANGO_SETTINGS_MODULE'' ''billing_platform.settings''"

subsection \<open>The entry points\<close>

definition import_advice :: string where
  "import_advice = ''Couldn't import Django. Is it installed and available on your PYTHONPATH? Did you forget to activate a virtualenv?''"

text \<open>
  \<open>main\<close> of \<open>manage.py\<close>: \<open>management\<close> is what the import of Django's command line gives, a
  failure or the function \<open>execute_from_command_line\<close>, which reads the environment.
\<close>

definition manage_main :: "(failure + (environ \<Rightarrow> string list \<Rightarrow> failure + 'r)) \<Rightarrow> string list \<Rightarrow> environ \<Rightarrow> (failure + 'r) \<times> environ" where
  "manage_main management argv env =
     (let env = with_settings env in
      case management of
        Inl (ImportError _) \<Rightarrow> (Inl (ImportError import_advice), env)
      | Inl e \<Rightarrow> (Inl e, env)
      | Inr execute_from_command_line \<Rightarrow> (execute_from_command_line env argv, env))"

definition wsgi :: "(environ \<Rightarrow> 'app) \<Rightarrow> environ \<Rightarrow> 'app \<times> environ" where
  "wsgi get_wsgi_application env = (let env = with_settings env in (get_wsgi_application env, env))"

definition asgi :: "(environ \<Rightarrow> 'app) \<Rightarrow> environ \<Rightarrow> 'app \<times> environ" where
  "asgi get_asgi_application env = (let env = with_settings env in (get_asgi_application env, env))"

subsection \<open>The app\<close>

record app_config =
  default_auto_field :: string
  app_name :: string

definition BillingConfig :: app_config where
  "BillingConfig = \<lparr>default_auto_field = ''django.db.models.BigAutoField'', app_name = ''billing''\<rparr>"

text \<open>
  The two module files differ only in the Django function they call. Every entry point leaves
  the environment with the settings of this repository, unless it named others before, and
  otherwise as it was, so all processes use the same Redis.
\<close>

lemma entry_points_environment:
  "snd (wsgi app env) = with_settings env" "snd (asgi app env) = with_settings env"
  "snd (manage_main management argv env) = with_settings env"
  by (simp_all add: wsgi_def asgi_def manage_main_def Let_def split: sum.split failure.split)

lemma with_settings_redis: "REDIS_URL (with_settings env) = REDIS_URL env"
  by (simp add: with_settings_def setdefault_def REDIS_URL_def split: option.split)

subsection \<open>The tests\<close>

text \<open>\<open>conftest.py\<close>: \<open>os.environ["REDIS_URL"] = os.environ.get("TEST_REDIS_URL", ...)\<close>\<close>

definition TEST_REDIS_URL :: "environ \<Rightarrow> string" where
  "TEST_REDIS_URL env = (case env ''TEST_REDIS_URL'' of None \<Rightarrow> ''redis://localhost:6379/15'' | Some u \<Rightarrow> u)"

definition conftest :: "environ \<Rightarrow> environ" where
  "conftest env = env(''REDIS_URL'' \<mapsto> TEST_REDIS_URL env)"

text \<open>\<open>url.rsplit("?", 1)[0]\<close>\<close>

definition before_last :: "char \<Rightarrow> string \<Rightarrow> string" where
  "before_last c s = (if c \<in> set s then rev (tl (dropWhile (\<lambda>x. x \<noteq> c) (rev s))) else s)"

definition assert_test_db :: "string \<Rightarrow> bool" where
  "assert_test_db url \<longleftrightarrow> suffix ''/15'' url \<or> sublist ''/15'' (before_last (CHR ''?'') url)"

text \<open>The start of every test: the client is forgotten, and the database is checked before it is flushed.\<close>

definition test_setup :: "environ \<Rightarrow> client_cache \<Rightarrow> (failure + redis_client) \<times> client_cache" where
  "test_setup env p =
     (let p = cache_clear p; url = REDIS_URL env in
      if assert_test_db url
      then (Inr (from_url env p), p\<lparr>built := Suc (built p)\<rparr>)
      else (Inl (OtherFailure ''AssertionError''), p))"

lemma before_last_keeps: "c \<notin> set rest \<Longrightarrow> before_last c (s @ c # rest) = s"
proof -
  assume "c \<notin> set rest"
  then have "dropWhile (\<lambda>x. x \<noteq> c) (rev rest @ c # rev s) = c # rev s"
    by (subst dropWhile_append2) auto
  then show ?thesis by (simp add: before_last_def)
qed

text \<open>
  C38. The tests stay off the live store, up to a gap in their guard. Whatever \<open>REDIS_URL\<close> a
  developer has set, the tests flush, and the code under test then uses, the database of
  \<open>TEST_REDIS_URL\<close> or else number 15; a URL without \<open>/15\<close> stops them before anything is
  flushed. But the guard looks for the text \<open>/15\<close> only: it lets through any database whose
  number begins with 15 (150, say), and any URL whose query ends in \<open>/15\<close>.
\<close>

theorem tests_stay_off_the_live_store:
  "REDIS_URL (conftest env) = TEST_REDIS_URL env
   \<and> (\<not> sublist ''/15'' (TEST_REDIS_URL env) \<longrightarrow>
        test_setup (conftest env) p = (Inl (OtherFailure ''AssertionError''), cache_clear p))
   \<and> (\<forall>c q. test_setup (conftest env) p = (Inr c, q) \<longrightarrow> client_url c = TEST_REDIS_URL env
        \<and> (\<exists>d. fst (get_redis_client (conftest env) q) = Got d \<and> client_url d = TEST_REDIS_URL env))
   \<and> assert_test_db (host @ ''/15'')
   \<and> assert_test_db ''redis://localhost:6379/150'' \<and> assert_test_db (host @ ''/0?name=/15'')"
proof -
  have url: "REDIS_URL (conftest env) = TEST_REDIS_URL env" by (simp add: conftest_def REDIS_URL_def)
  have "sublist (before_last c s) s" for c s
  proof (cases "c \<in> set s")
    case True
    then obtain a b where "s = a @ c # b" "c \<notin> set b" by (meson split_list_last)
    then show ?thesis by (simp add: before_last_keeps)
  qed (simp add: before_last_def)
  then have "sublist ''/15'' u" if "assert_test_db u" for u
    using that suffix_imp_sublist sublist_order.order_trans unfolding assert_test_db_def by metis
  then have stops: "\<not> sublist ''/15'' (TEST_REDIS_URL env) \<Longrightarrow>
      test_setup (conftest env) p = (Inl (OtherFailure ''AssertionError''), cache_clear p)"
    by (auto simp: test_setup_def Let_def url)
  have "client_url c = TEST_REDIS_URL env \<and> (\<exists>d. fst (get_redis_client (conftest env) q) = Got d \<and> client_url d = TEST_REDIS_URL env)"
    if "test_setup (conftest env) p = (Inr c, q)" for c q
    using that by (auto simp: test_setup_def Let_def url from_url_def cache_clear_def get_redis_client_def lookup_client_def
        store_client_def split: if_splits)
  moreover have "assert_test_db (host @ ''/15'')" by (simp add: assert_test_db_def suffix_def)
  moreover have "assert_test_db ''redis://localhost:6379/150''" by code_simp
  moreover have "assert_test_db (host @ ''/0?name=/15'')" by (simp add: assert_test_db_def suffix_def)
  ultimately show ?thesis using url stops by blast
qed

theorem tests_stay_off_the_live_store_witness:
  "fst (test_setup (conftest [''REDIS_URL'' \<mapsto> ''redis://prod:6379/0'', ''TEST_REDIS_URL'' \<mapsto> ''redis://prod:6379/0''])
     \<lparr>cached = None, built = 0\<rparr>) = Inl (OtherFailure ''AssertionError'')"
proof -
  let ?env = "[''REDIS_URL'' \<mapsto> ''redis://prod:6379/0'', ''TEST_REDIS_URL'' \<mapsto> ''redis://prod:6379/0''] :: environ"
  have "TEST_REDIS_URL ?env = ''redis://prod:6379/0''" by (simp add: TEST_REDIS_URL_def)
  moreover have "\<not> sublist ''/15'' ''redis://prod:6379/0''" by code_simp
  ultimately show ?thesis
    using tests_stay_off_the_live_store [of ?env "\<lparr>cached = None, built = 0\<rparr>" "[]"] by simp
qed

end
