(* ===== verification/Observed.thy ===== *)
theory Observed imports In_Flight Histories begin

text \<open>
  Runs of the service in which every thread is watched together with the request it serves
  and with a note whether a gate failed it. \<open>turn\<close> is one move of one thread, with the call
  it made and the reply it saw. In an \<open>observed\<close> run a thread that asks its gate and sees an
  error instead of a decision is marked from then on: these are the requests that the gates
  let through because they fail open. The runs are those of \<open>In_Flight\<close> with names and
  marks added, so what holds of the one holds of the other.
\<close>

subsection \<open>Threads with names and marks\<close>

inductive turn :: "'s exec \<Rightarrow> 's \<times> string set \<times> 'a prog \<Rightarrow> move \<Rightarrow> (call \<times> reply) option
    \<Rightarrow> 's \<times> string set \<times> 'a prog \<Rightarrow> bool" for ex where
  delivered: "serve ex c s = (r, s') \<Longrightarrow> turn ex (s, U, Call c f) Delivers (Some (c, r)) (s', U, f r)"
| unsent: "turn ex (s, U, Call c f) Unsends (Some (c, RError e)) (s, U, f (RError e))"
| lost: "serve ex c s = (r, s') \<Longrightarrow> turn ex (s, U, Call c f) Loses (Some (c, RError e)) (s', U, f (RError e))"
| reads_clock: "turn ex (s, U, Now f) (Read t) None (s, U, f t)"
| draws_uuid: "turn ex (s, U, Uuid4 f) (Draw u) None (s, insert u U, f u)"
| dies: "turn ex (s, U, p) Dies None (s, U, Raise e)"

type_synonym ('q, 'a) observed_thread = "'q \<times> bool \<times> int \<times> 'a prog"

type_synonym ('s, 'q, 'a) scene = "'s \<times> string set \<times> ('q, 'a) observed_thread list"

fun bare :: "('s, 'q, 'a) scene \<Rightarrow> ('s, 'a) watched" where
  "bare (s, U, ts) = (s, U, map (\<lambda>th. snd (snd th)) ts)"

fun gate_failed :: "('q, 'a) observed_thread \<Rightarrow> bool" where
  "gate_failed (x, failed, a, p) = failed"

definition gate_fails :: "('q \<Rightarrow> call \<Rightarrow> bool) \<Rightarrow> 'q \<Rightarrow> (call \<times> reply) option \<Rightarrow> bool" where
  "gate_fails gate x seen \<longleftrightarrow> (\<exists>c e. seen = Some (c, RError e) \<and> gate x c)"

inductive observed :: "(('s, 'a) watched \<Rightarrow> move \<Rightarrow> bool) \<Rightarrow> 's exec \<Rightarrow> (nat \<Rightarrow> 's \<Rightarrow> 's) \<Rightarrow> ('s \<Rightarrow> int)
    \<Rightarrow> ('q \<Rightarrow> call \<Rightarrow> bool) \<Rightarrow> ('q \<Rightarrow> 'a prog) \<Rightarrow> 's \<Rightarrow> ('s, 'q, 'a) scene \<Rightarrow> bool"
  for ok ex elapse clock gate body s0 where
  start: "observed ok ex elapse clock gate body s0 (s0, {}, [])"
| turns: "observed ok ex elapse clock gate body s0 (s, U, ts) \<Longrightarrow> i < length ts \<Longrightarrow> ts ! i = (x, b, a, p) \<Longrightarrow>
     ok (bare (s, U, ts)) m \<Longrightarrow> turn ex (s, U, p) m seen (s', U', q) \<Longrightarrow>
     observed ok ex elapse clock gate body s0 (s', U', ts[i := (x, b \<or> gate_fails gate x seen, a, q)])"
| arrives: "observed ok ex elapse clock gate body s0 (s, U, ts) \<Longrightarrow> ok (bare (s, U, ts)) Arrive \<Longrightarrow>
     observed ok ex elapse clock gate body s0 (s, U, ts @ [(x, False, clock s, body x)])"
| passes: "observed ok ex elapse clock gate body s0 (s, U, ts) \<Longrightarrow> ok (bare (s, U, ts)) (Passes d) \<Longrightarrow>
     observed ok ex elapse clock gate body s0 (elapse d s, U, ts)"

inductive_cases turn_call: "turn ex (s, U, Call c f) m seen (s', U', q)"

lemmas turn_call_cases = turn_call [consumes 1, case_names delivered unsent lost dies]

lemma turn_step:
  assumes "turn ex (s, U, p) m seen (s', U', q)" and "i < length ps" and "ps ! i = (a, p)"
  shows "watch_step ex elapse clock req (s, U, ps) m (s', U', ps[i := (a, q)])"
  using assms by (auto elim!: turn.cases intro: watch_step.intros)

lemma observed_watched:
  assumes "observed ok ex elapse clock gate body s0 cf"
  shows "watch_reach ok ex elapse clock (range body) s0 (bare cf)"
  using assms
proof (induction rule: observed.induct)
  case start
  show ?case by (simp add: watch_reach.start)
next
  case (turns s U ts i x b a p m seen s' U' q)
  then have "watch_step ex elapse clock (range body) (bare (s, U, ts)) m
      (s', U', (map (\<lambda>th. snd (snd th)) ts)[i := (a, q)])" by (auto intro!: turn_step)
  from watch_reach.step [OF turns.IH turns.hyps(4) this] show ?case by (simp add: map_update)
next
  case (arrives s U ts x)
  from watch_step.arrives [of "body x" "range body" ex elapse clock s U "map (\<lambda>th. snd (snd th)) ts"]
  have "watch_step ex elapse clock (range body) (bare (s, U, ts)) Arrive
      (bare (s, U, ts @ [(x, False, clock s, body x)]))" by simp
  from watch_reach.step [OF arrives.IH arrives.hyps(2) this] show ?case .
next
  case (passes s U ts d)
  have "watch_step ex elapse clock (range body) (bare (s, U, ts)) (Passes d) (bare (elapse d s, U, ts))"
    by (simp add: watch_step.passes)
  from watch_reach.step [OF passes.IH passes.hyps(2) this] show ?case .
qed

text \<open>What a program of one thread does is a part of an observed run.\<close>

lemma observed_alone:
  assumes "observed ok ex elapse clock gate body s0 (s, U, [(x, b, a, p)])" and "turn ex (s, U, p) m seen (s', U', q)"
    and "ok (s, U, [(a, p)]) m"
  shows "observed ok ex elapse clock gate body s0 (s', U', [(x, b \<or> gate_fails gate x seen, a, q)])"
  using observed.turns [OF assms(1), where i = 0, OF _ _ _ assms(2)] assms(3) by simp

lemma observed_first:
  assumes "ok (s0, {}, []) Arrive"
  shows "observed ok ex elapse clock gate body s0 (s0, {}, [(x, False, clock s0, body x)])"
  using observed.arrives [OF observed.start] assms by fastforce

subsection \<open>The two gates in the program of a request\<close>

text \<open>The application behind the rate gate.\<close>

definition behind_gate :: "'b framework \<Rightarrow> 'b handler" where
  "behind_gate fw r = catch (converted fw (concurrency_middleware (converted fw (converted fw (route fw)))) r)
     (\<lambda>e. Return (fw_on_error fw e))"

lemma unguarded_application:
  "framework_ok fw \<Longrightarrow> \<not> should_guard r \<or> header_tenant r = [] \<Longrightarrow> application fw r = behind_gate fw r"
  by (simp add: application_transparent behind_gate_def converted_def [of _ "rate_limit_middleware _"] rate_limit_passes)

lemma guarded_application:
  assumes fw: "framework_ok fw" and g: "should_guard r" "header_tenant r = t" "t \<noteq> []"
  obtains k where "application fw r = Call (draw_call t (of_int (cost_of (req_path r)))) k"
    and "\<And>e. k (RError e) = behind_gate fw r"
    and "\<And>rep. k rep = behind_gate fw r \<or> ended (k rep)"
    and "\<And>lvl. k (bucket_reply lvl (of_int (cost_of (req_path r))) (plan_rate t)) =
      (if of_int (cost_of (req_path r)) \<le> lvl then behind_gate fw r
       else Return (rate_limited_response t (max 1 \<lceil>(of_int (cost_of (req_path r)) - lvl) / plan_rate t\<rceil>)))"
proof -
  let ?c = "of_int (cost_of (req_path r)) :: rat"
  let ?b = "converted fw (concurrency_middleware (converted fw (converted fw (route fw)))) r"
  let ?d = "\<lambda>decision. \<lparr>rl_allowed = allowed decision, rl_tokens_remaining = tokens_remaining decision,
    rl_retry_after_seconds = retry_after_seconds decision, rl_tenant_id = t, rl_endpoint = req_path r,
    rl_cost = cost_of (req_path r)\<rparr>"
  let ?k = "\<lambda>rep. catch (try_else (bnd (bnd (case rep of RError e \<Rightarrow> Raise (RedisError e) | _ \<Rightarrow> Return rep)
      (\<lambda>raw. lift_exn (bucket_decision raw))) (\<lambda>decision. Return (?d decision)))
    (\<lambda>e. ?b) (\<lambda>d. if rl_allowed d then ?b else reject d)) (\<lambda>e. Return (fw_on_error fw e))"
  have "application fw r = Call (draw_call t ?c) ?k"
    unfolding application_transparent [OF fw]
    by (simp add: converted_def [of _ "rate_limit_middleware _"] rate_limit_guarded g check_and_consume_def consume_def
        plan_for_limits redis_py_def draw_call_def Let_def)
  moreover have "?k (RError e) = behind_gate fw r" for e by (simp add: behind_gate_def)
  moreover have "?k rep = behind_gate fw r \<or> ended (?k rep)" for rep
  proof (cases "\<exists>e. rep = RError e")
    case False
    then have "(case rep of RError e \<Rightarrow> Raise (RedisError e) | _ \<Rightarrow> Return rep) = Return rep" by (cases rep) auto
    moreover have "ended (catch (reject d) (\<lambda>e. Return (fw_on_error fw e)))" for d
      by (cases "math_ceil (rl_retry_after_seconds d)") (simp_all add: reject_def Let_def)
    ultimately show ?thesis by (cases "bucket_decision rep") (simp_all add: behind_gate_def)
  qed (auto simp: behind_gate_def)
  moreover have "?k (bucket_reply lvl ?c (plan_rate t)) = (if ?c \<le> lvl then behind_gate fw r
      else Return (rate_limited_response t (max 1 \<lceil>(?c - lvl) / plan_rate t\<rceil>)))" for lvl
  proof -
    have d: "?d (decision_at lvl (requests_per_second (limits_of t)) (cost_of (req_path r))) = rate_decision t (req_path r) lvl"
      by (simp add: rate_decision_def Let_def)
    have "(case bucket_reply lvl ?c (plan_rate t) of RError e \<Rightarrow> Raise (RedisError e)
        | _ \<Rightarrow> Return (bucket_reply lvl ?c (plan_rate t))) = Return (bucket_reply lvl ?c (plan_rate t))"
      by (simp add: bucket_reply_def)
    moreover have "bucket_decision (bucket_reply lvl ?c (plan_rate t))
        = Inr (decision_at lvl (requests_per_second (limits_of t)) (cost_of (req_path r)))"
      using bucket_decision_reply [of lvl "cost_of (req_path r)" "requests_per_second (limits_of t)"] by simp
    moreover have "rl_allowed (rate_decision t (req_path r) lvl) \<longleftrightarrow> ?c \<le> lvl" by (simp add: rate_decision_allowed)
    ultimately show ?thesis by (simp add: d reject_decision behind_gate_def)
  qed
  ultimately show ?thesis by (rule that)
qed

end
