(* ===== verification/Heavy_Work.thy ===== *)
theory Heavy_Work imports Observed begin

text \<open>
  How many heavy requests of a tenant are at work at a time. A request is at work once it has
  passed its gates and until it has answered: its program is not over and will not ask for a
  slot any more. \<open>gated\<close> follows a heavy request up to the answer of the semaphore, and
  \<open>section\<close> what the answer lets it do: to end, or to run and give the slot back on every path. So a
  request at work either holds a slot, and those are at most the cap, or was let
  through because its gate failed.
\<close>

subsection \<open>Up to the gate and behind it\<close>

definition asks :: "string \<Rightarrow> int \<Rightarrow> call \<Rightarrow> bool" where
  "asks k cap c \<longleftrightarrow> (\<exists>sc old x. c = Eval (acquire_lua k cap sc old x SLOT_TTL_SECONDS))"

primrec asks_ahead :: "string \<Rightarrow> int \<Rightarrow> 'a prog \<Rightarrow> bool" where
  "asks_ahead k cap (Return y) = False"
| "asks_ahead k cap (Raise e) = False"
| "asks_ahead k cap (Call c f) = (asks k cap c \<or> (\<exists>r. asks_ahead k cap (f r)))"
| "asks_ahead k cap (Now f) = (\<exists>t. asks_ahead k cap (f t))"
| "asks_ahead k cap (Uuid4 f) = (\<exists>u. asks_ahead k cap (f u))"

primrec guarded_by :: "string \<Rightarrow> string \<Rightarrow> 'a prog \<Rightarrow> bool" where
  "guarded_by k x (Return y) = True"
| "guarded_by k x (Raise e) = True"
| "guarded_by k x (Call c f) = (must_release k x (Call c f) \<and> (\<forall>r. guarded_by k x (f r)))"
| "guarded_by k x (Now f) = (must_release k x (Now f) \<and> (\<forall>t. guarded_by k x (f t)))"
| "guarded_by k x (Uuid4 f) = (must_release k x (Uuid4 f) \<and> (\<forall>u. guarded_by k x (f u)))"

definition in_section :: "string \<Rightarrow> 'a prog \<Rightarrow> bool" where
  "in_section k p \<longleftrightarrow> (\<exists>x. guarded_by k x p)"

primrec gated :: "string \<Rightarrow> int \<Rightarrow> 'a prog \<Rightarrow> bool" where
  "gated k cap (Return y) = True"
| "gated k cap (Raise e) = True"
| "gated k cap (Call c f) = (asks_ahead k cap (Call c f) \<and>
     (if asks k cap c then \<forall>live. in_section k (f (acquire_reply cap live)) else \<forall>r. gated k cap (f r)))"
| "gated k cap (Now f) = (asks_ahead k cap (Now f) \<and> (\<forall>t. gated k cap (f t)))"
| "gated k cap (Uuid4 f) = (asks_ahead k cap (Uuid4 f) \<and> (\<forall>u. gated k cap (f u)))"

lemma gated_asks: "gated k cap p \<Longrightarrow> ended p \<or> asks_ahead k cap p"
  by (cases p) auto

lemma section_releases: "in_section k p \<Longrightarrow> ended p \<or> holds_slot k p"
  unfolding in_section_def holds_slot_def by (cases p) auto

lemma ended_in_section: "ended p \<Longrightarrow> in_section k p"
  unfolding in_section_def by (cases p) auto

text \<open>One move of a thread.\<close>

lemma section_turn:
  assumes "in_section k p" and "turn ex (s, U, p) m seen (s', U', q)"
  shows "in_section k q"
  using assms(2,1) by cases (auto simp: in_section_def)

lemma gated_turn:
  assumes "gated k cap p" and "turn ex (s, U, p) m seen (s', U', q)"
    and "\<nexists>c e. seen = Some (c, RError e) \<and> asks k cap c"
    and "\<And>c r s''. asks k cap c \<Longrightarrow> serve ex c s = (r, s'') \<Longrightarrow> \<exists>live. r = acquire_reply cap live"
  shows "gated k cap q \<or> in_section k q"
  using assms(2,1)
proof cases
  case (delivered c r f)
  show ?thesis
  proof (cases "asks k cap c")
    case True
    moreover from delivered have "serve ex c s = (r, s')" by simp
    ultimately obtain live where "r = acquire_reply cap live" using assms(4) by blast
    with True delivered assms(1) show ?thesis by simp
  next
    case False
    with delivered assms(1) show ?thesis by simp
  qed
next
  case (unsent c e f)
  with assms(1,3) show ?thesis by auto
next
  case (lost c r f e)
  with assms(1,3) show ?thesis by auto
qed auto

subsection \<open>The application\<close>

lemma must_release_catch: "must_release k x p \<Longrightarrow> must_release k x (catch p h)"
  by (induction p) auto

lemma asks_ahead_catch: "asks_ahead k cap p \<Longrightarrow> asks_ahead k cap (catch p h)"
  by (induction p) auto

lemma section_catch: "guarded_by k x p \<Longrightarrow> guarded_by k x (catch p (\<lambda>e. Return (g e)))"
proof (induction p)
  case (Call c f)
  then show ?case using must_release_catch [of k x "Call c f"] by auto
next
  case (Now f)
  then show ?case using must_release_catch [of k x "Now f"] by auto
next
  case (Uuid4 f)
  then show ?case using must_release_catch [of k x "Uuid4 f"] by auto
qed simp_all

lemma in_section_catch: "in_section k p \<Longrightarrow> in_section k (catch p (\<lambda>e. Return (g e)))"
  unfolding in_section_def using section_catch by blast

lemma gated_catch: "gated k cap p \<Longrightarrow> gated k cap (catch p (\<lambda>e. Return (g e)))"
proof (induction p)
  case (Call c f)
  then show ?case using asks_ahead_catch [of k cap "Call c f"] by (auto intro: in_section_catch)
next
  case (Now f)
  then show ?case using asks_ahead_catch [of k cap "Now f"] by auto
next
  case (Uuid4 f)
  then show ?case using asks_ahead_catch [of k cap "Uuid4 f"] by auto
qed simp_all

lemma section_finally:
  assumes "quiet k p"
  shows "guarded_by k x (finally_do p (catch (release k x) (\<lambda>e. Return ())))"
  using assms
proof (induction p)
  case (Return y)
  show ?case by (simp only: finally_do.simps release_program guarded_by.simps must_release.simps simp_thms)
next
  case (Raise e)
  show ?case by (simp only: finally_do.simps release_program guarded_by.simps must_release.simps simp_thms)
next
  case (Call c f)
  then show ?case using guarded_section(2) [OF Call.prems, of x] by simp
next
  case (Now f)
  then show ?case using guarded_section(2) [OF Now.prems, of x] by simp
next
  case (Uuid4 f)
  then show ?case using guarded_section(2) [OF Uuid4.prems, of x] by simp
qed

lemma gate_is_gated:
  assumes heavy: "req_path r \<in> set HEAVY_ENDPOINTS" and t: "header_tenant r = t" "t \<noteq> []"
    and q: "quiet (concurrency_key t) (h r)"
  shows "gated (concurrency_key t) (concurrency_cap t) (concurrency_middleware h r)"
    and "\<not> ended (concurrency_middleware h r)"
proof -
  let ?k = "concurrency_key t" and ?cap = "concurrency_cap t"
  have ne: "header_tenant r \<noteq> []" using t by simp
  have served: "in_section ?k (case acquire_reply ?cap live of RError e \<Rightarrow> h r
      | _ \<Rightarrow> (case slot_handle x (acquire_reply ?cap live) of Inl e \<Rightarrow> h r
        | Inr sh \<Rightarrow> if \<not> admitted sh then Return (concurrency_limit_response t (in_flight sh) ?cap)
            else finally_do (h r) (catch (release ?k (slot_id sh)) (\<lambda>e. Return ()))))" for live x
  proof -
    have "slot_handle x (acquire_reply ?cap live) = Inr \<lparr>admitted = (int (length live) < ?cap), slot_id = x,
        in_flight = int (length live) + (if int (length live) < ?cap then 1 else 0)\<rparr>"
      by (rule slot_handle_reply)
    then show ?thesis using section_finally [OF q]
      by (cases "acquire_reply ?cap live") (auto simp: acquire_reply_no_error in_section_def)
  qed
  have asks: "asks ?k ?cap (Eval (acquire_lua ?k ?cap sc old x SLOT_TTL_SECONDS))" for sc old x
    by (auto simp: asks_def)
  show "gated ?k ?cap (concurrency_middleware h r)"
    unfolding concurrency_guarded [OF heavy ne] acquire_program t(1)
    by (simp add: asks served)
  show "\<not> ended (concurrency_middleware h r)"
    unfolding concurrency_guarded [OF heavy ne] acquire_program by simp
qed

lemma draw_asks_not: "\<not> asks k cap (draw_call t y)"
  by (simp add: asks_def draw_call_def token_bucket_lua_def acquire_lua_def)

lemma application_gated:
  assumes fw: "framework_ok fw" and heavy: "req_path r \<in> set HEAVY_ENDPOINTS" and t: "header_tenant r = t" "t \<noteq> []"
  shows "gated (concurrency_key t) (concurrency_cap t) (application fw r)"
proof -
  let ?k = "concurrency_key t" and ?cap = "concurrency_cap t"
  let ?inner = "converted fw (converted fw (route fw))"
  have "quiet ?k (?inner r)" by (intro converted_calls route_quiet [OF fw])
  note gate = gate_is_gated [where h = ?inner, OF heavy t this]
  have behind: "gated ?k ?cap (behind_gate fw r)"
    unfolding behind_gate_def converted_def [of _ "concurrency_middleware _"] by (intro gated_catch gate(1))
  from gated_asks [OF gate(1)] gate(2) have ahead: "asks_ahead ?k ?cap (behind_gate fw r)"
    unfolding behind_gate_def converted_def [of _ "concurrency_middleware _"] by (intro asks_ahead_catch) simp
  have "should_guard r" using heavy by (auto simp: should_guard_def API_PREFIX_def HEAVY_ENDPOINTS_def)
  then obtain k where app: "application fw r = Call (draw_call t (of_int (cost_of (req_path r)))) k"
    and err: "\<And>e. k (RError e) = behind_gate fw r" and all: "\<And>rep. k rep = behind_gate fw r \<or> ended (k rep)"
    by (rule guarded_application [OF fw _ t]) blast
  have "gated ?k ?cap (k rep)" for rep
    using all [of rep] behind by (cases "k rep") auto
  moreover have "\<exists>rep. asks_ahead ?k ?cap (k rep)" using ahead err by metis
  ultimately show ?thesis by (simp add: app draw_asks_not)
qed

subsection \<open>The heavy requests at work\<close>

definition asks_gate :: "'b HttpRequest \<Rightarrow> call \<Rightarrow> bool" where
  "asks_gate r = asks (concurrency_key (header_tenant r)) (concurrency_cap (header_tenant r))"

definition heavy_of :: "string \<Rightarrow> 'b HttpRequest \<Rightarrow> bool" where
  "heavy_of t r \<longleftrightarrow> header_tenant r = t \<and> req_path r \<in> set HEAVY_ENDPOINTS"

fun at_work :: "string \<Rightarrow> ('b HttpRequest, 'a) observed_thread \<Rightarrow> bool" where
  "at_work t (r, failed, a, p) \<longleftrightarrow>
     heavy_of t r \<and> \<not> ended p \<and> \<not> asks_ahead (concurrency_key t) (concurrency_cap t) p"

lemma call_asks_not: "call_cmds (\<lambda>x. key_of x \<noteq> Some k) c \<Longrightarrow> \<not> asks k cap c"
  by (auto simp: asks_def dest: acquire_lua_names)

lemma quiet_asks_not: "quiet k p \<Longrightarrow> \<not> asks_ahead k cap p"
proof (induction p)
  case (Call c f)
  then have "\<not> asks k cap c" by (intro call_asks_not) simp
  with Call show ?case by auto
qed auto

lemma section_asks_not:
  assumes "quiet k p"
  shows "\<not> asks_ahead k cap (finally_do p (catch (release k x) (\<lambda>e. Return ())))"
  using assms
proof (induction p)
  case (Return y)
  show ?case by (simp only: finally_do.simps release_program) (simp add: asks_def)
next
  case (Raise e)
  show ?case by (simp only: finally_do.simps release_program) (simp add: asks_def)
next
  case (Call c f)
  then have "\<not> asks k cap c" by (intro call_asks_not) simp
  with Call show ?case by auto
qed auto

text \<open>
  A heavy request that runs its handler counts as at work, whether behind an admitted slot or
  because the gate failed: \<open>p\<close> is what is left of the handler.
\<close>

lemma handler_at_work:
  assumes "heavy_of t r" and "quiet (concurrency_key t) p"
  shows "\<not> ended p \<Longrightarrow> at_work t (r, failed, a, p)"
    and "at_work t (r, failed, a, finally_do p (catch (release (concurrency_key t) x) (\<lambda>e. Return ())))"
proof -
  show "\<not> ended p \<Longrightarrow> at_work t (r, failed, a, p)" using assms quiet_asks_not by simp
  have "must_release (concurrency_key t) x (finally_do p (catch (release (concurrency_key t) x) (\<lambda>e. Return ())))"
    by (rule guarded_section(2) [OF assms(2)])
  then have "\<not> ended (finally_do p (catch (release (concurrency_key t) x) (\<lambda>e. Return ())))"
    by (cases "finally_do p (catch (release (concurrency_key t) x) (\<lambda>e. Return ()))") auto
  with assms section_asks_not show "at_work t (r, failed, a, finally_do p (catch (release (concurrency_key t) x) (\<lambda>e. Return ())))"
    by simp
qed

definition well_gated :: "string \<Rightarrow> ('b HttpRequest, 'a) observed_thread \<Rightarrow> bool" where
  "well_gated t th \<longleftrightarrow> (case th of (r, failed, a, p) \<Rightarrow> heavy_of t r \<and> \<not> failed \<longrightarrow>
     gated (concurrency_key t) (concurrency_cap t) p \<or> in_section (concurrency_key t) p)"

context redis_server
begin

lemma acquisition_answered:
  assumes st: "store_ok cap U (view s k)" and c: "asks k cap c" and sv: "serve exec c s = (r, s')"
  shows "\<exists>live. r = acquire_reply cap live"
proof -
  from c obtain sc old x where c: "c = Eval (acquire_lua k cap sc old x SLOT_TTL_SECONDS)" by (auto simp: asks_def)
  from st obtain z where "as_zset (view s k) = Some z" "int (length z) \<le> cap" by (auto simp: store_ok_def)
  from taken_entry [OF this refl sv [unfolded c]] show ?thesis by metis
qed

lemma observed_well_gated:
  assumes run: "observed (prompt clock dur skew) exec elapse clock asks_gate (application fw) s0 (s, U, ts)"
    and fw: "framework_ok fw" and start: "view s0 (concurrency_key t) = None" and t: "t \<noteq> []"
    and req: "\<forall>p \<in> range (application fw). slot_ok (concurrency_key t) (concurrency_cap t) p Free {} {}"
    and cap: "0 \<le> concurrency_cap t"
    and margin: "secs dur + 2 * skew \<le> 59" and dur: "0 < dur" "dur \<le> SLOT_TTL_SECONDS * usec"
  shows "\<forall>th \<in> set ts. well_gated t th"
  using run
proof (induction "(s, U, ts)" arbitrary: s U ts rule: observed.induct)
  case start
  show ?case by simp
next
  case (turns s U ts i x b a p m seen s' U' q)
  let ?k = "concurrency_key t" and ?cap = "concurrency_cap t"
  have "well_gated t (x, b \<or> gate_fails asks_gate x seen, a, q)"
    unfolding well_gated_def prod.case
  proof (intro impI)
    assume x: "heavy_of t x \<and> \<not> (b \<or> gate_fails asks_gate x seen)"
    with turns.hyps(2,3,4) have "gated ?k ?cap p \<or> in_section ?k p" by (force simp: well_gated_def dest: nth_mem)
    moreover have "system_ok ?k ?cap dur skew (clock s) (view s ?k) U (map (\<lambda>th. snd (snd th)) ts)"
      using watch_reach_ok [OF observed_watched [OF turns.hyps(1)] start req cap margin dur] by simp
    then have st: "store_ok ?cap U (view s ?k)" by (simp add: system_ok_def)
    have "asks_gate x = asks ?k ?cap" using x by (simp add: asks_gate_def heavy_of_def)
    with x have "\<nexists>c e. seen = Some (c, RError e) \<and> asks ?k ?cap c"
      by (auto simp: gate_fails_def)
    from gated_turn [OF _ turns.hyps(6) this] acquisition_answered [OF st] section_turn [OF _ turns.hyps(6)]
    show "gated ?k ?cap q \<or> in_section ?k q" using calculation by blast
  qed
  with turns.hyps(2) show ?case using set_update_subset_insert [of ts i] by fastforce
next
  case (arrives s U ts x)
  have "well_gated t (x, False, clock s, application fw x)"
    using application_gated [OF fw _ _ t, of x] by (simp add: well_gated_def heavy_of_def)
  with arrives show ?case by simp
next
  case (passes s U ts d)
  then show ?case by simp
qed

end

lemma at_work_holds:
  assumes "well_gated t th" and "at_work t th" and "\<not> gate_failed th"
  shows "holds_slot (concurrency_key t) (snd (snd (snd th)))"
proof -
  obtain r failed a p where th: "th = (r, failed, a, p)" by (cases th)
  with assms have "\<not> ended p" "in_section (concurrency_key t) p" using gated_asks by (auto simp: well_gated_def)
  with section_releases th show ?thesis by auto
qed

text \<open>
  C6. The concurrency cap bounds the heavy work itself, not only the record of it. Take a
  deployment where a request is over within \<open>dur\<close>, clocks are within \<open>skew\<close> of the server's and
  identifiers are new, with \<open>dur + 2 skew\<close> at most a second below the slot's minute. At no
  moment of any interleaving, with any losses and crashes, are more heavy requests of a
  tenant at work, past their gates and not yet answered, than the cap of its plan and those
  whose gate had failed: that asked for a slot and saw an error instead of a decision. While
  the gate decides, the cap is the bound.
\<close>

theorem heavy_work_bounded:
  assumes srv: "redis_server exec view clock elapse" and fw: "framework_ok fw"
    and run: "observed (prompt clock dur skew) exec elapse clock asks_gate (application fw) s0 (s, U, ts)"
    and start: "view s0 (concurrency_key t) = None" and t: "t \<noteq> []"
    and dur: "0 < dur" and skew: "0 \<le> skew" and margin: "secs dur + 2 * skew \<le> 59"
  shows "int (length (filter (at_work t) ts))
    \<le> concurrency_cap t + int (length (filter (\<lambda>th. at_work t th \<and> gate_failed th) ts))"
proof -
  let ?k = "concurrency_key t" and ?ps = "map (\<lambda>th. snd (snd th)) ts"
  have req: "\<forall>p \<in> range (application fw). slot_ok ?k (concurrency_cap t) p Free {} {}"
    using application_slot_ok [OF fw] by blast
  have cap: "0 \<le> concurrency_cap t" using limits_positive(3) [of t] by (simp add: concurrency_cap_limits)
  note well = redis_server.observed_well_gated [OF srv run fw start t req cap margin dur short_life [OF skew margin]]
  let ?P = "\<lambda>th. at_work t th \<and> \<not> gate_failed th"
  have "length (filter ?P ts) \<le> length (filter (\<lambda>ap. holds_slot ?k (snd ap)) ?ps)"
    unfolding filter_map length_map comp_def
    by (rule length_filter_imp) (use well at_work_holds in blast)
  also have "\<dots> = card {i. i < length ?ps \<and> holds_slot ?k (snd (?ps ! i))}" by (rule length_filter_conv_card)
  finally have "int (length (filter ?P ts)) \<le> concurrency_cap t"
    using heavy_in_flight_bounded [OF srv fw observed_watched [OF run, unfolded bare.simps] start dur skew margin]
    by simp
  moreover have "length (filter (at_work t) ts)
      = length (filter ?P ts) + length (filter (\<lambda>th. at_work t th \<and> gate_failed th) ts)"
    by (induction ts) auto
  ultimately show ?thesis by simp
qed

text \<open>A heavy request of \<open>piedmont\<close> whose rate gate fails and that is admitted to its work.\<close>

definition sample_heavy :: "validated HttpRequest" where
  "sample_heavy =
     \<lparr>req_method = ''POST'', req_path = ''/api/v1/billing/calculate'', tenant_header = Some ''piedmont'',
      req_body = []\<rparr>"

lemma sample_heavy_facts:
  "should_guard sample_heavy" "req_path sample_heavy \<in> set HEAVY_ENDPOINTS" "header_tenant sample_heavy = ''piedmont''"
  "header_tenant sample_heavy \<noteq> []"
  by (simp_all add: should_guard_def sample_heavy_def API_PREFIX_def HEAVY_ENDPOINTS_def header_tenant_def
      py_strip_def py_isspace_def Let_def)

lemma asks_ahead_caught: "\<not> asks_ahead k cap p \<Longrightarrow> \<not> asks_ahead k cap (catch p (\<lambda>e. Return (g e)))"
  by (induction p) auto

text \<open>The request alone: it arrives, its draw is not sent, it asks for a slot and gets it.\<close>

lemma alone_admitted:
  assumes fw: "framework_ok fw" and heavy: "heavy_of ''piedmont'' r"
  obtains s p where "observed (prompt mem_clock 30000000 1) mem_exec mem_elapse mem_clock asks_gate (application fw)
      (mem_at 0) (s, {''a''}, [(r, False, 0, p)])" and "at_work ''piedmont'' (r, False, 0, p)"
proof -
  let ?t = "''piedmont''" and ?k = "concurrency_key ''piedmont''"
  let ?go = "observed (prompt mem_clock 30000000 1) mem_exec mem_elapse mem_clock asks_gate (application fw) (mem_at 0)"
  let ?inner = "converted fw (converted fw (route fw))" and ?h = "\<lambda>e. Return (fw_on_error fw e)"
  let ?ask = "\<lambda>\<tau> x. Eval (acquire_lua ?k 3 (fmt6 \<tau>) (fmt6 (\<tau> - of_int SLOT_TTL_SECONDS)) x SLOT_TTL_SECONDS)"
  let ?fin = "\<lambda>x. catch (catch (finally_do (?inner r) (catch (release ?k x) (\<lambda>e. Return ()))) ?h) ?h"
  have path: "req_path r \<in> set HEAVY_ENDPOINTS" and t: "header_tenant r = ?t" using heavy by (simp_all add: heavy_of_def)
  have guard: "should_guard r" using path by (auto simp: should_guard_def API_PREFIX_def HEAVY_ENDPOINTS_def)
  have cap: "concurrency_cap ?t = 3" by (simp add: concurrency_cap_limits limits_of_def)
  have q: "quiet ?k (?inner r)" by (intro converted_calls route_quiet [OF fw])
  have ne: "?t \<noteq> []" by simp
  obtain k where app: "application fw r = Call (draw_call ?t (of_int (cost_of (req_path r)))) k"
    and err: "\<And>e. k (RError e) = behind_gate fw r"
    by (rule guarded_application [OF fw guard t ne]) blast
  have "header_tenant r \<noteq> []" using t by simp
  from concurrency_guarded [OF path this, of ?inner]
  obtain f where gate: "behind_gate fw r = Now (\<lambda>\<tau>. Uuid4 (\<lambda>x. Call (?ask \<tau> x) (f x)))"
    and won: "\<And>x. f x (RArray [RInt 1, RInt 1]) = ?fin x"
    by (auto simp: behind_gate_def converted_def [of _ "concurrency_middleware _"] acquire_program t cap)
  have "?go (mem_at 0, {}, [(r, False, 0, Call (draw_call ?t (of_int (cost_of (req_path r)))) k)])"
    using observed_first [of "prompt mem_clock 30000000 1" "mem_at 0" mem_exec mem_elapse mem_clock asks_gate "application fw" r]
    by (simp add: app mem_at_def)
  from observed_alone [OF this turn.unsent, of "''connection''"]
  have "?go (mem_at 0, {}, [(r, False, 0, behind_gate fw r)])"
    by (simp add: err gate_fails_def asks_gate_def draw_asks_not)
  then have go: "?go (mem_at 0, {}, [(r, False, 0, Now (\<lambda>\<tau>. Uuid4 (\<lambda>x. Call (?ask \<tau> x) (f x))))])" by (simp add: gate)
  from observed_alone [OF go turn.reads_clock, of 0]
  have "?go (mem_at 0, {}, [(r, False, 0, Uuid4 (\<lambda>x. Call (?ask 0 x) (f x)))])"
    by (simp add: gate_fails_def mem_at_def secs_def)
  from observed_alone [OF this turn.draws_uuid, of "''a''"]
  have drawn: "?go (mem_at 0, {''a''}, [(r, False, 0, Call (?ask 0 ''a'') (f ''a''))])" by (simp add: gate_fails_def)
  have z: "as_zset (mem_data (mem_at 0) ?k) = Some []" by (simp add: mem_at_def)
  obtain s where "run_lua mem_exec (acquire_lua ?k 3 (fmt6 0) (fmt6 (0 - of_int SLOT_TTL_SECONDS)) ''a'' SLOT_TTL_SECONDS) (mem_at 0)
      = (acquire_reply 3 (drop_scores (fmt6 (0 - of_int SLOT_TTL_SECONDS)) []), s)"
    by (rule mem.run_acquire_lua [OF z slot_ttl_pos refl])
  then have "serve mem_exec (?ask 0 ''a'') (mem_at 0) = (RArray [RInt 1, RInt 1], s)"
    by (simp add: acquire_reply_def drop_scores_def)
  from observed_alone [OF drawn turn.delivered [OF this]]
  have go: "?go (s, {''a''}, [(r, False, 0, ?fin ''a'')])" by (simp add: gate_fails_def won)
  have "must_release ?k ''a'' (?fin ''a'')" by (intro must_release_catch guarded_section(2) [OF q])
  then have "\<not> ended (?fin ''a'')" by (cases "?fin ''a''") auto
  moreover have "\<not> asks_ahead ?k 3 (?fin ''a'')" by (intro asks_ahead_caught section_asks_not [OF q])
  ultimately have "at_work ?t (r, False, 0, ?fin ''a'')" using heavy cap by simp
  with go show ?thesis by (rule that)
qed

theorem heavy_work_bounded_witness:
  "\<exists>s U th. observed (prompt mem_clock 30000000 1) mem_exec mem_elapse mem_clock asks_gate (application sample_framework)
       (mem_at 0) (s, U, [th]) \<and> at_work ''piedmont'' th \<and> \<not> gate_failed th
     \<and> int (length (filter (at_work ''piedmont'') [th])) \<le> 3"
proof -
  have "heavy_of ''piedmont'' sample_heavy" using sample_heavy_facts by (simp add: heavy_of_def)
  then obtain s p where run: "observed (prompt mem_clock 30000000 1) mem_exec mem_elapse mem_clock asks_gate
      (application sample_framework) (mem_at 0) (s, {''a''}, [(sample_heavy, False, 0, p)])"
    and work: "at_work ''piedmont'' (sample_heavy, False, 0, p)"
    by (rule alone_admitted [OF sample_framework_ok])
  have cap: "concurrency_cap ''piedmont'' = 3" by (simp add: concurrency_cap_limits limits_of_def)
  have "mem_data (mem_at 0) (concurrency_key ''piedmont'') = None" and "''piedmont'' \<noteq> []" and "(0 :: int) < 30000000"
    and "(0 :: rat) \<le> 1" and "secs 30000000 + 2 * 1 \<le> 59" by (simp_all add: mem_at_def secs_def)
  from heavy_work_bounded [OF mem.redis_server_axioms, OF sample_framework_ok run this, unfolded cap]
  have "int (length (filter (at_work ''piedmont'') [(sample_heavy, False, 0, p)])) \<le> 3" by simp
  with run work show ?thesis by (intro exI [of _ s] exI [of _ "{''a''}"] exI [of _ "(sample_heavy, False, 0, p)"]) simp
qed

end
