(* ===== verification/Admission.thy ===== *)
theory Admission imports Observed begin

text \<open>
  How much a tenant is let through the rate gate. A metered request is waiting at the gate
  as long as its program is the one it came with, is turned away once that program is the
  429 of the gate, and has been let through otherwise. What is let through is paid for by a
  draw from the tenant's bucket, unless the gate failed: \<open>turn_pays\<close> says so of one move of
  one thread, and the theorem adds the moves up.
\<close>

subsection \<open>Let through\<close>

definition asks_bucket :: "'b HttpRequest \<Rightarrow> call \<Rightarrow> bool" where
  "asks_bucket r c \<longleftrightarrow> (\<exists>x. c = draw_call (header_tenant r) x)"

definition metered :: "string \<Rightarrow> 'b HttpRequest \<Rightarrow> bool" where
  "metered t r \<longleftrightarrow> header_tenant r = t \<and> should_guard r"

fun let_through :: "'b framework \<Rightarrow> string \<Rightarrow> ('b HttpRequest, HttpResponse) observed_thread \<Rightarrow> bool" where
  "let_through fw t (r, failed, a, p) \<longleftrightarrow>
     metered t r \<and> p \<noteq> application fw r \<and> (\<forall>n. p \<noteq> Return (rate_limited_response t n))"

definition total_cost :: "('b HttpRequest, 'a) observed_thread list \<Rightarrow> rat" where
  "total_cost ts = sum_list (map (\<lambda>th. of_int (cost_of (req_path (fst th)))) ts)"

text \<open>A living deployment: a process that dies is one that takes no further step.\<close>

definition no_deaths :: "('s, 'a) watched \<Rightarrow> move \<Rightarrow> bool" where
  "no_deaths cf m \<longleftrightarrow> m \<noteq> Dies"

subsection \<open>What a thread does to the bucket\<close>

abbreviation spares :: "string \<Rightarrow> call \<Rightarrow> bool" where
  "spares t \<equiv> call_cmds (\<lambda>x. key_of x \<noteq> Some (bucket_key t))"

lemma draw_spares_not: "\<not> spares t (draw_call t y)"
  using bucket_lua_names [of "\<lambda>x. key_of x \<noteq> Some (bucket_key t)" "bucket_key t"] by (auto simp: draw_call_def)

lemma behind_gate_spares:
  assumes fw: "framework_ok fw"
  shows "calls_in (spares t) (behind_gate fw r)"
proof -
  have "calls_in (spares t) (ingest_event c)" "calls_in (spares t) (calculate_for u x a b)"
    "calls_in (spares t) (generate_for u i)" for c u x a b i
    unfolding ingest_event_def record_event_def claim_idempotency_def calculate_for_def generate_for_def Let_def
    by (auto intro!: calls_in_bnd calls_in_redis_py)
  then have "calls_in (spares t) (route fw r)"
    by (intro route_calls [OF fw] views_calls [OF fw]) simp_all
  moreover have "calls_in (spares t) (acquire (concurrency_key u) n)" "calls_in (spares t) (release (concurrency_key u) x)" for u n x
    by (auto simp: acquire_def release_def intro!: calls_in_bnd calls_in_redis_py acquire_lua_cmds)
  ultimately show ?thesis
    unfolding behind_gate_def by (intro calls_in_catch converted_calls concurrency_calls) simp_all
qed

definition pays :: "'b framework \<Rightarrow> string \<Rightarrow> ('b HttpRequest, HttpResponse) observed_thread \<Rightarrow> bool" where
  "pays fw t th \<longleftrightarrow> (case th of (r, failed, a, p) \<Rightarrow>
     (metered t r \<and> \<not> failed \<and> p = application fw r) \<or> calls_in (spares t) p)"

definition charge :: "'b framework \<Rightarrow> string \<Rightarrow> ('b HttpRequest, HttpResponse) observed_thread \<Rightarrow> rat" where
  "charge fw t th = (if let_through fw t th \<and> \<not> gate_failed th then of_int (cost_of (req_path (fst th))) else 0)"

lemma charge_bounds: "0 \<le> charge fw t th" "charge fw t th \<le> of_int (cost_of (req_path (fst th)))"
  using cost_of_bounds(1) [of "req_path (fst th)"] by (simp_all add: charge_def)

lemma arrival_pays:
  assumes "framework_ok fw" and "t \<noteq> []"
  shows "pays fw t (r, False, a, application fw r) \<and> charge fw t (r, False, a, application fw r) = 0"
proof -
  have "calls_in (spares t) (application fw r)" if "\<not> metered t r"
  proof (cases "header_tenant r = t")
    case True
    with that have "application fw r = behind_gate fw r" by (intro unguarded_application assms(1)) (simp add: metered_def)
    then show ?thesis by (simp add: behind_gate_spares [OF assms(1)])
  next
    case False
    have "spares t c" if "tenant_call (header_tenant r) c" for c
      using tenant_call_keys [OF that] by (rule call_cmds_mono) (use False in auto)
    with application_tenant_calls [OF assms(1)] show ?thesis using calls_in_mono by blast
  qed
  then show ?thesis by (auto simp: pays_def charge_def)
qed

lemma metered_draws:
  assumes "framework_ok fw" and "t \<noteq> []" and "metered t r" and "calls_in (spares t) p"
  shows "p \<noteq> application fw r"
proof -
  from assms(3) have "should_guard r" "header_tenant r = t" by (simp_all add: metered_def)
  then obtain k where "application fw r = Call (draw_call t (of_int (cost_of (req_path r)))) k"
    by (rule guarded_application [OF assms(1) _ _ assms(2)]) blast
  with assms(4) show ?thesis using draw_spares_not by auto
qed

text \<open>A thread that leaves the bucket alone stays so, and its charge does not rise.\<close>

lemma spares_turn:
  assumes "calls_in (spares t) p" and "turn ex (s, U, p) m seen (s', U', q)"
  shows "calls_in (spares t) q"
  using assms(2,1) by cases auto

lemma spares_charge:
  assumes fw: "framework_ok fw" and t: "t \<noteq> []" and p: "calls_in (spares t) p"
    and tn: "turn ex (s, U, p) m seen (s', U', q)" "m \<noteq> Dies"
  shows "charge fw t (x, b \<or> f, a, q) \<le> charge fw t (x, b, a, p)"
proof (cases "metered t x \<and> \<not> b")
  case True
  then have "p \<noteq> application fw x" using metered_draws [OF fw t _ p] by simp
  moreover have "p \<noteq> Return y" for y using tn by (auto elim: turn.cases)
  ultimately have "charge fw t (x, b, a, p) = of_int (cost_of (req_path x))" using True by (simp add: charge_def)
  then show ?thesis using charge_bounds(2) [of fw t "(x, b \<or> f, a, q)"] by simp
next
  case False
  then have "charge fw t (x, b \<or> f, a, q) = 0" by (auto simp: charge_def)
  with charge_bounds(1) show ?thesis by simp
qed

context redis_server
begin

abbreviation "bucket_level t s \<equiv> tenant_level t (view s (bucket_key t)) (clock s)"

abbreviation "sound_bucket t s \<equiv> tenant_bucket_ok t (clock s) (view s (bucket_key t))"

lemma spares_level:
  assumes "calls_in (spares t) p" and "turn exec (s, U, p) m seen (s', U', q)"
  shows "clock s' = clock s \<and> view s' (bucket_key t) = view s (bucket_key t)"
  using assms(2,1) by cases (auto dest: serve_clock serve_frame)

lemma turn_pays:
  assumes fw: "framework_ok fw" and t: "t \<noteq> []" and ok: "sound_bucket t s"
    and pays: "pays fw t (x, b, a, p)" and tn: "turn exec (s, U, p) m seen (s', U', q)" "m \<noteq> Dies"
  shows "clock s' = clock s" and "sound_bucket t s'"
    and "pays fw t (x, b \<or> gate_fails asks_bucket x seen, a, q)"
    and "charge fw t (x, b \<or> gate_fails asks_bucket x seen, a, q) + bucket_level t s'
      \<le> charge fw t (x, b, a, p) + bucket_level t s"
proof -
  let ?th = "(x, b \<or> gate_fails asks_bucket x seen, a, q)"
  have "clock s' = clock s \<and> sound_bucket t s' \<and> pays fw t ?th
    \<and> charge fw t ?th + bucket_level t s' \<le> charge fw t (x, b, a, p) + bucket_level t s"
  proof (cases "calls_in (spares t) p")
    case True
    with spares_level [OF True tn(1)] spares_charge [OF fw t True tn] spares_turn [OF True tn(1)] ok
    show ?thesis by (simp add: pays_def)
  next
    case False
    let ?c = "of_int (cost_of (req_path x)) :: rat" and ?lvl = "bucket_level t s"
    from False pays have x: "metered t x" "\<not> b" and p: "p = application fw x" by (simp_all add: pays_def)
    from x(1) have "should_guard x" "header_tenant x = t" by (simp_all add: metered_def)
    then obtain k where app: "application fw x = Call (draw_call t ?c) k"
      and err: "\<And>e. k (RError e) = behind_gate fw x"
      and rep: "\<And>lvl. k (bucket_reply lvl ?c (plan_rate t)) = (if ?c \<le> lvl then behind_gate fw x
        else Return (rate_limited_response t (max 1 \<lceil>(?c - lvl) / plan_rate t\<rceil>)))"
      by (rule guarded_application [OF fw _ _ t]) blast
    have c: "0 \<le> ?c" using cost_of_bounds(1) [of "req_path x"] by simp
    have zero: "charge fw t (x, b, a, p) = 0" by (simp add: charge_def p)
    have "asks_bucket x (draw_call t ?c)" using x(1) by (auto simp: asks_bucket_def metered_def)
    then have fails: "gate_fails asks_bucket x (Some (draw_call t ?c, RError e))" for e by (auto simp: gate_fails_def)
    note behind = behind_gate_spares [OF fw, of t x]
    from tn(1)[unfolded p app] show ?thesis
    proof (cases rule: turn_call_cases)
      case (delivered r)
      then have sv: "serve exec (draw_call t ?c) s = (r, s')" by simp
      note drawn = draw_served [OF ok c sv]
      have q: "q = (if ?c \<le> ?lvl then behind_gate fw x
        else Return (rate_limited_response t (max 1 \<lceil>(?c - ?lvl) / plan_rate t\<rceil>)))"
        using rep delivered drawn(3) by simp
      then have "pays fw t ?th" using behind by (simp add: pays_def)
      moreover have "charge fw t ?th + bucket_level t s' \<le> ?lvl"
      proof (cases "?c \<le> ?lvl")
        case True
        then have "lua_index r 1 = RInt 1" using drawn(3) by (simp add: bucket_reply_def)
        with drawn(2) charge_bounds(2) [of fw t ?th] show ?thesis by simp
      next
        case False
        then have "charge fw t ?th = 0" by (auto simp: charge_def q)
        moreover from False have "lua_index r 1 \<noteq> RInt 1" using drawn(3) by (simp add: bucket_reply_def)
        ultimately show ?thesis using drawn(2) by simp
      qed
      ultimately show ?thesis using drawn(1) serve_clock [OF sv] zero by simp
    next
      case (unsent e)
      with fails err behind ok zero show ?thesis by (simp add: pays_def charge_def)
    next
      case (lost r e)
      then have sv: "serve exec (draw_call t ?c) s = (r, s')" by simp
      note drawn = draw_served [OF ok c sv]
      have "bucket_level t s' \<le> ?lvl" using drawn(2) c by simp
      with lost fails err behind drawn(1) serve_clock [OF sv] zero show ?thesis by (simp add: pays_def charge_def)
    qed (use tn(2) in simp)
  qed
  then show "clock s' = clock s" "sound_bucket t s'" "pays fw t ?th"
    "charge fw t ?th + bucket_level t s' \<le> charge fw t (x, b, a, p) + bucket_level t s" by blast+
qed

end

subsection \<open>The bound\<close>

lemma total_charge:
  "total_cost (filter (let_through fw t) ts)
     = sum_list (map (charge fw t) ts) + total_cost (filter (\<lambda>th. let_through fw t th \<and> gate_failed th) ts)"
  by (induction ts) (auto simp: total_cost_def charge_def)

definition in_budget :: "'b framework \<Rightarrow> string \<Rightarrow> rat \<Rightarrow> ('s \<Rightarrow> int) \<Rightarrow> ('s \<Rightarrow> string \<Rightarrow> entry option) \<Rightarrow> int
    \<Rightarrow> ('s, 'b HttpRequest, HttpResponse) scene \<Rightarrow> bool" where
  "in_budget fw t lvl clock view since cf \<longleftrightarrow> (case cf of (s, U, ts) \<Rightarrow>
     since \<le> clock s \<and> tenant_bucket_ok t (clock s) (view s (bucket_key t)) \<and> (\<forall>th \<in> set ts. pays fw t th) \<and>
     sum_list (map (charge fw t) ts) + tenant_level t (view s (bucket_key t)) (clock s)
       \<le> lvl + plan_rate t * secs (clock s - since))"

context redis_server
begin

lemma observed_budget:
  assumes fw: "framework_ok fw" and t: "t \<noteq> []" and start: "sound_bucket t s0"
    and run: "observed no_deaths exec elapse clock asks_bucket (application fw) s0 cf"
  shows "in_budget fw t (bucket_level t s0) clock view (clock s0) cf"
  using run
proof (induction rule: observed.induct)
  case start
  with assms(3) show ?case by (simp add: in_budget_def secs_def)
next
  case (turns s U ts i x b a p m seen s' U' q)
  let ?th = "(x, b \<or> gate_fails asks_bucket x seen, a, q)"
  from turns.IH have ok: "sound_bucket t s" and all: "\<forall>th \<in> set ts. pays fw t th" and since: "clock s0 \<le> clock s"
    and le: "sum_list (map (charge fw t) ts) + bucket_level t s \<le> bucket_level t s0 + plan_rate t * secs (clock s - clock s0)"
    by (simp_all add: in_budget_def)
  from all turns.hyps(2,3) have "pays fw t (x, b, a, p)" by (metis nth_mem)
  from turns.hyps(4) have "m \<noteq> Dies" by (simp add: no_deaths_def)
  note move = turn_pays [OF fw t ok \<open>pays fw t (x, b, a, p)\<close> turns.hyps(5) this]
  have "\<forall>th \<in> set (ts[i := ?th]). pays fw t th" using all move(3) set_update_subset_insert [of ts i ?th] by blast
  moreover have "sum_list (map (charge fw t) (ts[i := ?th]))
      = sum_list (map (charge fw t) ts) + charge fw t ?th - charge fw t (x, b, a, p)"
    using sum_map_update [OF turns.hyps(2), of "charge fw t" ?th] turns.hyps(3) by simp
  ultimately show ?case using move(1,2,4) le since by (simp add: in_budget_def)
next
  case (arrives s U ts x)
  with arrival_pays [OF fw t, of x "clock s"] show ?case by (simp add: in_budget_def)
next
  case (passes s U ts d)
  then have ok: "sound_bucket t s" by (simp add: in_budget_def)
  have "secs (clock s + int d - clock s0) = secs (clock s - clock s0) + secs (int d)"
    by (simp add: secs_def add_divide_distrib diff_divide_distrib)
  moreover have "bucket_level t (elapse d s) \<le> bucket_level t s + plan_rate t * secs (int d)"
    unfolding tenant_bucket_elapse(2) [OF ok] by (rule min.cobounded2)
  ultimately show ?case using passes.IH tenant_bucket_elapse(1) [OF ok, of d]
    by (simp add: in_budget_def clock_elapse algebra_simps)
qed

end

text \<open>
  C7. No tenant gets more through the rate gate than its plan. Over any interleaving of
  requests of any tenants, with lost messages and processes that stop, what the API requests
  of a tenant that have been let through cost together is at most what its bucket held at the
  start, which is never more than the burst of its plan, plus what its rate has refilled
  since, plus the cost of the requests whose gate had failed: that asked the bucket and saw an
  error instead of a decision. The service may start in any state in which the tenant's
  bucket is well-formed.
\<close>

theorem let_through_within_rate:
  assumes srv: "redis_server exec view clock elapse" and fw: "framework_ok fw"
    and run: "observed no_deaths exec elapse clock asks_bucket (application fw) s0 (s, U, ts)"
    and start: "tenant_bucket_ok t (clock s0) (view s0 (bucket_key t))" and t: "t \<noteq> []"
  shows "total_cost (filter (let_through fw t) ts)
      \<le> tenant_level t (view s0 (bucket_key t)) (clock s0)
        + of_int (requests_per_second (limits_of t)) * secs (clock s - clock s0)
        + total_cost (filter (\<lambda>th. let_through fw t th \<and> gate_failed th) ts)
    \<and> tenant_level t (view s0 (bucket_key t)) (clock s0) \<le> of_int (burst (limits_of t))"
proof -
  have "sum_list (map (charge fw t) ts) + tenant_level t (view s (bucket_key t)) (clock s)
      \<le> tenant_level t (view s0 (bucket_key t)) (clock s0) + plan_rate t * secs (clock s - clock s0)"
    and ok: "tenant_bucket_ok t (clock s) (view s (bucket_key t))"
    using redis_server.observed_budget [OF srv fw t start run] by (simp_all add: in_budget_def)
  moreover have "0 \<le> tenant_level t (view s (bucket_key t)) (clock s)"
    unfolding tenant_level_def
    by (rule level_nonneg [OF ok [unfolded tenant_bucket_ok_def] order.strict_implies_order [OF plan_numbers(1)] plan_numbers(2)])
  moreover have "tenant_level t (view s0 (bucket_key t)) (clock s0) \<le> of_int (burst (limits_of t))"
    by (simp add: tenant_level_def level_le [OF plan_numbers(2)])
  ultimately show ?thesis by (simp add: total_charge)
qed

text \<open>The sample ingest is let through on the reply to its draw.\<close>

theorem let_through_within_rate_witness:
  "\<exists>s th. observed no_deaths mem_exec mem_elapse mem_clock asks_bucket (application sample_framework)
       (mem_at 0) (s, {}, [th]) \<and> let_through sample_framework ''globex'' th \<and> \<not> gate_failed th
     \<and> total_cost (filter (let_through sample_framework ''globex'') [th]) \<le> 1000"
proof -
  let ?fw = sample_framework and ?t = "''globex''" and ?r = sample_ingest
  let ?go = "observed no_deaths mem_exec mem_elapse mem_clock asks_bucket (application ?fw) (mem_at 0)"
  have r: "should_guard ?r" "header_tenant ?r = ?t" and ne: "?t \<noteq> []" and cost: "cost_of (req_path ?r) = 1"
    by (simp_all add: guarded_paths(1) sample_ingest_facts cost_of_def ENDPOINT_COSTS_def)
  obtain k where app: "application ?fw ?r = Call (draw_call ?t 1) k"
    and rep: "\<And>lvl. k (bucket_reply lvl 1 (plan_rate ?t)) = (if 1 \<le> lvl then behind_gate ?fw ?r
       else Return (rate_limited_response ?t (max 1 \<lceil>(1 - lvl) / plan_rate ?t\<rceil>)))"
    by (rule guarded_application [OF sample_framework_ok r ne, unfolded cost of_int_1]) blast
  obtain x s where sv: "serve mem_exec (draw_call ?t 1) (mem_at 0) = (x, s)" by (cases "serve mem_exec (draw_call ?t 1) (mem_at 0)")
  have "(0 :: rat) \<le> 1" by simp
  note x = mem.draw_served(3) [OF sample_bucket(1) this sv]
  have kx: "k x = behind_gate ?fw ?r" using rep x by (simp add: sample_bucket(2))
  have no_error: "x \<noteq> RError e" for e unfolding x by (rule bucket_reply_no_error)
  have "?go (mem_at 0, {}, [(?r, False, 0, Call (draw_call ?t 1) k)])"
    using observed_first [of no_deaths "mem_at 0" mem_exec mem_elapse mem_clock asks_bucket "application ?fw" ?r]
    by (simp add: app mem_at_def no_deaths_def)
  from observed_alone [OF this turn.delivered [OF sv]]
  have run: "?go (s, {}, [(?r, False, 0, behind_gate ?fw ?r)])"
    by (simp add: kx no_deaths_def gate_fails_def no_error)
  obtain resp s2 where "run mem_exec (application ?fw ?r) [Deliver, Deliver, Deliver] (mem_at 0) = (Done resp, [], s2)"
    by (rule sample_ingest_runs)
  then have "run mem_exec (behind_gate ?fw ?r) [Deliver, Deliver] s = (Done resp, [], s2)" by (simp add: app sv kx)
  then have "behind_gate ?fw ?r \<noteq> Return y" for y by auto
  moreover have "metered ?t ?r" using r by (simp add: metered_def)
  moreover from this have "behind_gate ?fw ?r \<noteq> application ?fw ?r"
    by (rule metered_draws [OF sample_framework_ok ne _ behind_gate_spares [OF sample_framework_ok]])
  ultimately have thr: "let_through ?fw ?t (?r, False, 0, behind_gate ?fw ?r)" by simp
  define th where "th = (?r, False, 0 :: int, behind_gate ?fw ?r)"
  have "mem_clock s = 0" using mem.serve_clock [OF sv] by (simp add: mem_at_def)
  moreover have "mem_clock (mem_at 0) = 0" by (simp add: mem_at_def)
  moreover note let_through_within_rate [OF mem.redis_server_axioms, OF sample_framework_ok run sample_bucket(1) ne,
    folded th_def, unfolded sample_bucket(2)]
  moreover have "\<not> gate_failed th" by (simp add: th_def)
  ultimately have "total_cost (filter (let_through ?fw ?t) [th]) \<le> 1000" by (simp add: total_cost_def secs_def)
  with run thr \<open>\<not> gate_failed th\<close> show ?thesis unfolding th_def [symmetric]
    by (intro exI [of _ s] exI [of _ th]) blast
qed

end
