(* ===== verification/Spec2Isabelle.thy ===== *)
theory Spec2Isabelle imports
  Load_Runner Store_Types In_Flight Answers Serial_Ingest Redis_Client
  Noninterference Histories Noisy_Neighbour Entry_Points Heavy_Work Admission
begin

text \<open>
  A verification library for the Multi-Tenant-Billing service: a Django application that
  ingests usage events, calculates and issues invoices on a shared Redis, and protects the
  shared Redis by two admission gates per tenant.

  \<^bold>\<open>The program and its parts.\<close> A request passes \<open>RateLimitMiddleware\<close> and
  \<open>ConcurrencyMiddleware\<close> (\<open>billing/interfaces/api/incoming/middleware.py\<close>, in the order of
  \<open>MIDDLEWARE\<close> in \<open>billing_platform/settings.py\<close>) and reaches a view (\<open>views.py\<close>), which
  resolves the tenant, validates the body and calls a use case: \<open>ingest_event\<close>,
  \<open>calculate_for\<close> or \<open>generate_for\<close> (\<open>billing/application\<close>). The rate limiter draws on a
  token bucket, the concurrency gate on a semaphore (\<open>billing/infrastructure\<close>), both Lua
  scripts on the server. All state is in Redis: a process keeps only its cached client
  (\<open>billing/infrastructure/redis.py\<close>). \<open>scripts/simulate_incident.py\<close> is a client of the API
  that floods it as one tenant and measures another.

  \<^bold>\<open>Theories.\<close>
  \<^item> \<open>Billing_Prelude\<close>: \<open>str.strip\<close>, \<open>round\<close>, JSON values and stored text, association
    lists.
  \<^item> \<open>Redis_Commands\<close>: values, commands, replies, Lua scripts, requests.
  \<^item> \<open>Programs\<close>: Python code as a tree of its calls (\<open>prog\<close>), exceptions, \<open>try\<close> forms;
    \<open>run\<close> executes one program with chosen faults, \<open>sys_step\<close> and \<open>sys_reach\<close> interleave
    any number with one server; the locale \<open>guarded_store\<close> lifts an invariant of single
    requests to every interleaving.
  \<^item> \<open>Redis_Server\<close>: the server is a parameter; the locale \<open>redis_server\<close> holds the
    documented behaviour of the thirteen commands as laws over \<open>view\<close> (the live keyspace)
    and \<open>clock\<close>.
  \<^item> \<open>Redis_Reference\<close>: an in-memory server that satisfies the laws, for the witnesses.
  \<^item> \<open>Key_Schema\<close>: every key the source builds, and when two of them are equal.
  \<^item> \<open>Tenant_Plan\<close>: \<open>billing/domain/tenant_plan.py\<close>.
  \<^item> \<open>Token_Bucket\<close>: \<open>billing/infrastructure/token_bucket.py\<close>; the abstract bucket is a
    level that refills and is drawn, and the script refines it.
  \<^item> \<open>Rate_Limiter\<close>: \<open>billing/application/rate_limiter.py\<close>.
  \<^item> \<open>Semaphore\<close>: \<open>billing/infrastructure/concurrency_semaphore.py\<close>; every tenant's key is
    a \<open>guarded_store\<close>, and over timely histories the script refines a counting semaphore.
  \<^item> \<open>Event_Store\<close>: \<open>billing/application/ingest_event.py\<close> and
    \<open>billing/infrastructure/event_repository.py\<close>.
  \<^item> \<open>Deduplication\<close>: the at-most-once argument, by counting claims won and not yet used.
  \<^item> \<open>Billing_Calculator\<close> and \<open>Invoice_Generator\<close>: the modules of the same names in
    \<open>billing/application\<close>.
  \<^item> \<open>Http\<close>: requests, responses, and \<open>tenant.py\<close>. \<open>Serializers\<close>: the declared fields of
    \<open>serializers.py\<close>, what validated data look like, the period check, and the dictionary
    form of an event. \<open>Middleware\<close>: \<open>middleware.py\<close>. \<open>Application\<close>: \<open>views.py\<close>, \<open>urls.py\<close>,
    the order of \<open>MIDDLEWARE\<close>, and the whole application as one handler.
  \<^item> \<open>Redis_Client\<close>: \<open>billing/infrastructure/redis.py\<close>, callers in steps of lookup and
    store.
  \<^item> \<open>Load_Runner\<close>: \<open>scripts/simulate_incident.py\<close>.
  \<^item> Properties across components: \<open>Store_Types\<close> (a schema of the store, kept by every
    call; the locale \<open>redis_server\<close> is a \<open>guarded_store\<close> for it), \<open>Slot_Discipline\<close> and
    \<open>In_Flight\<close> (who holds a slot, over histories that know the age of each request),
    \<open>Observed\<close> (the same histories with the request of each thread and a mark on those
    whose gate failed), \<open>Heavy_Work\<close> and \<open>Admission\<close> (how many heavy requests are at work,
    and how much a tenant is let through), \<open>Answers\<close> (the number of steps of a request),
    \<open>Serial_Ingest\<close> (a simulation between interleaved ingestions and a sequential
    reference), \<open>Separation\<close> (the code reads a reply only as a value, and the locale
    \<open>unwinding\<close>: if steps of others do not touch one's view and one's own steps depend on
    it alone, a history can be purged of the others) and \<open>Noninterference\<close> (its instance
    for a tenant's keys, on a server whose expiry depends on deadline and clock only, the
    locale \<open>punctual_server\<close>), \<open>Histories\<close> (histories that record each request that
    reached the server with its reply, and the locale \<open>accounted_store\<close> that lifts an
    account kept by single requests, with instances for the tokens drawn by a tenant and
    for its event log); \<open>Scenarios\<close> holds the sample request of the witnesses.
  \<^item> \<open>Reservation\<close>: programs that draw one unit each of a shared resource among programs
    that leave it alone; the locale \<open>reservation\<close> is the contract of the resource, and its
    lemma says that calm programs no more than the units all get theirs.
    \<open>Noisy_Neighbour\<close>: the tokens of a tenant as such a resource, and the load runner
    played against the application.
  \<^item> \<open>Settings\<close>: \<open>billing_platform/settings.py\<close>. \<open>Entry_Points\<close>: \<open>manage.py\<close>, \<open>wsgi.py\<close>,
    \<open>asgi.py\<close>, \<open>apps.py\<close>, and the two \<open>conftest.py\<close>.

  \<^bold>\<open>What the theorems show.\<close> For each use case and gate, its result and its effect on the
  store on every branch. Across components, for any interleaving of requests of any
  tenants with lost messages and stopped processes: the slots of a tenant stay within its
  plan's cap, and in a prompt system the heavy requests of a tenant at work are no more
  than that, apart from those let through because the gate failed; an event is recorded at
  most once in a week; what a tenant is let through the rate gate costs no more than what
  its bucket held and its plan has refilled since, again apart from requests whose gate
  failed; no entry of an event log is ever lost or moved, and its counts never go down; no
  tenant's keys are written by another's requests, and moreover everything a tenant is
  answered could have been answered had it been the only one; a tenant that sends no more
  events than its bucket holds, and whose messages get through, has each of them accepted
  however noisy the others are, so that the quiet workload of the load runner succeeds
  during any flood (that messages get through is a hypothesis there: the connection pool,
  whose exhaustion the incident was about, is inside the client library); every key keeps
  its type, so that no call is answered with an error by the server itself. Without faults
  concurrent ingestions are equivalent to sequential ones. The theorems of this theory
  also follow single requests from end to end. Some theorems state weaknesses of the code
  as it is: a fault between claim and append loses an event for the seven days of its
  marker, a draft that expires while it is issued becomes an empty invoice, a fault before
  \<open>EXPIRE\<close> leaves a draft for ever, a colon in a tenant id joins two namespaces, first
  callers that meet in the client factory get a client each, and the guard that keeps the
  tests off other databases than number 15 accepts some of them.

  \<^bold>\<open>Assumptions and limits.\<close> Numbers are exact rationals; the rounding the source asks for
  is written out, that of binary floating point is not, and numbers in request bodies are
  finite. Redis commands and scripts are atomic, keys are not evicted, the server does not
  lose writes, and its clock does not go back; the clocks of the Python processes are
  arbitrary, as are the identifiers they draw, except in \<open>In_Flight\<close>, whose \<open>prompt\<close>
  systems have clocks within \<open>skew\<close> of the server's, fresh identifiers, and requests over
  within \<open>dur\<close>, with \<open>dur + 2 skew\<close> at most 59 seconds. The client does not retry, and it
  is built without a socket timeout: a lost reply is an error to the thread that waits for
  it, or, as no thread has to take a further step, a wait without end (\<open>Programs\<close>); only
  the \<open>prompt\<close> systems exclude the latter. Requests of one server have no other writers
  than the programs a theorem names. \<open>Noninterference\<close> also asks that a key is gone
  exactly when its deadline has passed. Django and Django REST framework are the record
  \<open>framework\<close>, with the hypothesis \<open>framework_ok\<close> where a theorem needs it: in particular
  accepted data conform to the declared fields. No fuel is used: programs are finite
  trees, and \<open>Answers\<close> counts their steps. The load runner's pools of threads finish in an
  order that is an argument (\<open>noisy_finish\<close>, \<open>quiet_finish\<close>).

  \<^bold>\<open>Not modelled.\<close> Logging; the connection pool inside the Redis client and the parsing of
  fields inside Django REST framework, both library code; what Django does with its
  settings and behind the route to its admin pages; the command line and the printed text
  of the load runner; the test cases and the HTTP server they start. What is left of the
  sources is of these kinds.\<close>

text \<open>
  C1. The concurrency cap of the whole application: whatever requests of whatever tenants
  arrive, interleave, lose messages or stop half way, the slots recorded for a tenant never
  exceed its plan's cap.
\<close>

theorem application_keeps_cap:
  assumes srv: "redis_server exec view clock elapse" and fw: "framework_ok fw"
    and reach: "sys_reach exec elapse (range (application fw)) s0 T (s, ps)"
    and start: "view s0 (concurrency_key t) = None"
  shows "\<exists>z. as_zset (view s (concurrency_key t)) = Some z \<and> int (length z) \<le> concurrency_cap t"
proof -
  have "calls_in (semaphore_call (concurrency_key t) (concurrency_cap t)) (application fw r)" for r
    by (rule calls_in_mono [OF application_tenant_calls [OF fw]]) (rule tenant_call_semaphore)
  then have "\<forall>p \<in> range (application fw). calls_in (semaphore_call (concurrency_key t) (concurrency_cap t)) p"
    by blast
  from redis_server.reach_within_cap [OF srv reach this start] show ?thesis by (auto elim: within_capE)
qed

theorem application_keeps_cap_witness:
  "\<exists>s resp z. sys_reach mem_exec mem_elapse (range (application sample_framework)) (mem_at 0) 0 (s, [Return resp])
     \<and> as_zset (mem_data s (concurrency_key ''globex'')) = Some z \<and> int (length z) \<le> 20"
proof -
  obtain s resp where r: "sys_reach mem_exec mem_elapse (range (application sample_framework)) (mem_at 0) 0 (s, [Return resp])"
    by (rule sample_reach [of "range (application sample_framework)"]) simp_all
  have "mem_data (mem_at 0) (concurrency_key ''globex'') = None" by (simp add: mem_at_def)
  from application_keeps_cap [OF mem.redis_server_axioms, OF sample_framework_ok r this] r show ?thesis
    by (auto simp: concurrency_cap_limits limits_of_def)
qed

text \<open>
  C14. Every tenant's token bucket stays well-formed whatever requests arrive and fail: its
  key holds a hash whose level lies between zero and the plan's capacity, refilled no later
  than now and not due to expire before an hour's refill. This is what the theorems on the
  rate gate ask of the store.
\<close>

theorem application_keeps_buckets:
  assumes srv: "redis_server exec view clock elapse" and fw: "framework_ok fw"
    and reach: "sys_reach exec elapse (range (application fw)) s0 T (s, ps)"
    and start: "view s0 (bucket_key t) = None"
  shows "tenant_bucket_ok t (clock s) (view s (bucket_key t))
    \<and> 0 \<le> tenant_level t (view s (bucket_key t)) (clock s)
    \<and> tenant_level t (view s (bucket_key t)) (clock s) \<le> of_int (burst (limits_of t))"
proof -
  have "calls_in (bucket_call t) (application fw r)" for r
    by (rule calls_in_mono [OF application_tenant_calls [OF fw]]) (rule tenant_call_bucket)
  then have "\<forall>p \<in> range (application fw). calls_in (bucket_call t) p" by blast
  moreover have "tenant_bucket_ok t (clock s0) (view s0 (bucket_key t))"
    by (simp add: start tenant_bucket_ok_def)
  ultimately have ok: "tenant_bucket_ok t (clock s) (view s (bucket_key t))"
    by (rule redis_server.reach_bucket_ok [OF srv reach])
  then show ?thesis
    using level_nonneg [OF ok [unfolded tenant_bucket_ok_def] order.strict_implies_order [OF plan_numbers(1) [of t]] plan_numbers(2)]
      level_le [OF plan_numbers(2) [of t], of "plan_rate t" "view s (bucket_key t)" "clock s"]
    by (simp add: tenant_level_def)
qed

theorem application_keeps_buckets_witness:
  "\<exists>s resp. sys_reach mem_exec mem_elapse (range (application sample_framework)) (mem_at 0) 0 (s, [Return resp])
     \<and> tenant_level ''globex'' (mem_data s (bucket_key ''globex'')) (mem_clock s) \<le> 1000"
proof -
  obtain s resp where r: "sys_reach mem_exec mem_elapse (range (application sample_framework)) (mem_at 0) 0 (s, [Return resp])"
    by (rule sample_reach [of "range (application sample_framework)"]) simp_all
  have "mem_data (mem_at 0) (bucket_key ''globex'') = None" by (simp add: mem_at_def)
  from application_keeps_buckets [OF mem.redis_server_axioms, OF sample_framework_ok r this] r show ?thesis
    by (auto simp: limits_of_def)
qed

text \<open>
  C2. At most once, for the whole application: in a week that starts with the marker of
  \<open>(t, idem)\<close> free, any requests with any faults add at most one entry with that
  idempotency key to the tenant's stream.
\<close>

theorem application_ingests_at_most_once:
  assumes srv: "redis_server exec view clock elapse" and fw: "framework_ok fw"
    and reach: "sys_reach exec elapse (range (application fw)) s0 T (s, ps)"
    and week: "int T < 604800 * usec" and free: "view s0 (idempotency_key t idem) = None"
  shows "copies idem (view s (stream_key t)) \<le> copies idem (view s0 (stream_key t)) + 1"
proof -
  have "\<forall>p \<in> range (application fw). claims_first t idem 0 p"
    using application_claims_first [OF fw] by blast
  from redis_server.reach_at_most_once [OF srv reach this free week] show ?thesis by simp
qed

theorem application_ingests_at_most_once_witness:
  "\<exists>s resp. sys_reach mem_exec mem_elapse (range (application sample_framework)) (mem_at 0) 0 (s, [Return resp])
     \<and> copies ''smoke-1'' (mem_data s (stream_key ''globex'')) \<le> 1"
proof -
  obtain s resp where r: "sys_reach mem_exec mem_elapse (range (application sample_framework)) (mem_at 0) 0 (s, [Return resp])"
    by (rule sample_reach [of "range (application sample_framework)"]) simp_all
  have week: "int 0 < 604800 * usec" and free: "mem_data (mem_at 0) (idempotency_key ''globex'' ''smoke-1'') = None"
    by (simp_all add: mem_at_def)
  from application_ingests_at_most_once [OF mem.redis_server_axioms, OF sample_framework_ok r week free] r
  show ?thesis by (auto simp: mem_at_def)
qed

text \<open>
  C10. Tenant isolation: however many requests of other tenants run, no key of tenant \<open>t\<close>
  (its events, bucket, slots, prices, markers and invoices) is written: each entry is the
  one at the start, or it had an expiry and is gone. Tenant ids are taken to hold no colon.
\<close>

theorem tenants_are_isolated:
  assumes srv: "redis_server exec view clock elapse" and fw: "framework_ok fw"
    and reach: "sys_reach exec elapse (application fw ` R) s0 T (s, ps)"
    and others: "\<forall>r \<in> R. header_tenant r \<noteq> t \<and> plain_tenant (header_tenant r)" and plain: "plain_tenant t"
  shows "\<forall>k \<in> tenant_keys t. view s k = view s0 k \<or> deadline_of (view s0 k) \<noteq> None \<and> view s k = None"
proof
  fix k assume k: "k \<in> tenant_keys t"
  have "\<forall>p \<in> application fw ` R. calls_in (call_cmds (\<lambda>x. key_of x \<noteq> Some k)) p"
    using others by (auto intro!: calls_other_tenant [OF fw plain _ _ k])
  from redis_server.reach_bystander [OF srv reach this]
  show "view s k = view s0 k \<or> deadline_of (view s0 k) \<noteq> None \<and> view s k = None"
    by (simp add: kept_or_expired_def)
qed

theorem tenants_are_isolated_witness:
  "\<exists>s resp. sys_reach mem_exec mem_elapse {application sample_framework sample_ingest} (mem_at 0) 0 (s, [Return resp])
     \<and> mem_data s (bucket_key ''initech'') = None"
proof -
  obtain s resp where r: "sys_reach mem_exec mem_elapse (application sample_framework ` {sample_ingest}) (mem_at 0) 0 (s, [Return resp])"
    by (rule sample_reach [of "application sample_framework ` {sample_ingest}"]) simp_all
  have others: "\<forall>r \<in> {sample_ingest}. header_tenant r \<noteq> ''initech'' \<and> plain_tenant (header_tenant r)"
    by (simp add: sample_ingest_facts plain_tenant_def)
  have plain: "plain_tenant ''initech''" by (simp add: plain_tenant_def)
  have k: "bucket_key ''initech'' \<in> tenant_keys ''initech''" by simp
  from bspec [OF tenants_are_isolated [OF mem.redis_server_axioms, OF sample_framework_ok r others plain] k] r
  show ?thesis by (auto simp: mem_at_def)
qed

text \<open>
  C19. An ingest from the request to the response: a well-formed event with a free marker
  and a token in the tenant's bucket is answered 202 with the client's own key and
  \<open>duplicate = False\<close>, is appended to the tenant's stream, and costs one token.
\<close>

theorem ingest_request_is_accepted:
  assumes srv: "redis_server exec view clock elapse" and fw: "framework_ok fw"
    and post: "req_method r = ''POST''" "req_path r = ''/api/v1/events/ingest''"
    and t: "header_tenant r = t" "t \<noteq> []" and body: "is_valid (fw_fields fw) UsageEventSerializer (req_body r) = Inr data"
    and cmd: "event_command t data = Inr c"
    and ok: "tenant_bucket_ok t (clock s) (view s (bucket_key t))"
    and token: "1 \<le> tenant_level t (view s (bucket_key t)) (clock s)"
    and free: "view s (idempotency_key t (ev_idempotency_key c)) = None"
    and es: "as_stream (view s (stream_key t)) = Some es"
  shows "\<exists>i s'. run exec (application fw r) [Deliver, Deliver, Deliver] s
      = (Done (ingest_response t \<lparr>event_id = ev_idempotency_key c, duplicate = False\<rparr>), [], s')
    \<and> as_stream (view s' (stream_key t)) = Some (es @ [(i, serialize_event c)])
    \<and> tenant_level t (view s' (bucket_key t)) (clock s') = tenant_level t (view s (bucket_key t)) (clock s) - 1"
  by (rule redis_server.application_ingest [OF assms, of "[]"]) blast

theorem ingest_request_is_accepted_witness:
  "\<exists>s'. run mem_exec (application sample_framework sample_ingest) [Deliver, Deliver, Deliver] (mem_at 0)
      = (Done (ingest_response ''globex'' \<lparr>event_id = ''smoke-1'', duplicate = False\<rparr>), [], s')"
proof -
  have ne: "''globex'' \<noteq> []" by simp
  have lvl: "1 \<le> tenant_level ''globex'' (mem_data (mem_at 0) (bucket_key ''globex'')) (mem_clock (mem_at 0))"
    by (simp add: sample_bucket)
  have store: "mem_data (mem_at 0) (idempotency_key ''globex'' (ev_idempotency_key sample_command)) = None"
    "as_stream (mem_data (mem_at 0) (stream_key ''globex'')) = Some []"
    by (simp_all add: mem_at_def)
  have key: "ev_idempotency_key sample_command = ''smoke-1''" by (simp add: sample_command_def)
  from ingest_request_is_accepted [OF mem.redis_server_axioms, OF sample_framework_ok sample_ingest_facts(1,2,3) ne
      sample_ingest_facts(4,5) sample_bucket(1) lvl store]
  show ?thesis unfolding key by blast
qed

text \<open>
  C26. The gates are nested the way the settings say: a request the rate limiter rejects is
  answered 429 at once and changes nothing but the tenant's bucket. It takes no
  concurrency slot and reaches no view.
\<close>

theorem rate_limited_request_takes_no_slot:
  assumes srv: "redis_server exec view clock elapse"
    and guarded: "should_guard r" "header_tenant r = t" "t \<noteq> []"
    and ok: "tenant_bucket_ok t (clock s) (view s (bucket_key t))"
    and low: "tenant_level t (view s (bucket_key t)) (clock s) < of_int (cost_of (req_path r))"
  shows "\<exists>n \<ge> 1. \<exists>b s'. run exec (application fw r) (Deliver # tape) s = (Done (rate_limited_response t n), tape, s')
    \<and> view s' = (view s)(bucket_key t := b)"
  by (rule redis_server.application_rate_limited [OF assms]) blast

theorem rate_limited_request_takes_no_slot_witness:
  "\<exists>n s'. run mem_exec (application sample_framework sample_ingest) [Deliver]
      (put (bucket_key ''globex'') (Some (RHash (bucket_hash [] 0 0), Some (3600 * usec))) (mem_at 0))
    = (Done (rate_limited_response ''globex'' n), [], s')"
proof -
  let ?s = "put (bucket_key ''globex'') (Some (RHash (bucket_hash [] 0 0), Some (3600 * usec))) (mem_at 0)"
  have ne: "''globex'' \<noteq> []" by simp
  have ok: "tenant_bucket_ok ''globex'' (mem_clock ?s) (mem_data ?s (bucket_key ''globex''))"
    by (simp add: tenant_bucket_ok_def mem_at_def limits_of_def secs_def BUCKET_TTL_SECONDS_def)
  have low: "tenant_level ''globex'' (mem_data ?s (bucket_key ''globex'')) (mem_clock ?s)
      < of_int (cost_of (req_path sample_ingest))"
    by (simp add: tenant_level_def level_def hash_level_def mem_at_def limits_of_def secs_def
        sample_ingest_facts cost_of_def ENDPOINT_COSTS_def)
  from rate_limited_request_takes_no_slot [OF mem.redis_server_axioms, OF guarded_paths(1) [OF sample_ingest_facts(2)]
      sample_ingest_facts(3) ne ok low, of sample_framework "[]"]
  show ?thesis by blast
qed

text \<open>
  C34. A request of the API without a usable tenant header (absent, empty or blank) is
  answered 400 without a single call to Redis, through both gates.
\<close>

theorem missing_tenant_is_400:
  assumes fw: "framework_ok fw" and post: "req_method r = ''POST''"
    and path: "req_path r \<in> {''/api/v1/events/ingest'', ''/api/v1/billing/calculate'', ''/api/v1/invoices/generate''}"
    and blank: "\<forall>h. tenant_header r = Some h \<longrightarrow> (\<forall>c \<in> set h. py_isspace c)"
  shows "\<exists>resp. application fw r = Return resp \<and> resp_status resp = 400"
proof -
  have none: "header_tenant r = []"
    using blank by (cases "tenant_header r") (simp_all add: header_tenant_def py_strip_empty_iff)
  then obtain d where "resolve_tenant r = Inl (ValidationError d)"
    by (auto simp: resolve_tenant_def Let_def)
  then have "route fw r = Return (fw_on_error fw (ValidationError d))"
    using path post by (auto simp: route_post ingest_view_def calculate_view_def generate_view_def)
  then have "application fw r = Return (fw_on_error fw (ValidationError d))"
    by (simp add: application_transparent [OF fw] converted_def rate_limit_passes concurrency_passes none)
  with fw show ?thesis by (simp add: framework_ok_def)
qed

theorem missing_tenant_is_400_witness:
  "\<exists>resp. application sample_framework (sample_ingest\<lparr>tenant_header := Some ''  ''\<rparr>) = Return resp \<and> resp_status resp = 400"
  by (rule missing_tenant_is_400 [OF sample_framework_ok]) (simp_all add: sample_ingest_def py_isspace_def)

text \<open>
  C33. A billing period that does not end after it starts is refused with 400 before any
  Redis work of the calculation, and every period that reaches \<open>calculate_for\<close> is ordered.
\<close>

theorem bad_period_is_400:
  assumes fw: "framework_ok fw" and post: "req_method r = ''POST''" "req_path r = ''/api/v1/billing/calculate''"
    and t: "header_tenant r \<noteq> []"
    and body: "fw_fields fw (declared_fields BillingCalculateSerializer) (req_body r) = Inr data"
  shows "\<exists>c a b. map_of data ''customer_id'' = Some (PyStr c) \<and>
    map_of data ''period_start'' = Some (PyDatetime a) \<and> map_of data ''period_end'' = Some (PyDatetime b) \<and>
    (if a < b
     then route fw r = catch (bnd (calculate_for (header_tenant r) c a b)
            (\<lambda>x. Return (calculation_response (header_tenant r) x))) (\<lambda>e. Return (fw_on_error fw e))
     else \<exists>resp. route fw r = Return resp \<and> resp_status resp = 400)"
proof -
  from period_data [OF framework_fields [OF fw body]] obtain c a b
    where d: "map_of data ''customer_id'' = Some (PyStr c)" "map_of data ''period_start'' = Some (PyDatetime a)"
      "map_of data ''period_end'' = Some (PyDatetime b)"
    and v: "validate_period data = (if a < b then Inr data
      else Inl (ValidationError (JObj [(''period_end'', JStr ''period_end must be after period_start.'')])))" .
  have "validate BillingCalculateSerializer = validate_period" by (simp add: BillingCalculateSerializer_def)
  with body have valid: "is_valid (fw_fields fw) BillingCalculateSerializer (req_body r) = validate_period data"
    by (simp add: is_valid_def)
  have st: "resp_status (fw_on_error fw (ValidationError d)) = 400" for d using fw by (simp add: framework_ok_def)
  show ?thesis
    by (intro exI conjI, rule d(1), rule d(2), rule d(3))
       (simp add: route_post(2) [OF post] calculate_view_def valid v resolve_tenant_header [OF t] dict_item_present [OF d(1)]
          dict_item_present [OF d(2)] dict_item_present [OF d(3)] st)
qed

theorem bad_period_is_400_witness:
  "\<exists>resp. route sample_framework \<lparr>req_method = ''POST'', req_path = ''/api/v1/billing/calculate'',
       tenant_header = Some ''globex'',
       req_body = [(''customer_id'', PyStr ''c''), (''period_start'', PyDatetime 7), (''period_end'', PyDatetime 7)]\<rparr>
     = Return resp \<and> resp_status resp = 400"
  using bad_period_is_400 [OF sample_framework_ok, of "\<lparr>req_method = ''POST'', req_path = ''/api/v1/billing/calculate'',
       tenant_header = Some ''globex'',
       req_body = [(''customer_id'', PyStr ''c''), (''period_start'', PyDatetime 7), (''period_end'', PyDatetime 7)]\<rparr>"
      "[(''customer_id'', PyStr ''c''), (''period_start'', PyDatetime 7), (''period_end'', PyDatetime 7)]"]
  by (simp add: sample_framework_def sample_parse_def filled_def BillingCalculateSerializer_def
      header_tenant_def py_strip_def py_isspace_def Let_def)

text \<open>
  C32. Issuing an invoice that is gone is the client's error: 404 with the id it sent, not
  the framework's rendering of an exception, and nothing is written.
\<close>

theorem missing_invoice_is_404:
  assumes srv: "redis_server exec view clock elapse"
    and post: "req_method r = ''POST''" "req_path r = ''/api/v1/invoices/generate''"
    and t: "header_tenant r = t" "t \<noteq> []" and body: "is_valid (fw_fields fw) InvoiceGenerateSerializer (req_body r) = Inr data"
    and i: "map_of data ''invoice_id'' = Some (PyStr i)"
    and gone: "view s (invoice_key t i) = None"
  shows "run exec (route fw r) (Deliver # tape) s = (Done (not_found_response t i), tape, s)"
proof -
  have "header_tenant r \<noteq> []" using t by simp
  from resolve_tenant_header [OF this] show ?thesis
    using redis_server.generate_missing [OF srv gone, of tape] t(1)
    by (simp add: route_post(3) [OF post] generate_view_def body dict_item_present [OF i] run_catch run_bnd run_try_else)
qed

theorem missing_invoice_is_404_witness:
  "run mem_exec (route sample_framework \<lparr>req_method = ''POST'', req_path = ''/api/v1/invoices/generate'',
       tenant_header = Some ''globex'', req_body = [(''invoice_id'', PyStr ''inv_1'')]\<rparr>) [Deliver] (mem_at 0)
     = (Done (not_found_response ''globex'' ''inv_1''), [], mem_at 0)"
  by (rule missing_invoice_is_404 [OF mem.redis_server_axioms, where data = "[(''invoice_id'', PyStr ''inv_1'')]"])
     (simp_all add: sample_framework_def sample_parse_def filled_def is_valid_def InvoiceGenerateSerializer_def
        header_tenant_def py_strip_def py_isspace_def Let_def mem_at_def)

text \<open>
  The concurrency gate around a real view: a heavy request that issues a stored draft, with a handler whose outcome
  depends on the store it finds.
\<close>

definition sample_issue :: "validated HttpRequest" where
  "sample_issue =
     \<lparr>req_method = ''POST'', req_path = ''/api/v1/invoices/generate'', tenant_header = Some ''globex'',
      req_body = [(''invoice_id'', PyStr ''inv_1'')]\<rparr>"

lemma sample_issue_facts:
  "req_method sample_issue = ''POST''" "req_path sample_issue = ''/api/v1/invoices/generate''"
  "req_path sample_issue \<in> set HEAVY_ENDPOINTS" "header_tenant sample_issue = ''globex''"
  "is_valid (fw_fields sample_framework) InvoiceGenerateSerializer (req_body sample_issue) = Inr [(''invoice_id'', PyStr ''inv_1'')]"
  by (simp_all add: sample_issue_def sample_framework_def sample_parse_def filled_def is_valid_def InvoiceGenerateSerializer_def
      header_tenant_def py_strip_def py_isspace_def Let_def HEAVY_ENDPOINTS_def)

theorem concurrency_gate_gives_slot_back_witness:
  "\<exists>inv s'. run mem_exec (concurrency_middleware (route sample_framework) sample_issue)
      [Reads 0, Draws ''a'', Deliver, Deliver, Reads 5, Deliver, Deliver, Deliver]
      (put (invoice_key ''globex'' ''inv_1'') (Some (RHash [(''amount'', Number 7)], None)) (mem_at 0))
    = (Done (issued_response ''globex'' inv), [], s')
    \<and> gi_amount inv = 7 \<and> as_zset (mem_data s' (concurrency_key ''globex'')) = Some []"
proof -
  let ?s = "put (invoice_key ''globex'' ''inv_1'') (Some (RHash [(''amount'', Number 7)], None)) (mem_at 0)"
  let ?k = "concurrency_key ''globex''" and ?h = "route sample_framework" and ?r = sample_issue
  let ?inv = "\<lparr>gi_invoice_id = ''inv_1'', gi_tenant_id = ''globex'', gi_customer_id = Text [], gi_amount = 7,
    gi_status = ''issued'', gi_issued_at = 5\<rparr>"
  have ne: "''globex'' \<noteq> []" and z: "as_zset (mem_data ?s ?k) = Some []" and live: "[] = drop_scores (fmt6 (0 - 60)) []"
    and room: "int (length ([] :: (string \<times> rat) list)) < concurrency_cap ''globex''" and fresh: "''a'' \<notin> fst ` set ([] :: (string \<times> rat) list)"
    by (simp_all add: mem_at_def drop_scores_def concurrency_cap_limits limits_of_def)
  note concurrency_gate_gives_slot_back [OF mem.redis_server_axioms, OF sample_issue_facts(3,4) ne z live room fresh, of ?h]
  then obtain s1 where v1: "mem_data s1 = (mem_data ?s)(?k := zset_entry (AList.update ''a'' (fmt6 0) []) (Some (mem_clock ?s + 60 * usec)))"
    and given: "\<And>tape x out s2 z2. run mem_exec (?h ?r) (tape @ [x]) s1 = (out, [x], s2) \<Longrightarrow> out \<noteq> Crashed \<Longrightarrow>
         x \<in> {Deliver, Unsent, Lost} \<Longrightarrow> as_zset (mem_data s2 ?k) = Some z2 \<Longrightarrow>
       \<exists>s'. run mem_exec (concurrency_middleware ?h ?r) (Reads 0 # Draws ''a'' # Deliver # tape @ [x]) ?s = (out, [], s')
         \<and> as_zset (mem_data s' ?k) = Some (if x = Unsent then z2 else AList.delete ''a'' z2)" by blast
  have "as_hash (mem_data s1 (invoice_key ''globex'' ''inv_1'')) = Some [(''amount'', Number 7)]" by (simp add: v1)
  then obtain s2 where gen: "run mem_exec (generate_for ''globex'' ''inv_1'') (Deliver # Reads 5 # Deliver # Deliver # [Deliver]) s1
      = (Done ?inv, [Deliver], s2)"
    and v2: "mem_data s2 = (mem_data s1)(invoice_key ''globex'' ''inv_1'' :=
      Some (RHash (update_fields [(''amount'', Number 7)] (issued_mapping 5)), Some (mem_clock s1 + 3600 * usec)))"
    by (rule mem.generate_run [where w = 5 and tape = "[Deliver]"]) (simp_all add: dict_get_def)
  have "header_tenant ?r \<noteq> []" by (simp add: sample_issue_facts)
  from resolve_tenant_header [OF this] gen
  have "run mem_exec (?h ?r) ([Deliver, Reads 5, Deliver, Deliver] @ [Deliver]) s1
      = (Done (issued_response ''globex'' ?inv), [Deliver], s2)"
    by (simp add: route_post(3) sample_issue_facts generate_view_def dict_item_present run_catch run_bnd run_try_else)
  moreover have "as_zset (mem_data s2 ?k) = Some [(''a'', fmt6 0)]" by (simp add: v2 v1 zset_entry_def)
  ultimately obtain s' where "run mem_exec (concurrency_middleware ?h ?r)
        (Reads 0 # Draws ''a'' # Deliver # [Deliver, Reads 5, Deliver, Deliver] @ [Deliver]) ?s
      = (Done (issued_response ''globex'' ?inv), [], s')" and "as_zset (mem_data s' ?k) = Some []"
    using given [of "[Deliver, Reads 5, Deliver, Deliver]" Deliver "Done (issued_response ''globex'' ?inv)" s2 "[(''a'', fmt6 0)]"]
    by auto
  then show ?thesis by (intro exI [of _ ?inv] exI [of _ s']) simp
qed

end
